(* ===== verification/Prelude.thy ===== *)
theory Prelude
  imports Complex_Main "HOL-Library.Word" "HOL-Library.Multiset"
begin

text \<open>
  Shared vocabulary of the development: the machine types of the Go source, wrap-around of
  its signed integers, truncating division, the outcome of a fallible call (a value, an
  error or a panic), big-endian byte encodings, and generic lemmas on lists and maps.

  Go's \<open>int\<close> and \<open>time.Duration\<close> are 64-bit signed integers. They are modelled as
  \<open>int\<close>, with \<open>wrap64\<close> written wherever the source's arithmetic can leave the range.
  Unsigned fields (\<open>uint8\<close>, \<open>uint16\<close>, \<open>uint32\<close>, \<open>uint64\<close>) are words.
  Times are nanoseconds since an arbitrary origin.
\<close>

unbundle bit_operations_syntax

named_theorems wire_simps \<open>byte-level encodings and their lengths\<close>
named_theorems frame_simps \<open>fields an operation leaves unchanged\<close>

section \<open>Machine types\<close>

type_synonym byte = "8 word"
type_synonym bytes = "byte list"
type_synonym u16 = "16 word"
type_synonym u32 = "32 word"
type_synonym u64 = "64 word"
type_synonym time = int       \<comment> \<open>nanoseconds\<close>
type_synonym duration = int   \<comment> \<open>\<open>time.Duration\<close>, nanoseconds\<close>
type_synonym chan = nat       \<comment> \<open>the identity of a notification channel\<close>

definition wrap64 :: "int \<Rightarrow> int" where
  "wrap64 x = (x + 2 ^ 63) mod 2 ^ 64 - 2 ^ 63"

definition wrap32 :: "int \<Rightarrow> int" where
  "wrap32 x = (x + 2 ^ 31) mod 2 ^ 32 - 2 ^ 31"

lemma wrap64_id: "- (2 ^ 63) \<le> x \<Longrightarrow> x < 2 ^ 63 \<Longrightarrow> wrap64 x = x"
  by (simp add: wrap64_def)

lemma wrap64_bounds: "- (2 ^ 63) \<le> wrap64 x" "wrap64 x < 2 ^ 63"
  using pos_mod_bound [of "2 ^ 64" "x + 2 ^ 63"] by (simp_all add: wrap64_def)

lemma wrap32_id: "- (2 ^ 31) \<le> x \<Longrightarrow> x < 2 ^ 31 \<Longrightarrow> wrap32 x = x"
  by (simp add: wrap32_def)

lemma wrap32_add [simp]: "wrap32 (wrap32 x + y) = wrap32 (x + y)"
proof -
  have "wrap32 x + y + 2 ^ 31 = (x + 2 ^ 31) mod 2 ^ 32 + y" by (simp add: wrap32_def)
  then have "wrap32 (wrap32 x + y) = ((x + 2 ^ 31) mod 2 ^ 32 + y) mod 2 ^ 32 - 2 ^ 31"
    by (simp only: wrap32_def [of "wrap32 x + y"])
  also have "\<dots> = wrap32 (x + y)"
    by (simp only: mod_add_left_eq wrap32_def [of "x + y"]) (simp add: algebra_simps)
  finally show ?thesis .
qed

text \<open>Go's integer division truncates towards zero.\<close>

definition go_quot :: "int \<Rightarrow> int \<Rightarrow> int" where
  "go_quot a b = sgn a * sgn b * (\<bar>a\<bar> div \<bar>b\<bar>)"

lemma go_quot_nonneg: "0 \<le> a \<Longrightarrow> 0 < b \<Longrightarrow> go_quot a b = a div b"
  by (cases "a = 0") (simp_all add: go_quot_def)

text \<open>Conversion of a floating-point value to an integer truncates towards zero.\<close>

definition go_trunc :: "real \<Rightarrow> int" where
  "go_trunc r = (if 0 \<le> r then \<lfloor>r\<rfloor> else \<lceil>r\<rceil>)"

lemma go_trunc_mono: "r \<le> s \<Longrightarrow> go_trunc r \<le> go_trunc s"
proof -
  assume le: "r \<le> s"
  show ?thesis
  proof (cases "0 \<le> r \<or> s < 0")
    case True
    with le show ?thesis by (auto simp: go_trunc_def intro: floor_mono ceiling_mono)
  next
    case False
    then have "\<lceil>r\<rceil> \<le> 0" and "0 \<le> \<lfloor>s\<rfloor>" by (simp_all add: ceiling_le_iff)
    then have "\<lceil>r\<rceil> \<le> \<lfloor>s\<rfloor>" by linarith
    with False show ?thesis by (simp add: go_trunc_def)
  qed
qed

lemma go_trunc_of_int [simp]: "go_trunc (of_int k) = k"
  by (simp add: go_trunc_def)

section \<open>Outcomes of fallible calls\<close>

text \<open>
  Every error value and panic the modelled code can produce. Log output is not modelled.
\<close>

datatype error =
    ErrKeySize                  \<comment> \<open>key size must be 16, 24 or 32 bytes\<close>
  | ErrKeyNotInKeyring bytes    \<comment> \<open>key is not in keyring\<close>
  | ErrRemovePrimary            \<comment> \<open>removing primary key is not allowed\<close>
  | ErrMaxTagSizeExceed
  | ErrCompoundLength           \<comment> \<open>missing compound length byte\<close>
  | ErrTruncatedLens            \<comment> \<open>truncated len slice\<close>
  | ErrQueueFull
  | ErrNoLongRunMsg
  | ErrNoProbeNode
  | ErrCodec                    \<comment> \<open>an error of the msgpack codec\<close>
  | ErrUnknownAlgo byte         \<comment> \<open>cannot decompress unknown algorithm\<close>
  | ErrLzw                      \<comment> \<open>an error of the lzw reader or writer\<close>
  | ErrCipher                   \<comment> \<open>an error of the AES-GCM primitives\<close>
  | ErrEmptyPayload
  | ErrEncryptionVersion byte
  | ErrPayloadTooSmall nat
  | ErrNoKeyDecrypts
  | ErrRemoteTooLarge u32
  | ErrEOF                      \<comment> \<open>the reader has too few bytes\<close>
  | ErrExpectCrc
  | ErrCrcInvalid u32 u32
  | ErrNotEncrypted             \<comment> \<open>encryption is enabled but stream is NOT encrypted\<close>
  | ErrEncrypted                \<comment> \<open>stream is encrypted but encryption is NOT enabled\<close>
  | ErrTimeout                  \<comment> \<open>timeout waiting for a broadcast\<close>
  | ErrAdvertiseAddr            \<comment> \<open>failed to parse advertise address\<close>
  | ErrNet string               \<comment> \<open>an error of the operating system's network calls\<close>
  | ErrRemote string            \<comment> \<open>remote error: the text of an error response\<close>
  | ErrMsgType byte             \<comment> \<open>an unexpected message type on a stream\<close>
  | ErrShortWrite nat nat       \<comment> \<open>only some of the bytes written\<close>
  | ErrPublicAddr               \<comment> \<open>encryption not enabled for public address\<close>
  | ErrText string              \<comment> \<open>any other error, by its text\<close>

datatype panic =
    IndexOutOfRange
  | UnsupportedVersion
  | NilDereference
  | LeaveAfterShutdown
  | MakeSliceRange
  | NoAvailableAddr

datatype 'a outcome = Ok 'a | Err error | Panic panic

primrec bind_outcome :: "'a outcome \<Rightarrow> ('a \<Rightarrow> 'b outcome) \<Rightarrow> 'b outcome" where
  "bind_outcome (Ok x) f = f x"
| "bind_outcome (Err e) f = Err e"
| "bind_outcome (Panic p) f = Panic p"

lemma bind_outcome_Ok [simp]: "bind_outcome r Ok = r"
  by (cases r) simp_all

lemma bind_outcome_eq_Ok:
  "bind_outcome r f = Ok y \<longleftrightarrow> (\<exists>x. r = Ok x \<and> f x = Ok y)"
  by (cases r) simp_all

lemma bind_outcome_eq_Panic:
  "bind_outcome r f = Panic p \<longleftrightarrow> r = Panic p \<or> (\<exists>x. r = Ok x \<and> f x = Panic p)"
  by (cases r) simp_all

section \<open>Big-endian encodings\<close>

text \<open>\<open>encoding/binary\<close>: \<open>BigEndian.PutUint16\<close>, \<open>Uint16\<close>, \<open>PutUint32\<close>, \<open>Uint32\<close>.\<close>

definition be16 :: "u16 \<Rightarrow> bytes" where
  "be16 v = [ucast (drop_bit 8 v), ucast v]"

definition rd16 :: "byte \<Rightarrow> byte \<Rightarrow> u16" where
  "rd16 b0 b1 = ucast b1 OR push_bit 8 (ucast b0)"

definition be32 :: "u32 \<Rightarrow> bytes" where
  "be32 v = [ucast (drop_bit 24 v), ucast (drop_bit 16 v), ucast (drop_bit 8 v), ucast v]"

definition rd32 :: "byte \<Rightarrow> byte \<Rightarrow> byte \<Rightarrow> byte \<Rightarrow> u32" where
  "rd32 b0 b1 b2 b3 =
     ucast b3 OR push_bit 8 (ucast b2) OR push_bit 16 (ucast b1) OR push_bit 24 (ucast b0)"

lemma length_be16 [simp, wire_simps]: "length (be16 v) = 2"
  by (simp add: be16_def)

lemma length_be32 [simp, wire_simps]: "length (be32 v) = 4"
  by (simp add: be32_def)

lemma rd16_be16 [wire_simps]: "rd16 (ucast (drop_bit 8 v)) (ucast v) = v"
  unfolding rd16_def by (rule bit_word_eqI) (auto simp: bit_simps)

lemma rd32_be32 [wire_simps]:
  "rd32 (ucast (drop_bit 24 v)) (ucast (drop_bit 16 v)) (ucast (drop_bit 8 v)) (ucast v) = v"
proof (rule bit_word_eqI)
  fix n
  assume "n < LENGTH(32)"
  then consider "n < 8" | "8 \<le> n" "n < 16" | "16 \<le> n" "n < 24" | "24 \<le> n" "n < 32"
    by fastforce
  then show "bit (rd32 (ucast (drop_bit 24 v)) (ucast (drop_bit 16 v))
      (ucast (drop_bit 8 v)) (ucast v)) n = bit v n"
    by cases (auto simp: rd32_def bit_simps)
qed

lemma unat_of_nat_small: "n < 2 ^ LENGTH('a) \<Longrightarrow> unat (of_nat n :: 'a::len word) = n"
  by (simp add: unat_of_nat take_bit_nat_eq_self)

lemma unat_succ: "x \<noteq> - 1 \<Longrightarrow> unat ((x :: 'a::len word) + 1) = Suc (unat x)"
  by (simp add: unatSuc add.commute [of x] add_eq_0_iff)

lemma word_less_succ: "x \<noteq> - 1 \<Longrightarrow> x < (x :: 'a::len word) + 1"
  by (simp add: word_less_nat_alt unat_succ)

section \<open>Lists\<close>

definition swap :: "nat \<Rightarrow> nat \<Rightarrow> 'a list \<Rightarrow> 'a list" where
  "swap i j xs = xs[i := xs ! j, j := xs ! i]"

lemma length_swap [simp]: "length (swap i j xs) = length xs"
  by (simp add: swap_def)

lemma mset_swap_lists [simp]: "i < length xs \<Longrightarrow> j < length xs \<Longrightarrow> mset (swap i j xs) = mset xs"
  unfolding swap_def by (rule mset_swap)

lemma set_swap_lists [simp]: "i < length xs \<Longrightarrow> j < length xs \<Longrightarrow> set (swap i j xs) = set xs"
  by (metis mset_swap_lists set_mset_mset)

lemma distinct_swap_lists [simp]:
  "i < length xs \<Longrightarrow> j < length xs \<Longrightarrow> distinct (swap i j xs) = distinct xs"
  by (metis mset_eq_imp_distinct_iff mset_swap_lists)

lemma nth_swap:
  "i < length xs \<Longrightarrow> j < length xs \<Longrightarrow> k < length xs \<Longrightarrow>
   swap i j xs ! k = (if k = j then xs ! i else if k = i then xs ! j else xs ! k)"
  by (auto simp: swap_def nth_list_update)

lemma mset_eq_set_distinct: "mset xs = mset ys \<Longrightarrow> set xs = set ys \<and> (distinct xs = distinct ys)"
  by (metis mset_eq_imp_distinct_iff set_mset_mset)

end
