(* ===== verification/Config.thy ===== *)
theory Config
  imports Prelude
begin

text \<open>
  \<^verbatim>\<open>src/config.go\<close>: the configuration record and the LAN defaults, and the address filter of
  \<^verbatim>\<open>src/net_transport.go\<close> (\<open>IPAllowed\<close>) that reads it. A \<open>net.IP\<close> is its byte slice (4 or
  16 bytes, empty for nil); a \<open>net.IPNet\<close> is an address and a mask. \<open>To4\<close>,
  \<open>networkNumberAndMask\<close> and \<open>IPNet_Contains\<close> follow the standard library.
\<close>

type_synonym IP = bytes

record IPNet =
  net_IP :: IP
  net_Mask :: bytes

record UDPAddr =
  ua_IP :: IP
  ua_Port :: int

record Config =
  c_ID :: string
  c_BindAddr :: string
  c_BindPort :: int
  c_AdvertiseAddr :: string
  c_AdvertisePort :: int
  c_CIDRsAllowed :: "IPNet list"
  c_Label :: string
  c_UDPBufferSize :: int
  c_DNSConfigPath :: string
  c_EnableCompression :: bool
  c_EncryptionVersion :: byte
  c_TcpTimeout :: duration
  c_NumIndirectChecks :: int
  c_PingTimeout :: duration
  c_ProbeInterval :: duration
  c_MaxRTT :: duration
  c_GossipNodes :: int
  c_GossipInterval :: duration
  c_DeadNodeExpiredTimeout :: duration
  c_BroadcastWaitTimeout :: duration
  c_EventTimeout :: duration
  c_ReapInterval :: duration
  c_MaxPushPulls :: int
  c_PushPullInterval :: duration
  c_MaxAwarenessHealth :: int
  c_SuspicionMult :: int
  c_SuspicionMaxTimeoutMult :: int
  c_MaxLongRunQueueDepth :: int
  c_QueueCheckInterval :: duration
  c_RetransmitMult :: int
  c_Tags :: bytes

definition Millisecond :: duration where
  "Millisecond = 1000000"

definition Second :: duration where
  "Second = 1000 * Millisecond"

definition DefaultLANConfig :: Config where
  "DefaultLANConfig = \<lparr>
     c_ID = '''',
     c_BindAddr = ''0.0.0.0'',
     c_BindPort = 7946,
     c_AdvertiseAddr = '''',
     c_AdvertisePort = 7946,
     c_CIDRsAllowed = [],
     c_Label = '''',
     c_UDPBufferSize = 1400,
     c_DNSConfigPath = ''/etc/resolv.conf'',
     c_EnableCompression = True,
     c_EncryptionVersion = 0,
     c_TcpTimeout = 10 * Second,
     c_NumIndirectChecks = 3,
     c_PingTimeout = 500 * Millisecond,
     c_ProbeInterval = 1100 * Millisecond,
     c_MaxRTT = 30 * Millisecond,
     c_GossipNodes = 3,
     c_GossipInterval = 200 * Millisecond,
     c_DeadNodeExpiredTimeout = 30 * Second,
     c_BroadcastWaitTimeout = 3 * Second,
     c_EventTimeout = 5 * Second,
     c_ReapInterval = 3 * Second,
     c_MaxPushPulls = 128,
     c_PushPullInterval = 30 * Second,
     c_MaxAwarenessHealth = 8,
     c_SuspicionMult = 4,
     c_SuspicionMaxTimeoutMult = 6,
     c_MaxLongRunQueueDepth = 1024,
     c_QueueCheckInterval = 30 * Second,
     c_RetransmitMult = 4,
     c_Tags = []\<rparr>"

section \<open>The address filter\<close>

definition To4 :: "IP \<Rightarrow> IP option" where
  "To4 ip =
     (if length ip = 4 then Some ip
      else if length ip = 16 \<and> take 10 ip = replicate 10 0 \<and> ip ! 10 = 255 \<and> ip ! 11 = 255
      then Some (drop 12 ip)
      else None)"

definition networkNumberAndMask :: "IPNet \<Rightarrow> IP \<times> bytes" where
  "networkNumberAndMask n =
     (let ip = (case To4 (net_IP n) of Some x \<Rightarrow> x | None \<Rightarrow> net_IP n);
          m = net_Mask n
      in if length ip \<noteq> 4 \<and> length ip \<noteq> 16 then ([], [])
         else if length m = 4 then (if length ip \<noteq> 4 then ([], []) else (ip, m))
         else if length m = 16 then (if length ip = 4 then (ip, drop 12 m) else (ip, m))
         else ([], []))"

definition IPNet_Contains :: "IPNet \<Rightarrow> IP \<Rightarrow> bool" where
  "IPNet_Contains n ip0 =
     (let (nn, m) = networkNumberAndMask n;
          ip = (case To4 ip0 of Some x \<Rightarrow> x | None \<Rightarrow> ip0)
      in length ip = length nn
         \<and> list_all (\<lambda>i. nn ! i AND m ! i = ip ! i AND m ! i) [0..<length ip])"

fun anyContains :: "IPNet list \<Rightarrow> IP \<Rightarrow> bool" where
  "anyContains [] ip = False"
| "anyContains (n # ns) ip = (if IPNet_Contains n ip then True else anyContains ns ip)"

definition IPAllowed :: "Config \<Rightarrow> IP \<Rightarrow> bool" where
  "IPAllowed c ip =
     (if length (c_CIDRsAllowed c) = 0 then True else anyContains (c_CIDRsAllowed c) ip)"

text \<open>The filter accepts an address exactly when some allowed network holds it, and it does
  not see whether an IPv4 address is written in its 4-byte or its 16-byte form.\<close>

lemma anyContains_iff: "anyContains ns ip \<longleftrightarrow> (\<exists>n \<in> set ns. IPNet_Contains n ip)"
  by (induction ns) auto

lemma IPAllowed_iff:
  "IPAllowed c ip \<longleftrightarrow> c_CIDRsAllowed c = [] \<or> (\<exists>n \<in> set (c_CIDRsAllowed c). IPNet_Contains n ip)"
  by (simp add: IPAllowed_def anyContains_iff)

definition v4InV6 :: "IP \<Rightarrow> IP" where
  "v4InV6 ip = replicate 10 0 @ [255, 255] @ ip"

lemma To4_v4InV6: "length ip = 4 \<Longrightarrow> To4 (v4InV6 ip) = Some ip"
  by (simp add: To4_def v4InV6_def nth_append)

lemma To4_4: "length ip = 4 \<Longrightarrow> To4 ip = Some ip"
  by (simp add: To4_def)

lemma IPNet_Contains_v4InV6:
  "length ip = 4 \<Longrightarrow> IPNet_Contains n (v4InV6 ip) = IPNet_Contains n ip"
  by (simp add: IPNet_Contains_def To4_v4InV6 To4_4)

end
