(* ===== verification/IPText.thy ===== *)
theory IPText
  imports Config
begin

text \<open>
  Texts of addresses: what the source uses of \<^verbatim>\<open>net\<close> and \<^verbatim>\<open>strconv\<close> of the standard library to print
  and parse numbers, IP addresses and pairs of host and port. Printing an address and parsing the text
  gives the address back, in its 16-byte form.
\<close>

section \<open>Numbers\<close>

fun radix :: "nat \<Rightarrow> nat \<Rightarrow> nat list" where
  "radix b n = (if n < b \<or> b < 2 then [n] else radix b (n div b) @ [n mod b])"

declare radix.simps [simp del]

definition radixVal :: "nat \<Rightarrow> nat list \<Rightarrow> nat" where
  "radixVal b ds = foldl (\<lambda>v d. b * v + d) 0 ds"

definition digitChar :: "nat \<Rightarrow> char" where
  "digitChar d = (if d < 10 then char_of (48 + d) else char_of (87 + d))"

text \<open>The value of a hexadecimal digit; letters of both cases are accepted.\<close>

definition hexVal :: "char \<Rightarrow> nat option" where
  "hexVal c =
     (let n = of_char c in
      if 48 \<le> n \<and> n \<le> 57 then Some (n - 48)
      else if 97 \<le> n \<and> n \<le> 102 then Some (n - 87)
      else if 65 \<le> n \<and> n \<le> 70 then Some (n - 55)
      else None)"

definition isHex :: "char \<Rightarrow> bool" where
  "isHex c \<longleftrightarrow> hexVal c \<noteq> None"

definition isDigit :: "char \<Rightarrow> bool" where
  "isDigit c \<longleftrightarrow> (case hexVal c of None \<Rightarrow> False | Some d \<Rightarrow> d < 10)"

definition numText :: "nat \<Rightarrow> nat \<Rightarrow> string" where
  "numText b n = map digitChar (radix b n)"

definition textVal :: "nat \<Rightarrow> string \<Rightarrow> nat" where
  "textVal b s = radixVal b (map (the \<circ> hexVal) s)"

text \<open>\<open>strconv.Itoa\<close> of a non-negative number, and \<open>strconv.ParseUint(s, 10, 16)\<close>.\<close>

definition Itoa :: "nat \<Rightarrow> string" where
  "Itoa n = numText 10 n"

definition ParseUint16 :: "string \<Rightarrow> u16 outcome" where
  "ParseUint16 s =
     (if s = [] \<or> \<not> list_all isDigit s then Err (ErrText ''invalid syntax'')
      else if 65535 < textVal 10 s then Err (ErrText ''value out of range'')
      else Ok (of_nat (textVal 10 s)))"

section \<open>Addresses\<close>

fun splitOn :: "char \<Rightarrow> string \<Rightarrow> string list" where
  "splitOn c [] = [[]]"
| "splitOn c (x # xs) = (if x = c then [] # splitOn c xs else (x # hd (splitOn c xs)) # tl (splitOn c xs))"

fun joinWith :: "string \<Rightarrow> string list \<Rightarrow> string" where
  "joinWith sep [] = []"
| "joinWith sep [s] = s"
| "joinWith sep (s # ss) = s @ sep @ joinWith sep ss"

text \<open>A decimal field of an IPv4 address: digits without a leading zero, at most 255.\<close>

definition octet :: "string \<Rightarrow> byte option" where
  "octet s =
     (if s = [] \<or> \<not> list_all isDigit s \<or> (1 < length s \<and> hd s = CHR ''0'') \<or> 255 < textVal 10 s then None
      else Some (of_nat (textVal 10 s)))"

definition parseIPv4 :: "string \<Rightarrow> IP option" where
  "parseIPv4 s =
     (let fs = map octet (splitOn CHR ''.'' s)
      in if length fs = 4 \<and> None \<notin> set fs then Some (map the fs) else None)"

text \<open>
  The loop of the IPv6 parser: the text that is left, the bytes so far, and their number when the
  ellipsis \<open>::\<close> was seen.
\<close>

function loop6 :: "string \<Rightarrow> bytes \<Rightarrow> nat option \<Rightarrow> (string \<times> bytes \<times> nat option) option" where
  "loop6 s ip ell =
     (if 16 \<le> length ip then Some (s, ip, ell)
      else
        let hex = takeWhile isHex s;
            rest = drop (length hex) s;
            v = textVal 16 hex;
            ip1 = ip @ [of_nat (v div 256), of_nat v]
        in if hex = [] \<or> 4 < length hex then None
           else case rest of
             [] \<Rightarrow> Some ([], ip1, ell)
           | c # s1 \<Rightarrow>
               if c = CHR ''.'' then
                 (if ell = None \<and> length ip \<noteq> 12 then None
                  else if 16 < length ip + 4 then None
                  else case parseIPv4 s of None \<Rightarrow> None | Some q \<Rightarrow> Some ([], ip @ q, ell))
               else if c \<noteq> CHR '':'' then None
               else (case s1 of
                       [] \<Rightarrow> None
                     | d # s2 \<Rightarrow>
                         if d \<noteq> CHR '':'' then loop6 s1 ip1 ell
                         else if ell \<noteq> None then None
                         else if s2 = [] then Some ([], ip1, Some (length ip1))
                         else loop6 s2 ip1 (Some (length ip1))))"
  by pat_completeness auto
termination
proof (relation "measure (\<lambda>(s, ip, ell). length s)", goal_cases)
  case 1
  show ?case by simp
next
  case (2 s ip ell hex rest v ip1 c s1 d s2)
  then have "length s1 < length s" by (metis drop_eq_Nil length_Cons length_drop less_Suc_eq_le diff_le_self not_le order.strict_trans2 lessI)
  with 2 show ?case by simp
next
  case (3 s ip ell hex rest v ip1 c s1 d s2)
  then have "length s1 < length s" by (metis drop_eq_Nil length_Cons length_drop less_Suc_eq_le diff_le_self not_le order.strict_trans2 lessI)
  with 3 show ?case by simp
qed

declare loop6.simps [simp del]

definition expand6 :: "(string \<times> bytes \<times> nat option) option \<Rightarrow> IP option" where
  "expand6 r =
     (case r of
        None \<Rightarrow> None
      | Some (s, ip, ell) \<Rightarrow>
          if s \<noteq> [] then None
          else if length ip < 16
          then map_option (\<lambda>e. take e ip @ replicate (16 - length ip) 0 @ drop e ip) ell
          else if ell \<noteq> None then None else Some ip)"

definition parseIPv6 :: "string \<Rightarrow> IP option" where
  "parseIPv6 s =
     (if CHR ''%'' \<in> set s then None
      else if take 2 s = ''::''
      then (if drop 2 s = [] then Some (replicate 16 0) else expand6 (loop6 (drop 2 s) [] (Some 0)))
      else expand6 (loop6 s [] None))"

definition ParseIP :: "string \<Rightarrow> IP option" where
  "ParseIP s =
     (case filter (\<lambda>c. c = CHR ''.'' \<or> c = CHR '':'' \<or> c = CHR ''%'') s of
        [] \<Rightarrow> None
      | c # _ \<Rightarrow>
          if c = CHR ''.'' then map_option v4InV6 (parseIPv4 s)
          else if c = CHR '':'' then parseIPv6 s
          else None)"

section \<open>Printing addresses\<close>

fun groups6 :: "bytes \<Rightarrow> nat list" where
  "groups6 (hi # lo # bs) = (unat hi * 256 + unat lo) # groups6 bs"
| "groups6 _ = []"

definition zeroRun :: "nat list \<Rightarrow> nat \<Rightarrow> nat" where
  "zeroRun gs i = length (takeWhile (\<lambda>g. g = 0) (drop i gs))"

text \<open>The first longest run of at least two zero groups, from its start to behind its end; \<open>(255, 255)\<close>
  if there is none.\<close>

definition longestRun :: "nat list \<Rightarrow> nat \<times> nat" where
  "longestRun gs =
     foldl (\<lambda>(s, e) i. let l = zeroRun gs i in if 2 \<le> l \<and> e - s < l then (i, i + l) else (s, e))
       (255, 255) [0..<length gs]"

definition string6 :: "IP \<Rightarrow> string" where
  "string6 ip =
     (let gs = groups6 ip; (s, e) = longestRun gs; colons = joinWith '':'' \<circ> map (numText 16)
      in if s = 255 then colons gs else colons (take s gs) @ ''::'' @ colons (drop e gs))"

definition IP_String :: "IP \<Rightarrow> string" where
  "IP_String ip =
     (if ip = [] then ''<nil>''
      else if length ip \<noteq> 4 \<and> length ip \<noteq> 16
      then CHR ''?'' # concat (map (\<lambda>b. [digitChar (unat b div 16), digitChar (unat b mod 16)]) ip)
      else case To4 ip of
             Some p \<Rightarrow> joinWith ''.'' (map (Itoa \<circ> unat) p)
           | None \<Rightarrow> string6 ip)"

text \<open>\<open>To16\<close> of an address of 4 or 16 bytes.\<close>

definition To16 :: "IP \<Rightarrow> IP" where
  "To16 ip = (if length ip = 4 then v4InV6 ip else ip)"

section \<open>Numbers survive printing\<close>

lemma radixVal_snoc: "radixVal b (ds @ [d]) = b * radixVal b ds + d"
  by (simp add: radixVal_def)

lemma radixVal_radix: "2 \<le> b \<Longrightarrow> radixVal b (radix b n) = n"
proof (induction b n rule: radix.induct)
  case (1 b n)
  then show ?case
    by (subst radix.simps) (auto simp: radixVal_snoc, simp add: radixVal_def)
qed

lemma radix_digits: "2 \<le> b \<Longrightarrow> d \<in> set (radix b n) \<Longrightarrow> d < b"
proof (induction b n rule: radix.induct)
  case (1 b n)
  show ?case
  proof (cases "n < b")
    case True
    with 1 show ?thesis by (simp add: radix.simps [of b n])
  next
    case False
    with 1 show ?thesis by (subst (asm) radix.simps) auto
  qed
qed

lemma radix_nonempty [simp]: "radix b n \<noteq> []"
  by (subst radix.simps) simp

lemma radix_hd: "2 \<le> b \<Longrightarrow> 0 < n \<Longrightarrow> hd (radix b n) \<noteq> 0"
proof (induction b n rule: radix.induct)
  case (1 b n)
  show ?case
  proof (cases "n < b")
    case True
    with 1 show ?thesis by (simp add: radix.simps [of b n])
  next
    case False
    with 1 have "hd (radix b (n div b)) \<noteq> 0" by (simp add: div_greater_zero_iff)
    with False 1 show ?thesis by (subst radix.simps) (simp add: hd_append)
  qed
qed

lemma radix_length: "2 \<le> b \<Longrightarrow> n < b ^ Suc k \<Longrightarrow> length (radix b n) \<le> Suc k"
proof (induction k arbitrary: n)
  case 0
  then show ?case by (subst radix.simps) simp
next
  case (Suc k)
  then have "n div b < b ^ Suc k" by (simp add: less_mult_imp_div_less mult.commute)
  with Suc have "length (radix b (n div b)) \<le> Suc k" by simp
  then show ?case by (subst radix.simps) simp
qed

lemma hexVal_digitChar: "d < 16 \<Longrightarrow> hexVal (digitChar d) = Some d"
  by (auto simp: hexVal_def digitChar_def Let_def)

lemma numText_hex: "2 \<le> b \<Longrightarrow> b \<le> 16 \<Longrightarrow> c \<in> set (numText b n) \<Longrightarrow> \<exists>d < b. c = digitChar d \<and> hexVal c = Some d"
  using radix_digits by (fastforce simp: numText_def hexVal_digitChar)

lemma textVal_numText: "2 \<le> b \<Longrightarrow> b \<le> 16 \<Longrightarrow> textVal b (numText b n) = n"
proof -
  assume b: "2 \<le> b" "b \<le> 16"
  have "map (the \<circ> hexVal) (numText b n) = radix b n"
    unfolding numText_def map_map using b radix_digits [of b _ n]
    by (intro map_idI) (fastforce simp: hexVal_digitChar)
  with b show ?thesis by (simp add: textVal_def radixVal_radix)
qed

lemma numText_nonempty [simp]: "numText b n \<noteq> []"
  by (simp add: numText_def)

lemma Itoa_digits: "list_all isDigit (Itoa n)"
  using numText_hex [of 10] by (fastforce simp: list_all_iff Itoa_def isDigit_def)

lemma ParseUint16_Itoa: "ParseUint16 (Itoa (unat p)) = Ok p" for p :: u16
proof -
  have "unat p < 65536" using unsigned_less [of p, where ?'a = nat] by simp
  then show ?thesis
    using Itoa_digits [of "unat p"] by (simp add: ParseUint16_def Itoa_def textVal_numText)
qed

lemma octet_Itoa: "octet (Itoa (unat b)) = Some b" for b :: byte
proof -
  have lt: "unat b < 256" using unsigned_less [of b, where ?'a = nat] by simp
  have "hd (Itoa (unat b)) \<noteq> CHR ''0''" if "1 < length (Itoa (unat b))"
  proof -
    have "0 < unat b" using that by (cases "unat b = 0") (simp_all add: Itoa_def numText_def radix.simps)
    then have "hd (radix 10 (unat b)) \<noteq> 0" "hd (radix 10 (unat b)) < 10"
      using radix_hd [of 10] radix_digits [of 10 _ "unat b"] by simp_all
    then have "hexVal (hd (Itoa (unat b))) \<noteq> Some 0" by (simp add: Itoa_def numText_def hd_map hexVal_digitChar)
    then show ?thesis by (auto simp: hexVal_def)
  qed
  moreover have "Itoa (unat b) \<noteq> []" "textVal 10 (Itoa (unat b)) = unat b" by (simp_all add: Itoa_def textVal_numText)
  ultimately show ?thesis using lt Itoa_digits [of "unat b"] by (auto simp: octet_def)
qed

section \<open>Addresses survive printing\<close>

lemma splitOn_nonempty: "splitOn c s \<noteq> []"
  by (cases s) simp_all

lemma splitOn_append: "c \<notin> set s \<Longrightarrow> splitOn c (s @ [c] @ t) = s # splitOn c t"
  by (induction s) auto

lemma splitOn_single: "c \<notin> set s \<Longrightarrow> splitOn c s = [s]"
  by (induction s) auto

lemma splitOn_joinWith: "\<forall>s \<in> set ss. c \<notin> set s \<Longrightarrow> ss \<noteq> [] \<Longrightarrow> splitOn c (joinWith [c] ss) = ss"
  by (induction "[c]" ss rule: joinWith.induct) (simp_all add: splitOn_single splitOn_append [simplified])

lemma hexVal_other: "hexVal CHR ''.'' = None" "hexVal CHR '':'' = None" "hexVal CHR ''%'' = None"
    "hexVal CHR '']'' = None" "hexVal CHR ''['' = None"
  by (simp_all add: hexVal_def)

lemma numText_no:
  "2 \<le> b \<Longrightarrow> b \<le> 16 \<Longrightarrow> hexVal c = None \<Longrightarrow> c \<notin> set (numText b n)"
  using numText_hex by fastforce

lemma parseIPv4_print:
  assumes "length p = 4"
  shows "parseIPv4 (joinWith ''.'' (map (Itoa \<circ> unat) p)) = Some p"
proof -
  have "splitOn CHR ''.'' (joinWith ''.'' (map (Itoa \<circ> unat) p)) = map (Itoa \<circ> unat) p"
    using assms numText_no [of 10 "CHR ''.''"] by (intro splitOn_joinWith) (auto simp: Itoa_def hexVal_other)
  then have "map octet (splitOn CHR ''.'' (joinWith ''.'' (map (Itoa \<circ> unat) p))) = map Some p"
    by (simp add: octet_Itoa)
  then show ?thesis using assms by (auto simp: parseIPv4_def Let_def comp_def)
qed

section \<open>IPv6 addresses survive printing\<close>

text \<open>The bytes of groups, and groups printed with colons between them.\<close>

definition pair6 :: "nat \<Rightarrow> bytes" where
  "pair6 g = [of_nat (g div 256), of_nat g]"

abbreviation bytes6 :: "nat list \<Rightarrow> bytes" where
  "bytes6 gs \<equiv> concat (map pair6 gs)"

abbreviation colons :: "nat list \<Rightarrow> string" where
  "colons gs \<equiv> joinWith '':'' (map (numText 16) gs)"

lemma length_bytes6 [simp]: "length (bytes6 gs) = 2 * length gs"
  by (induction gs) (simp_all add: pair6_def)

lemma group_scan:
  assumes "t = [] \<or> \<not> isHex (hd t)"
  shows "takeWhile isHex (numText 16 g @ t) = numText 16 g"
proof -
  have "takeWhile isHex t = []" using assms by (cases t) simp_all
  moreover have "\<forall>c \<in> set (numText 16 g). isHex c" using numText_hex [of 16] by (fastforce simp: isHex_def)
  ultimately show ?thesis by (simp add: takeWhile_append)
qed

lemma isHex_colon [simp]: "\<not> isHex CHR '':''"
  by (simp add: isHex_def hexVal_other)

lemma group_length: "g < 65536 \<Longrightarrow> length (numText 16 g) \<le> 4"
  using radix_length [of 16 g 3] by (simp add: numText_def)

lemma loop6_last:
  assumes "length ip < 16" and "g < 65536"
  shows "loop6 (numText 16 g) ip ell = Some ([], ip @ pair6 g, ell)"
  using assms group_length [OF assms(2)]
  by (subst loop6.simps) (simp add: group_scan [of "[]" g, unfolded append_Nil2] Let_def pair6_def textVal_numText)

lemma loop6_colon:
  assumes "length ip < 16" and "g < 65536" and "t \<noteq> []" and "hd t \<noteq> CHR '':''"
  shows "loop6 (numText 16 g @ CHR '':'' # t) ip ell = loop6 t (ip @ pair6 g) ell"
proof -
  obtain d t' where t: "t = d # t'" "d \<noteq> CHR '':''" using assms(3,4) by (cases t) auto
  show ?thesis
    using assms(1,2) group_scan [of "CHR '':'' # t" g] group_length [OF assms(2)] t
    by (subst loop6.simps) (simp add: Let_def pair6_def textVal_numText)
qed

lemma loop6_ellipsis:
  assumes "length ip < 16" and "g < 65536"
  shows "loop6 (numText 16 g @ ''::'' @ t) ip None =
    (if t = [] then Some ([], ip @ pair6 g, Some (length ip + 2)) else loop6 t (ip @ pair6 g) (Some (length ip + 2)))"
  using assms group_scan [of "''::'' @ t" g] group_length [OF assms(2)]
  by (subst loop6.simps) (simp add: Let_def pair6_def textVal_numText)

lemma colons_hd: "gs \<noteq> [] \<Longrightarrow> colons gs \<noteq> [] \<and> isHex (hd (colons gs))"
proof -
  assume "gs \<noteq> []"
  then obtain g gs' where gs: "gs = g # gs'" by (cases gs) auto
  have "isHex (hd (numText 16 g))" using numText_hex [of 16 "hd (numText 16 g)" g] by (auto simp: isHex_def)
  then show ?thesis using gs by (cases gs') (simp_all add: hd_append)
qed

lemma loop6_groups:
  assumes "gs \<noteq> []" and "\<forall>g \<in> set gs. g < 65536" and "length ip + 2 * length gs \<le> 16"
  shows "loop6 (colons gs) ip ell = Some ([], ip @ bytes6 gs, ell)"
  using assms
proof (induction gs arbitrary: ip)
  case (Cons g gs)
  show ?case
  proof (cases "gs = []")
    case True
    with Cons.prems show ?thesis by (simp add: loop6_last)
  next
    case False
    then have "colons (g # gs) = numText 16 g @ CHR '':'' # colons gs" by (cases gs) simp_all
    moreover have "hd (colons gs) \<noteq> CHR '':''" using colons_hd [OF False] by auto
    ultimately have "loop6 (colons (g # gs)) ip ell = loop6 (colons gs) (ip @ pair6 g) ell"
      using Cons.prems colons_hd [OF False] by (simp add: loop6_colon)
    also have "\<dots> = Some ([], (ip @ pair6 g) @ bytes6 gs, ell)"
      using Cons.prems False by (intro Cons.IH) (simp_all add: pair6_def)
    finally show ?thesis by simp
  qed
qed simp

lemma loop6_groups_ellipsis:
  assumes "gs \<noteq> []" and "\<forall>g \<in> set gs. g < 65536" and "length ip + 2 * length gs \<le> 16"
  shows "loop6 (colons gs @ ''::'' @ t) ip None =
    (if t = [] then Some ([], ip @ bytes6 gs, Some (length (ip @ bytes6 gs)))
     else loop6 t (ip @ bytes6 gs) (Some (length (ip @ bytes6 gs))))"
  using assms
proof (induction gs arbitrary: ip)
  case (Cons g gs)
  show ?case
  proof (cases "gs = []")
    case True
    with Cons.prems loop6_ellipsis [of ip g t] show ?thesis by (simp add: pair6_def)
  next
    case False
    then have "colons (g # gs) @ ''::'' @ t = numText 16 g @ CHR '':'' # colons gs @ ''::'' @ t" by (cases gs) simp_all
    moreover have "hd (colons gs @ ''::'' @ t) \<noteq> CHR '':''" using colons_hd [OF False] by (auto simp: hd_append)
    ultimately have "loop6 (colons (g # gs) @ ''::'' @ t) ip None = loop6 (colons gs @ ''::'' @ t) (ip @ pair6 g) None"
      using Cons.prems by (simp add: loop6_colon)
    also have "\<dots> = (if t = [] then Some ([], (ip @ pair6 g) @ bytes6 gs, Some (length ((ip @ pair6 g) @ bytes6 gs)))
       else loop6 t ((ip @ pair6 g) @ bytes6 gs) (Some (length ((ip @ pair6 g) @ bytes6 gs))))"
      using Cons.prems False by (intro Cons.IH) (simp_all add: pair6_def)
    finally show ?thesis by simp
  qed
qed simp

lemma foldl_inv: "P a \<Longrightarrow> (\<And>b x. P b \<Longrightarrow> x \<in> set xs \<Longrightarrow> P (f b x)) \<Longrightarrow> P (foldl f a xs)"
  by (induction xs arbitrary: a) simp_all

lemma zeroRun_zeros: "i + zeroRun gs i \<le> max i (length gs)" "k < zeroRun gs i \<Longrightarrow> gs ! (i + k) = 0"
proof -
  have "zeroRun gs i \<le> length (drop i gs)" unfolding zeroRun_def by (rule length_takeWhile_le)
  then show "i + zeroRun gs i \<le> max i (length gs)" by simp
  assume k: "k < zeroRun gs i"
  then have "takeWhile (\<lambda>g. g = 0) (drop i gs) ! k = drop i gs ! k" unfolding zeroRun_def by (rule takeWhile_nth)
  moreover have "takeWhile (\<lambda>g. g = 0) (drop i gs) ! k = 0"
    using nth_mem [OF k [unfolded zeroRun_def]] by (rule set_takeWhileD [THEN conjunct2])
  ultimately show "gs ! (i + k) = 0" using k length_takeWhile_le [of "\<lambda>g. g = 0" "drop i gs"] by (simp add: zeroRun_def)
qed

lemma longestRun_spec:
  assumes "longestRun gs = (s, e)"
  shows "(s, e) = (255, 255) \<or> s < e \<and> e \<le> length gs \<and> (\<forall>i. s \<le> i \<and> i < e \<longrightarrow> gs ! i = 0)"
proof -
  define P where "P = (\<lambda>(s, e). (s, e) = (255, 255) \<or> s < e \<and> e \<le> length gs \<and> (\<forall>i. s \<le> i \<and> i < e \<longrightarrow> gs ! i = 0))"
  have "P (longestRun gs)"
    unfolding longestRun_def
  proof (rule foldl_inv)
    show "P (255, 255)" by (simp add: P_def)
    fix b x assume b: "P b" and x: "x \<in> set [0..<length gs]"
    have "gs ! i = 0" if "x \<le> i" "i < x + zeroRun gs x" for i
      using zeroRun_zeros(2) [of "i - x" gs x] that by simp
    then have "P (x, x + zeroRun gs x)" if "2 \<le> zeroRun gs x"
      using that x zeroRun_zeros(1) [of x gs] by (simp add: P_def)
    with b show "P ((case b of (s, e) \<Rightarrow> \<lambda>i. let l = zeroRun gs i in if 2 \<le> l \<and> e - s < l then (i, i + l) else (s, e)) x)"
      by (cases b) (simp add: Let_def)
  qed
  then show ?thesis using assms by (simp add: P_def)
qed

lemma pair6_word: "pair6 (unat hi * 256 + unat lo) = [hi, lo]"
proof -
  have lo: "unat lo < 256" using unsigned_less [of lo, where ?'a = nat] by simp
  then have "(unat hi * 256 + unat lo) div 256 = unat hi" by simp
  moreover have "(of_nat (unat hi * 256 + unat lo) :: byte) = lo"
  proof -
    have "(of_nat 256 :: byte) = 0" by simp
    then show ?thesis by (simp only: of_nat_add of_nat_mult) simp
  qed
  ultimately show ?thesis by (simp add: pair6_def)
qed

lemma groups6_spec:
  "even (length bs) \<Longrightarrow> bytes6 (groups6 bs) = bs \<and> 2 * length (groups6 bs) = length bs \<and> (\<forall>g \<in> set (groups6 bs). g < 65536)"
proof (induction bs rule: groups6.induct)
  case (1 hi lo bs)
  have "unat hi < 256" "unat lo < 256" using unsigned_less [of hi, where ?'a = nat] unsigned_less [of lo, where ?'a = nat] by simp_all
  with 1 show ?case by (simp add: pair6_word)
qed simp_all

lemma expand6_run:
  "length A + length B + 2 * z = 16 \<Longrightarrow> 0 < z \<Longrightarrow>
   expand6 (Some ([], A @ B, Some (length A))) = Some (A @ replicate (2 * z) 0 @ B)"
  by (simp add: expand6_def)

lemma bytes6_zeros: "\<forall>g \<in> set gs. g = 0 \<Longrightarrow> bytes6 gs = replicate (2 * length gs) 0"
  by (induction gs) (simp_all add: pair6_def)

lemma longestRun_split:
  assumes "longestRun gs = (s, e)" and "s \<noteq> 255"
  shows "gs = take s gs @ replicate (e - s) 0 @ drop e gs" and "s < e" and "e \<le> length gs"
proof -
  show b: "s < e" "e \<le> length gs" using longestRun_spec [OF assms(1)] assms(2) by auto
  have "take (e - s) (drop s gs) = replicate (e - s) 0"
    using longestRun_spec [OF assms(1)] assms(2) b by (intro nth_equalityI) auto
  then show "gs = take s gs @ replicate (e - s) 0 @ drop e gs"
    using b by (metis append_take_drop_id drop_drop le_add_diff_inverse2 less_imp_le)
qed

lemma set_joinWith: "set (joinWith sep xs) \<subseteq> \<Union> (set ` set xs) \<union> set sep"
  by (induction sep xs rule: joinWith.induct) auto

lemma colons_no: "hexVal c = None \<Longrightarrow> c \<noteq> CHR '':'' \<Longrightarrow> c \<notin> set (colons gs)"
  using set_joinWith [of "'':''" "map (numText 16) gs"] numText_no [of 16 c] by fastforce

lemma colons_start: "gs \<noteq> [] \<Longrightarrow> take 2 (colons gs @ t) \<noteq> ''::''"
  using colons_hd [of gs] by (cases "colons gs") auto

lemma colons_empty: "colons gs = [] \<longleftrightarrow> gs = []"
  using colons_hd by auto

lemma parseIPv6_run:
  assumes lt: "\<forall>g \<in> set A. g < 65536" "\<forall>g \<in> set B. g < 65536" and z: "0 < z" "length A + length B + z = 8"
  shows "parseIPv6 (colons A @ ''::'' @ colons B) = Some (bytes6 A @ replicate (2 * z) 0 @ bytes6 B)"
proof -
  have no: "CHR ''%'' \<notin> set (colons A @ ''::'' @ colons B)" by (simp add: colons_no hexVal_other)
  have ex: "expand6 (Some ([], bytes6 A @ bytes6 B, Some (length (bytes6 A)))) = Some (bytes6 A @ replicate (2 * z) 0 @ bytes6 B)"
    using z by (intro expand6_run) simp_all
  show ?thesis
  proof (cases "A = []")
    case True
    then have z8: "B = [] \<Longrightarrow> z = 8" using z by simp
    show ?thesis
    proof (cases "B = []")
      case True
      with \<open>A = []\<close> z8 no show ?thesis by (simp add: parseIPv6_def)
    next
      case False
      with \<open>A = []\<close> ex loop6_groups [of B "[]" "Some 0"] lt z no show ?thesis
        by (simp add: parseIPv6_def colons_empty)
    qed
  next
    case False
    have "loop6 (colons A @ ''::'' @ colons B) [] None = Some ([], bytes6 A @ bytes6 B, Some (length (bytes6 A)))"
    proof (cases "B = []")
      case True
      with loop6_groups_ellipsis [OF False lt(1), of "[]" "[]"] z show ?thesis by simp
    next
      case B: False
      with loop6_groups_ellipsis [OF False lt(1), of "[]" "colons B"]
        loop6_groups [OF B lt(2), of "bytes6 A" "Some (length (bytes6 A))"] z show ?thesis
        by (simp add: colons_empty)
    qed
    with ex no colons_start [OF False] show ?thesis by (simp add: parseIPv6_def)
  qed
qed

lemma parseIPv6_print:
  assumes "length ip = 16"
  shows "parseIPv6 (string6 ip) = Some ip"
proof -
  let ?gs = "groups6 ip"
  have gs: "bytes6 ?gs = ip" "length ?gs = 8" "\<forall>g \<in> set ?gs. g < 65536" using groups6_spec [of ip] assms by simp_all
  obtain s e where se: "longestRun ?gs = (s, e)" by (cases "longestRun ?gs")
  show ?thesis
  proof (cases "s = 255")
    case True
    then have "string6 ip = colons ?gs" by (simp add: string6_def se)
    moreover have "?gs \<noteq> []" using gs(2) by auto
    ultimately show ?thesis
      using loop6_groups [of ?gs "[]" None] gs colons_start [of ?gs "[]"] assms
      by (simp add: parseIPv6_def expand6_def colons_no hexVal_other)
  next
    case False
    let ?A = "take s ?gs" let ?B = "drop e ?gs"
    have sp: "s < e" "e \<le> 8" using longestRun_split(2,3) [OF se False] gs(2) by simp_all
    have "string6 ip = colons ?A @ ''::'' @ colons ?B" using False by (simp add: string6_def se Let_def)
    moreover have "ip = bytes6 ?A @ replicate (2 * (e - s)) 0 @ bytes6 ?B"
      using gs(1) bytes6_zeros [of "replicate (e - s) 0"]
      by (subst (asm) longestRun_split(1) [OF se False]) simp
    moreover have "\<forall>g \<in> set ?A. g < 65536" "\<forall>g \<in> set ?B. g < 65536" using gs(3) by (auto dest: in_set_takeD in_set_dropD)
    ultimately show ?thesis using parseIPv6_run [of ?A ?B "e - s"] sp gs(2) by simp
  qed
qed

lemma To4_To16:
  assumes "To4 ip = Some p" and "length ip = 4 \<or> length ip = 16"
  shows "To16 ip = v4InV6 p" and "length p = 4"
proof -
  show "length p = 4" using assms by (auto simp: To4_def split: if_splits)
  show "To16 ip = v4InV6 p"
  proof (cases "length ip = 4")
    case True
    with assms show ?thesis by (simp add: To16_def To4_def)
  next
    case False
    with assms have i: "length ip = 16" "take 10 ip = replicate 10 0" "ip ! 10 = 255" "ip ! 11 = 255" "p = drop 12 ip"
      by (auto simp: To4_def split: if_splits)
    have "ip = take 10 ip @ [ip ! 10, ip ! 11] @ drop 12 ip"
      using i(1) Cons_nth_drop_Suc [of 10 ip] Cons_nth_drop_Suc [of 11 ip] append_take_drop_id [of 10 ip] by simp
    with i show ?thesis by (simp add: To16_def v4InV6_def)
  qed
qed

lemma string6_chars:
  assumes "length ip = 16"
  shows "CHR '':'' \<in> set (string6 ip)" and "CHR ''.'' \<notin> set (string6 ip)" and "CHR ''%'' \<notin> set (string6 ip)"
proof -
  obtain s e where se: "longestRun (groups6 ip) = (s, e)" by (cases "longestRun (groups6 ip)")
  have 8: "length (groups6 ip) = 8" using groups6_spec [of ip] assms by simp
  then obtain a b gs where "groups6 ip = a # b # gs" by (cases "groups6 ip" rule: remdups_adj.cases) auto
  then have "CHR '':'' \<in> set (colons (groups6 ip))" by (cases gs) simp_all
  then show "CHR '':'' \<in> set (string6 ip)" by (simp add: string6_def se Let_def)
  show "CHR ''.'' \<notin> set (string6 ip)" "CHR ''%'' \<notin> set (string6 ip)"
    by (simp_all add: string6_def se colons_no hexVal_other Let_def)
qed

lemma filter_all_eq:
  assumes "c \<in> set s" and "P c" and "\<And>d. d \<in> set s \<Longrightarrow> P d \<Longrightarrow> d = c"
  obtains ds where "filter P s = c # ds"
proof (cases "filter P s")
  case Nil
  with assms(1,2) show thesis by (simp add: filter_empty_conv)
next
  case (Cons d ds)
  then have "d \<in> set (filter P s)" by simp
  then have "d = c" using assms(3) by simp
  with Cons show thesis using that by simp
qed

lemma ParseIP_6:
  assumes "CHR '':'' \<in> set s" "CHR ''.'' \<notin> set s" "CHR ''%'' \<notin> set s"
  shows "ParseIP s = parseIPv6 s"
  by (rule filter_all_eq [OF assms(1), of "\<lambda>c. c = CHR ''.'' \<or> c = CHR '':'' \<or> c = CHR ''%''"])
     (use assms in \<open>auto simp: ParseIP_def\<close>)

lemma ParseIP_4:
  assumes "CHR ''.'' \<in> set s" "CHR '':'' \<notin> set s" "CHR ''%'' \<notin> set s"
  shows "ParseIP s = map_option v4InV6 (parseIPv4 s)"
  by (rule filter_all_eq [OF assms(1), of "\<lambda>c. c = CHR ''.'' \<or> c = CHR '':'' \<or> c = CHR ''%''"])
     (use assms in \<open>auto simp: ParseIP_def\<close>)

lemma dotted_chars:
  assumes "length p = 4"
  shows "CHR ''.'' \<in> set (joinWith ''.'' (map (Itoa \<circ> unat) p))"
    and "hexVal c = None \<Longrightarrow> c \<noteq> CHR ''.'' \<Longrightarrow> c \<notin> set (joinWith ''.'' (map (Itoa \<circ> unat) p))"
proof -
  obtain a b q where p: "p = a # b # q" using assms by (cases p rule: remdups_adj.cases) auto
  then show "CHR ''.'' \<in> set (joinWith ''.'' (map (Itoa \<circ> unat) p))" by (cases q) simp_all
  show "hexVal c = None \<Longrightarrow> c \<noteq> CHR ''.'' \<Longrightarrow> c \<notin> set (joinWith ''.'' (map (Itoa \<circ> unat) p))"
    using set_joinWith [of "''.''" "map (Itoa \<circ> unat) p"] numText_no [of 10 c] by (fastforce simp: Itoa_def)
qed

lemma ParseIP_String:
  assumes "length ip = 4 \<or> length ip = 16"
  shows "ParseIP (IP_String ip) = Some (To16 ip)"
proof (cases "To4 ip")
  case None
  with assms have "length ip = 16" by (auto simp: To4_def split: if_splits)
  moreover from this None have "IP_String ip = string6 ip" by (auto simp: IP_String_def)
  ultimately show ?thesis
    using string6_chars [of ip] by (simp add: ParseIP_6 parseIPv6_print To16_def)
next
  case (Some p)
  have s: "IP_String ip = joinWith ''.'' (map (Itoa \<circ> unat) p)" using Some assms by (auto simp: IP_String_def)
  have p: "length p = 4" using To4_To16(2) [OF Some assms] .
  then show ?thesis
    using dotted_chars [OF p] by (simp add: s ParseIP_4 hexVal_other parseIPv4_print To4_To16(1) [OF Some assms])
qed

section \<open>What parsing gives\<close>

lemma expand6_length: "expand6 r = Some ip \<Longrightarrow> (\<And>s b e. r = Some (s, b, e) \<Longrightarrow> length b \<le> 16 \<and> (\<forall>k. e = Some k \<longrightarrow> k \<le> length b)) \<Longrightarrow> length ip = 16"
  by (auto simp: expand6_def split: option.splits prod.splits if_splits)

lemma parseIPv4_length: "parseIPv4 s = Some p \<Longrightarrow> length p = 4"
  by (auto simp: parseIPv4_def Let_def split: if_splits)

lemma loop6_bounds:
  "loop6 s b e = Some (s', b', e') \<Longrightarrow> length b \<le> 16 \<Longrightarrow> even (length b) \<Longrightarrow> (\<forall>k. e = Some k \<longrightarrow> k \<le> length b) \<Longrightarrow>
   length b' \<le> 16 \<and> (\<forall>k. e' = Some k \<longrightarrow> k \<le> length b')"
proof (induction s b e rule: loop6.induct)
  case (1 s ip ell)
  note IH = 1(1,2)
  let ?hex = "takeWhile isHex s"
  let ?v = "textVal 16 ?hex"
  let ?ip1 = "ip @ [of_nat (?v div 256), of_nat ?v]"
  show ?case
  proof (cases "16 \<le> length ip")
    case True
    with 1(3-6) show ?thesis by (subst (asm) loop6.simps) auto
  next
    case False
    then have le: "length ?ip1 \<le> 16" "even (length ?ip1)" using 1(5) by auto
    show ?thesis
      using 1(3-6) False le IH [OF False refl refl refl refl] parseIPv4_length [of s]
      by (subst (asm) loop6.simps) (fastforce simp: Let_def split: if_splits list.splits option.splits)
  qed
qed

lemma ParseIP_length:
  assumes "ParseIP s = Some ip"
  shows "length ip = 16"
proof -
  have "length ip = 16" if "parseIPv6 t = Some ip" for t
  proof -
    have "length ip = 16" if "expand6 (loop6 u [] e) = Some ip" "e = None \<or> e = Some 0" for u e
      using that(1) by (rule expand6_length) (use loop6_bounds [of u "[]" e] that(2) in fastforce)
    then show ?thesis using that by (auto simp: parseIPv6_def split: if_splits)
  qed
  then show ?thesis using assms parseIPv4_length by (auto simp: ParseIP_def v4InV6_def split: list.splits if_splits)
qed

lemma To16_family: "length ip = 16 \<Longrightarrow> To16 (case To4 ip of None \<Rightarrow> ip | Some ip4 \<Rightarrow> ip4) = ip"
  using To4_To16(1) [of ip] To4_To16(2) [of ip] by (auto simp: To16_def split: option.splits)

lemma IP_String_To16: "length ip = 4 \<or> length ip = 16 \<Longrightarrow> IP_String (To16 ip) = IP_String ip"
  by (auto simp: IP_String_def To16_def To4_def v4InV6_def nth_append)

end
