(* ===== verification/Awareness.thy ===== *)
theory Awareness
  imports Prelude
begin

text \<open>
  \<^verbatim>\<open>src/awareness.go\<close>: the node's own health score. It rises when probes fail in a way that
  points at this node and falls when they succeed, and scales every probe timeout.
\<close>

record awareness =
  health :: int
  max_health :: int   \<comment> \<open>the field \<open>max\<close>\<close>

definition newAwareness :: "int \<Rightarrow> awareness" where
  "newAwareness mx = \<lparr>health = 0, max_health = mx\<rparr>"

definition GetHealth :: "awareness \<Rightarrow> int" where
  "GetHealth a = health a"

definition Punish :: "int \<Rightarrow> awareness \<Rightarrow> awareness" where
  "Punish delta a =
     (let h = wrap64 (health a + delta);
          top = wrap64 (max_health a - 1)
      in if h < 0 then a\<lparr>health := 0\<rparr>
         else if h > top then a\<lparr>health := top\<rparr>
         else a\<lparr>health := h\<rparr>)"

definition ScaleTimeout :: "awareness \<Rightarrow> duration \<Rightarrow> duration" where
  "ScaleTimeout a timeout = wrap64 (wrap64 (health a + 1) * timeout)"

section \<open>The score stays in range\<close>

definition awareness_wf :: "awareness \<Rightarrow> bool" where
  "awareness_wf a \<longleftrightarrow>
     1 \<le> max_health a \<and> max_health a < 2 ^ 63 \<and> 0 \<le> health a \<and> health a < max_health a"

lemma newAwareness_wf: "1 \<le> k \<Longrightarrow> k < 2 ^ 63 \<Longrightarrow> awareness_wf (newAwareness k)"
  by (simp add: awareness_wf_def newAwareness_def)

lemma Punish_max [simp, frame_simps]: "max_health (Punish d a) = max_health a"
  by (simp add: Punish_def Let_def)

lemma Punish_wf: "awareness_wf a \<Longrightarrow> awareness_wf (Punish d a)"
  by (auto simp: awareness_wf_def Punish_def Let_def wrap64_id)

text \<open>
  Where the addition does not overflow, \<open>Punish\<close> is the clamp of the sum to \<open>[0, max - 1]\<close>.
\<close>

lemma Punish_clamp:
  assumes "awareness_wf a" and "- (2 ^ 62) \<le> d" and "health a + d < 2 ^ 63"
  shows "health (Punish d a) = max 0 (min (max_health a - 1) (health a + d))"
proof -
  have "wrap64 (health a + d) = health a + d"
    by (rule wrap64_id) (use assms in \<open>auto simp: awareness_wf_def\<close>)
  with assms show ?thesis
    by (auto simp: awareness_wf_def Punish_def Let_def wrap64_id)
qed

lemma ScaleTimeout_eq:
  assumes "awareness_wf a" and "0 \<le> t" and "max_health a * t < 2 ^ 63"
  shows "ScaleTimeout a t = (health a + 1) * t"
proof -
  have le: "(health a + 1) * t \<le> max_health a * t"
    by (rule mult_right_mono) (use assms in \<open>auto simp: awareness_wf_def\<close>)
  have "wrap64 (health a + 1) = health a + 1"
    by (rule wrap64_id) (use assms in \<open>auto simp: awareness_wf_def\<close>)
  moreover have "0 \<le> (health a + 1) * t"
    using assms by (simp add: awareness_wf_def)
  ultimately show ?thesis
    unfolding ScaleTimeout_def using le assms(3) by (simp add: wrap64_id)
qed

end
