(* ===== verification/Wire.thy ===== *)
theory Wire
  imports Config
begin

text \<open>
  Message types, message structs and the byte-level message formats: \<^verbatim>\<open>src/net_handlers.go\<close>
  (\<open>msgType\<close>), the structs of \<^verbatim>\<open>src/state.go\<close>, \<^verbatim>\<open>src/ping.go\<close> and \<^verbatim>\<open>src/pushpull.go\<close>,
  and \<open>encode\<close>, \<open>decode\<close> and the compound format of \<^verbatim>\<open>src/util.go\<close>.

  The msgpack codec is a third-party package: a parameter of type \<open>codec\<close>. Its encoder turns
  a struct into bytes or fails; a decoder reads one struct off the front of a byte sequence and
  returns what is left. What the code relies on is the locale \<open>codec_laws\<close> of \<open>Codec\<close>: decoding
  what was encoded gives it back.
\<close>

section \<open>Message types\<close>

datatype msgType =
    pingMsg | indirectPingMsg | ackMsg | indirectAckMsg | aliveMsg | suspectMsg | deadMsg
  | pushPullMsg | compoundMsg | userMsg | compressMsg | encryptMsg | hasCrcMsg | errMsg

primrec Code :: "msgType \<Rightarrow> nat" where
  "Code pingMsg = 0"
| "Code indirectPingMsg = 1"
| "Code ackMsg = 2"
| "Code indirectAckMsg = 3"
| "Code aliveMsg = 4"
| "Code suspectMsg = 5"
| "Code deadMsg = 6"
| "Code pushPullMsg = 7"
| "Code compoundMsg = 8"
| "Code userMsg = 9"
| "Code compressMsg = 10"
| "Code encryptMsg = 11"
| "Code hasCrcMsg = 12"
| "Code errMsg = 13"

text \<open>The byte that stands for a message type on the wire: \<open>uint8(t.Code())\<close>.\<close>

definition tag :: "msgType \<Rightarrow> byte" where
  "tag t = of_nat (Code t)"

text \<open>
  A received byte need not be a message type: \<open>msgType(msg[0])\<close> is then a value no
  case of the source's switches matches, here \<open>None\<close>.
\<close>

definition allMsgTypes :: "msgType list" where
  "allMsgTypes = [pingMsg, indirectPingMsg, ackMsg, indirectAckMsg, aliveMsg, suspectMsg, deadMsg,
     pushPullMsg, compoundMsg, userMsg, compressMsg, encryptMsg, hasCrcMsg, errMsg]"

definition toMsgType :: "byte \<Rightarrow> msgType option" where
  "toMsgType b = (if unat b < 14 then Some (allMsgTypes ! unat b) else None)"

definition msgType_String :: "msgType option \<Rightarrow> string" where
  "msgType_String t =
     (case t of
        Some pingMsg \<Rightarrow> ''ping''
      | Some indirectPingMsg \<Rightarrow> ''indirect ping''
      | Some ackMsg \<Rightarrow> ''ack''
      | Some indirectAckMsg \<Rightarrow> ''indirectAck''
      | Some aliveMsg \<Rightarrow> ''alive''
      | Some suspectMsg \<Rightarrow> ''suspect''
      | Some deadMsg \<Rightarrow> ''dead''
      | Some pushPullMsg \<Rightarrow> ''pushpull''
      | Some compoundMsg \<Rightarrow> ''compound''
      | Some userMsg \<Rightarrow> ''user''
      | Some compressMsg \<Rightarrow> ''compress''
      | Some encryptMsg \<Rightarrow> ''encrypt''
      | Some hasCrcMsg \<Rightarrow> ''hasCrc''
      | Some errMsg \<Rightarrow> ''err''
      | None \<Rightarrow> ''unknown'')"

lemma tag_simps [simp]:
  "tag pingMsg = 0" "tag indirectPingMsg = 1" "tag ackMsg = 2" "tag indirectAckMsg = 3"
  "tag aliveMsg = 4" "tag suspectMsg = 5" "tag deadMsg = 6" "tag pushPullMsg = 7"
  "tag compoundMsg = 8" "tag userMsg = 9" "tag compressMsg = 10" "tag encryptMsg = 11"
  "tag hasCrcMsg = 12" "tag errMsg = 13"
  by (simp_all add: tag_def)

lemma toMsgType_tag [simp]: "toMsgType (tag t) = Some t"
  by (cases t) (simp_all add: toMsgType_def allMsgTypes_def)

lemma tag_inject [simp]: "tag s = tag t \<longleftrightarrow> s = t"
  by (metis option.inject toMsgType_tag)

section \<open>Message structs\<close>

text \<open>
  \<open>StateType\<close> is an \<open>int\<close> with four named values. A value decoded from the network can be any
  other integer: \<open>StateOther\<close>.
\<close>

datatype StateType = StateAlive | StateSuspect | StateDead | StateLeft | StateOther int

primrec StateType_String :: "StateType \<Rightarrow> string" where
  "StateType_String StateAlive = ''alive''"
| "StateType_String StateSuspect = ''suspect''"
| "StateType_String StateDead = ''dead''"
| "StateType_String StateLeft = ''left''"
| "StateType_String (StateOther n) = ''unknown state''"

record alive =
  a_Lives :: u32
  a_ID :: string
  a_IP :: IP
  a_Port :: u16
  a_Tags :: bytes

record suspect =
  s_Lives :: u32
  s_ID :: string
  s_From :: string

record dead =
  d_Lives :: u32
  d_ID :: string
  d_Left :: bool

record ping =
  p_SeqNo :: u32
  p_ID :: string
  p_SourceIP :: IP
  p_SourcePort :: u16

record ack =
  k_SeqNo :: u32
  k_Payload :: bytes

record indirectPing =
  i_SeqNo :: u32
  i_ID :: string
  i_IP :: IP
  i_Port :: u16
  i_SourceIP :: IP
  i_SourcePort :: u16

record indirectAck =
  ia_SeqNo :: u32
  ia_Success :: bool

record stateToMerge =
  r_Lives :: u32
  r_ID :: string
  r_IP :: IP
  r_Port :: u16
  r_Tags :: bytes
  r_State :: StateType

record pushPullHeader =
  h_Nodes :: int
  h_UserStateLen :: int

record compressed =
  z_Algo :: byte
  z_Buf :: bytes

record errResp =
  e_Error :: string

text \<open>What the codec is asked to encode.\<close>

datatype payload =
    P_alive alive | P_suspect suspect | P_dead dead | P_ping ping | P_ack ack
  | P_indirectPing indirectPing | P_indirectAck indirectAck | P_state stateToMerge
  | P_header pushPullHeader | P_compressed compressed | P_errResp errResp

section \<open>The codec parameter\<close>

record codec =
  enc :: "payload \<Rightarrow> bytes option"
  dec_alive :: "bytes \<Rightarrow> (alive \<times> bytes) option"
  dec_suspect :: "bytes \<Rightarrow> (suspect \<times> bytes) option"
  dec_dead :: "bytes \<Rightarrow> (dead \<times> bytes) option"
  dec_ping :: "bytes \<Rightarrow> (ping \<times> bytes) option"
  dec_ack :: "bytes \<Rightarrow> (ack \<times> bytes) option"
  dec_indirectPing :: "bytes \<Rightarrow> (indirectPing \<times> bytes) option"
  dec_indirectAck :: "bytes \<Rightarrow> (indirectAck \<times> bytes) option"
  dec_state :: "bytes \<Rightarrow> (stateToMerge \<times> bytes) option"
  dec_header :: "bytes \<Rightarrow> (pushPullHeader \<times> bytes) option"
  dec_compressed :: "bytes \<Rightarrow> (compressed \<times> bytes) option"
  dec_errResp :: "bytes \<Rightarrow> (errResp \<times> bytes) option"

text \<open>\<open>encode\<close> writes the type byte and then the struct; \<open>decode\<close> ignores what follows the struct.\<close>

definition encode :: "codec \<Rightarrow> msgType \<Rightarrow> payload \<Rightarrow> bytes outcome" where
  "encode C t p = (case enc C p of None \<Rightarrow> Err ErrCodec | Some b \<Rightarrow> Ok (tag t # b))"

definition decode :: "(bytes \<Rightarrow> ('a \<times> bytes) option) \<Rightarrow> bytes \<Rightarrow> 'a outcome" where
  "decode dec buf = (case dec buf of None \<Rightarrow> Err ErrCodec | Some (x, rest) \<Rightarrow> Ok x)"

section \<open>Compound messages\<close>

text \<open>\<open>packCompoundMsg\<close>: type byte, \<open>uint8(len(msgs))\<close>, the \<open>uint16\<close> lengths, the messages.\<close>

definition packCompoundMsg :: "bytes list \<Rightarrow> bytes" where
  "packCompoundMsg msgs =
     [tag compoundMsg, of_nat (length msgs)]
     @ concat (map (\<lambda>m. be16 (of_nat (length m))) msgs)
     @ concat msgs"

text \<open>\<open>splitToCompoundMsgs\<close>: at most 255 messages to a compound.\<close>

definition maxMsgs :: nat where
  "maxMsgs = 255"

function splitToCompoundMsgs :: "bytes list \<Rightarrow> bytes list" where
  "splitToCompoundMsgs msgs =
     (if maxMsgs < length msgs
      then packCompoundMsg (take maxMsgs msgs) # splitToCompoundMsgs (drop maxMsgs msgs)
      else if 0 < length msgs then [packCompoundMsg msgs] else [])"
  by pat_completeness auto
termination
  by (relation "measure length") (auto simp: maxMsgs_def)

declare splitToCompoundMsgs.simps [simp del]

text \<open>
  \<open>unpackCompoundMsg\<close>, called on what follows the type byte. \<open>readLens\<close> is the loop that
  decodes the lengths, \<open>splitMsgs\<close> the loop that cuts the messages; it returns the number of
  truncated messages and the messages cut so far.
\<close>

fun readLens :: "nat \<Rightarrow> bytes \<Rightarrow> u16 list" where
  "readLens 0 bs = []"
| "readLens (Suc n) (b0 # b1 # bs) = rd16 b0 b1 # readLens n bs"
| "readLens (Suc n) bs = []"

fun splitMsgs :: "u16 list \<Rightarrow> bytes \<Rightarrow> nat \<times> bytes list" where
  "splitMsgs [] msg = (0, [])"
| "splitMsgs (l # ls) msg =
     (if length msg < unat l then (Suc (length ls), [])
      else let (trunc, ms) = splitMsgs ls (drop (unat l) msg) in (trunc, take (unat l) msg # ms))"

definition unpackCompoundMsg :: "bytes \<Rightarrow> (nat \<times> bytes list) outcome" where
  "unpackCompoundMsg msg0 =
     (case msg0 of
        [] \<Rightarrow> Err ErrCompoundLength
      | b # msg \<Rightarrow>
          (let numParts = unat b in
           if length msg < numParts * 2 then Err ErrTruncatedLens
           else Ok (splitMsgs (readLens numParts msg) (drop (numParts * 2) msg))))"

section \<open>The compound format round-trips\<close>

definition frameLen :: "bytes \<Rightarrow> u16" where
  "frameLen m = of_nat (length m)"

lemma unat_frameLen: "length m < 65536 \<Longrightarrow> unat (frameLen m) = length m"
  by (simp add: frameLen_def unat_of_nat_small)

lemma length_concat_be16 [wire_simps]:
  "length (concat (map (\<lambda>m. be16 (f m)) msgs)) = 2 * length msgs"
  by (induction msgs) simp_all

lemma readLens_be16 [wire_simps]:
  "readLens (length msgs) (concat (map (\<lambda>m. be16 (f m)) msgs) @ rest) = map f msgs"
  by (induction msgs) (simp_all add: be16_def rd16_be16)

lemma splitMsgs_concat [wire_simps]:
  "\<forall>m \<in> set msgs. length m < 65536 \<Longrightarrow>
   splitMsgs (map frameLen msgs) (concat msgs @ rest) = (0, msgs)"
  by (induction msgs) (simp_all add: unat_frameLen)

lemma packCompoundMsg_frame:
  "packCompoundMsg msgs =
     [tag compoundMsg, of_nat (length msgs)] @ concat (map (\<lambda>m. be16 (frameLen m)) msgs) @ concat msgs"
  by (simp add: packCompoundMsg_def frameLen_def)

lemma length_packCompoundMsg:
  "length (packCompoundMsg msgs) = 2 + sum_list (map (\<lambda>m. length m + 2) msgs)"
proof -
  have "sum_list (map (\<lambda>m. length m + 2) msgs) = length (concat msgs) + 2 * length msgs"
    by (induction msgs) simp_all
  then show ?thesis
    by (simp add: packCompoundMsg_frame length_concat_be16)
qed

lemma unpack_pack_compound:
  assumes "length msgs \<le> 255" and "\<forall>m \<in> set msgs. length m < 65536"
  shows "unpackCompoundMsg (tl (packCompoundMsg msgs)) = Ok (0, msgs)"
proof -
  have n: "unat (of_nat (length msgs) :: byte) = length msgs"
    using assms(1) by (simp add: unat_of_nat_small)
  let ?lens = "concat (map (\<lambda>m. be16 (frameLen m)) msgs)"
  have lens: "readLens (length msgs) (?lens @ concat msgs) = map frameLen msgs"
    by (rule readLens_be16)
  have body: "drop (length msgs * 2) (?lens @ concat msgs) = concat msgs"
    by (simp add: length_concat_be16)
  have "splitMsgs (map frameLen msgs) (concat msgs) = (0, msgs)"
    using splitMsgs_concat [OF assms(2), of "[]"] by simp
  then show ?thesis
    unfolding unpackCompoundMsg_def packCompoundMsg_frame
    by (simp add: n lens body length_concat_be16 del: drop_append)
qed

text \<open>The split is by consecutive non-empty chunks of at most 255 messages.\<close>

function chunks :: "'a list \<Rightarrow> 'a list list" where
  "chunks xs =
     (if maxMsgs < length xs then take maxMsgs xs # chunks (drop maxMsgs xs)
      else if 0 < length xs then [xs] else [])"
  by pat_completeness auto
termination
  by (relation "measure length") (auto simp: maxMsgs_def)

declare chunks.simps [simp del]

lemma splitToCompoundMsgs_chunks: "splitToCompoundMsgs msgs = map packCompoundMsg (chunks msgs)"
  by (induction msgs rule: splitToCompoundMsgs.induct)
     (subst splitToCompoundMsgs.simps, subst chunks.simps, simp)

lemma concat_chunks: "concat (chunks xs) = xs"
  by (induction xs rule: chunks.induct) (subst chunks.simps, simp)

lemma chunks_bounds: "c \<in> set (chunks xs) \<Longrightarrow> 0 < length c \<and> length c \<le> 255 \<and> set c \<subseteq> set xs"
proof (induction xs arbitrary: c rule: chunks.induct)
  case (1 xs)
  show ?case
  proof (cases "maxMsgs < length xs")
    case True
    with 1 show ?thesis
      by (subst (asm) (2) chunks.simps) (auto simp: maxMsgs_def dest: in_set_takeD in_set_dropD)
  next
    case False
    with 1 show ?thesis
      by (subst (asm) (2) chunks.simps) (auto simp: maxMsgs_def split: if_splits)
  qed
qed

lemma splitMsgs_parts:
  "splitMsgs ls msg = (trunc, ms) \<Longrightarrow>
   trunc + length ms = length ls \<and> length (concat ms) \<le> length msg
   \<and> concat ms = take (length (concat ms)) msg"
proof (induction ls arbitrary: msg trunc ms)
  case (Cons l ls)
  show ?case
  proof (cases "length msg < unat l")
    case False
    obtain t ms' where rec: "splitMsgs ls (drop (unat l) msg) = (t, ms')" by fastforce
    with Cons.IH [OF rec] Cons.prems False show ?thesis
      by (auto simp: take_add)
  qed (use Cons.prems in auto)
qed auto

lemma length_readLens: "2 * n \<le> length bs \<Longrightarrow> length (readLens n bs) = n"
  by (induction n bs rule: readLens.induct) auto

lemma unpackCompoundMsg_parts:
  assumes "unpackCompoundMsg msg = Ok (trunc, ms)"
  shows "trunc + length ms = unat (hd msg)"
    and "1 + 2 * unat (hd msg) + length (concat ms) \<le> length msg"
    and "concat ms = take (length (concat ms)) (drop (1 + 2 * unat (hd msg)) msg)"
proof -
  from assms obtain b body where msg: "msg = b # body"
    by (cases msg) (auto simp: unpackCompoundMsg_def)
  with assms have len: "2 * unat b \<le> length body"
    and split: "splitMsgs (readLens (unat b) body) (drop (unat b * 2) body) = (trunc, ms)"
    by (auto simp: unpackCompoundMsg_def Let_def split: if_splits)
  from splitMsgs_parts [OF split] len msg
  show "trunc + length ms = unat (hd msg)"
    and "1 + 2 * unat (hd msg) + length (concat ms) \<le> length msg"
    and "concat ms = take (length (concat ms)) (drop (1 + 2 * unat (hd msg)) msg)"
    by (auto simp: length_readLens mult.commute)
qed

end
