(* ===== verification/Scaling.thy ===== *)
theory Scaling
  imports Config
begin

text \<open>
  The functions that scale limits and timeouts with the size of the cluster:
  \<open>transmitLimit\<close> (\<^verbatim>\<open>src/broadcast.go\<close>), \<open>minSuspicionTimeout\<close> (\<^verbatim>\<open>src/util.go\<close>) and
  \<open>pushPullScale\<close> (\<^verbatim>\<open>src/pushpull.go\<close>).

  They compute in \<open>float64\<close>. A \<open>float64\<close> is a real number here; \<open>fl\<close> rounds the exact result
  of an operation to a representable value, and \<open>f_Log\<close>, \<open>f_Log10\<close>, \<open>f_Log2\<close> are the
  rounded functions of package \<^verbatim>\<open>math\<close>. They are arguments of the definitions (one record), so
  that the results hold for every rounding that satisfies the laws of the locale \<open>float64\<close>
  below, whose instance \<open>exact_flops\<close> is exact real arithmetic.
\<close>

record flops =
  fl :: "real \<Rightarrow> real"
  f_Log :: "real \<Rightarrow> real"
  f_Log10 :: "real \<Rightarrow> real"
  f_Log2 :: "real \<Rightarrow> real"

definition transmitLimit :: "flops \<Rightarrow> int \<Rightarrow> int \<Rightarrow> int" where
  "transmitLimit F scale n =
     (let nodeScale = go_trunc (of_int \<lceil>f_Log10 F (fl F (of_int (wrap64 (n + 1))))\<rceil>)
      in wrap64 (scale * nodeScale))"

definition minSuspicionTimeout :: "flops \<Rightarrow> int \<Rightarrow> int \<Rightarrow> duration \<Rightarrow> duration" where
  "minSuspicionTimeout F scale n interval =
     (let nodeScale = max 1 (f_Log10 F (max 1 (fl F (of_int n))))
      in go_quot (wrap64 (wrap64 (scale * interval) * go_trunc (fl F (nodeScale * 1000)))) 1000)"

definition pushPullScaleThreshold :: int where
  "pushPullScaleThreshold = 32"

definition pushPullScale :: "flops \<Rightarrow> duration \<Rightarrow> int \<Rightarrow> duration" where
  "pushPullScale F interval n =
     (if n \<le> pushPullScaleThreshold then interval
      else let mult = fl F (of_int \<lceil>fl F (f_Log2 F (fl F (of_int n))
                              - f_Log2 F (fl F (of_int pushPullScaleThreshold)))\<rceil> + 1)
           in wrap64 (go_trunc mult * interval))"

section \<open>What the code relies on of floating-point arithmetic\<close>

locale float64 =
  fixes F :: flops
  assumes fl_mono: "x \<le> y \<Longrightarrow> fl F x \<le> fl F y"
    and fl_int: "\<bar>j :: int\<bar> \<le> 2 ^ 53 \<Longrightarrow> fl F (of_int j) = of_int j"
    and Log_mono: "1 \<le> x \<Longrightarrow> x \<le> y \<Longrightarrow> f_Log F x \<le> f_Log F y"
    and Log_1: "f_Log F 1 = 0"
    and Log_pos: "2 \<le> x \<Longrightarrow> 0 < f_Log F x"
    and Log10_mono: "1 \<le> x \<Longrightarrow> x \<le> y \<Longrightarrow> f_Log10 F x \<le> f_Log10 F y"
    and Log10_1: "f_Log10 F 1 = 0"
    and Log10_pos: "2 \<le> x \<Longrightarrow> 0 < f_Log10 F x"
    and Log10_10: "f_Log10 F 10 = 1"
    and Log2_mono: "1 \<le> x \<Longrightarrow> x \<le> y \<Longrightarrow> f_Log2 F x \<le> f_Log2 F y"
    and Log2_pow: "f_Log2 F (2 ^ k) = of_nat k"
begin

lemma fl_numeral [simp]: "fl F 0 = 0" "fl F 1 = 1" "fl F 1000 = 1000" "fl F 32 = 32"
  using fl_int [of 0] fl_int [of 1] fl_int [of 1000] fl_int [of 32] by simp_all

lemma fl_succ: "0 \<le> n \<Longrightarrow> n < 2 ^ 53 \<Longrightarrow> fl F (of_int (wrap64 (n + 1))) = of_int (n + 1)"
  using fl_int [of "n + 1"] by (simp add: wrap64_id)

lemma nodeScale_mono:
  "0 \<le> n \<Longrightarrow> n \<le> n' \<Longrightarrow> n' < 2 ^ 53 \<Longrightarrow>
   \<lceil>f_Log10 F (fl F (of_int (wrap64 (n + 1))))\<rceil> \<le> \<lceil>f_Log10 F (fl F (of_int (wrap64 (n' + 1))))\<rceil>"
  by (intro ceiling_mono) (simp add: fl_succ Log10_mono del: of_int_add)

lemma transmitLimit_mono:
  assumes "0 \<le> scale" and "0 \<le> n" and "n \<le> n'" and "n' < 2 ^ 53"
    and "scale * \<lceil>f_Log10 F (of_int (n' + 1))\<rceil> < 2 ^ 63"
  shows "transmitLimit F scale n \<le> transmitLimit F scale n'"
proof -
  let ?s = "\<lambda>n. \<lceil>f_Log10 F (fl F (of_int (wrap64 (n + 1))))\<rceil>"
  have s: "?s n \<le> ?s n'" using assms by (intro nodeScale_mono)
  have nonneg: "0 \<le> ?s n"
    using assms Log10_mono [of 1 "of_int (n + 1)"] by (simp add: fl_succ Log10_1)
  have le: "scale * ?s n \<le> scale * ?s n'"
    using assms(1) s by (rule mult_left_mono [rotated])
  have top: "?s n' = \<lceil>f_Log10 F (of_int (n' + 1))\<rceil>"
    using assms by (simp add: fl_succ)
  from le assms(5) have lt: "scale * ?s n' < 2 ^ 63" by (simp add: top)
  have ge: "0 \<le> scale * ?s n" using assms(1) nonneg by simp
  have "wrap64 (scale * ?s n) = scale * ?s n"
    by (rule wrap64_id) (use ge le lt in linarith)+
  moreover have "wrap64 (scale * ?s n') = scale * ?s n'"
    by (rule wrap64_id) (use ge le lt in linarith)+
  ultimately show ?thesis
    unfolding transmitLimit_def Let_def go_trunc_of_int using le by simp
qed

lemma transmitLimit_pos:
  assumes "0 < scale" and "1 \<le> n" and "n < 2 ^ 53"
    and "scale * \<lceil>f_Log10 F (of_int (n + 1))\<rceil> < 2 ^ 63"
  shows "scale \<le> transmitLimit F scale n"
proof -
  have "0 < f_Log10 F (of_int (n + 1))"
    using assms by (intro Log10_pos) simp
  then have c: "1 \<le> \<lceil>f_Log10 F (of_int (n + 1))\<rceil>" by linarith
  then have "scale * 1 \<le> scale * \<lceil>f_Log10 F (of_int (n + 1))\<rceil>"
    using assms(1) by (intro mult_left_mono) simp_all
  moreover have "fl F (of_int (wrap64 (n + 1))) = of_int (n + 1)"
    using assms by (intro fl_succ) simp_all
  moreover have "wrap64 (scale * \<lceil>f_Log10 F (of_int (n + 1))\<rceil>)
      = scale * \<lceil>f_Log10 F (of_int (n + 1))\<rceil>"
    by (rule wrap64_id) (use \<open>scale * 1 \<le> _\<close> assms in linarith)+
  ultimately show ?thesis
    by (simp only: transmitLimit_def Let_def go_trunc_of_int)
qed

text \<open>The minimum suspicion timeout is the product of the multiplier and the probe interval for
  clusters of up to ten nodes, and never less.\<close>

lemma suspicion_scale_ge:
  assumes "1 \<le> r"
  shows "1000 \<le> go_trunc (fl F (r * 1000))"
proof -
  have "fl F 1000 \<le> fl F (r * 1000)" using assms by (intro fl_mono) simp
  then have "go_trunc (of_int 1000) \<le> go_trunc (fl F (r * 1000))"
    by (intro go_trunc_mono) simp
  then show ?thesis by (simp only: go_trunc_of_int)
qed

lemma minSuspicionTimeout_ge:
  assumes "0 \<le> scale" and "0 \<le> interval"
    and "scale * interval
      * go_trunc (fl F (max 1 (f_Log10 F (max 1 (fl F (of_int n)))) * 1000)) < 2 ^ 63"
  shows "scale * interval \<le> minSuspicionTimeout F scale n interval"
proof -
  let ?k = "go_trunc (fl F (max 1 (f_Log10 F (max 1 (fl F (of_int n)))) * 1000))"
  have k: "1000 \<le> ?k" by (rule suspicion_scale_ge) simp
  have si: "0 \<le> scale * interval" using assms by simp
  have ge: "scale * interval * 1000 \<le> scale * interval * ?k"
    using k si by (rule mult_left_mono)
  have w1: "wrap64 (scale * interval) = scale * interval"
    by (rule wrap64_id) (use si ge assms(3) in linarith)+
  have w2: "wrap64 (scale * interval * ?k) = scale * interval * ?k"
    by (rule wrap64_id) (use si ge assms(3) in linarith)+
  have "minSuspicionTimeout F scale n interval = scale * interval * ?k div 1000"
    unfolding minSuspicionTimeout_def Let_def w1 w2
    by (rule go_quot_nonneg) (use si ge in linarith)+
  with ge show ?thesis by simp
qed

lemma minSuspicionTimeout_small:
  assumes "0 \<le> scale" and "0 \<le> interval" and "scale * interval * 1000 < 2 ^ 63" and "n \<le> 10"
  shows "minSuspicionTimeout F scale n interval = scale * interval"
proof -
  have si: "0 \<le> scale * interval" using assms by simp
  have "max 1 (fl F (of_int n)) \<le> fl F (of_int 10)"
    using assms(4) fl_mono [of "of_int n" "of_int 10"] fl_int [of 10] by simp
  then have "f_Log10 F (max 1 (fl F (of_int n))) \<le> 1"
    using Log10_mono [of "max 1 (fl F (of_int n))" 10] fl_int [of 10] Log10_10 by simp
  then have one: "max 1 (f_Log10 F (max 1 (fl F (of_int n)))) = 1" by simp
  have w1: "wrap64 (scale * interval) = scale * interval"
    by (rule wrap64_id) (use si assms(3) in linarith)+
  have w2: "wrap64 (scale * interval * 1000) = scale * interval * 1000"
    by (rule wrap64_id) (use si assms(3) in linarith)+
  have "go_trunc 1000 = 1000" using go_trunc_of_int [of 1000] by simp
  with si show ?thesis
    unfolding minSuspicionTimeout_def Let_def one w1 by (simp add: w2 go_quot_nonneg)
qed

text \<open>A cluster of between \<open>2 ^ k\<close> and \<open>2 ^ (k + 1)\<close> nodes waits between \<open>k - 4\<close> and \<open>k - 3\<close>
  push/pull intervals.\<close>

lemma pushPullScale_bounds:
  assumes "6 \<le> k" and "k < 52" and "2 ^ k \<le> n" and "n \<le> 2 ^ (k + 1)"
    and "0 \<le> interval" and "int k * interval < 2 ^ 63"
  shows "int (k - 4) * interval \<le> pushPullScale F interval n"
    and "pushPullScale F interval n \<le> int (k - 3) * interval"
proof -
  have n53: "n \<le> 2 ^ 53"
    using assms(4) power_increasing [of "k + 1" 53 "2 :: int"] assms(2) by simp
  have n33: "(2 :: int) ^ 6 \<le> n"
    using assms(3) power_increasing [of 6 k "2 :: int"] assms(1) by simp
  have fln: "fl F (of_int n) = of_int n" using fl_int [of n] n53 n33 by simp
  have "real_of_int (2 ^ k) \<le> real_of_int n" "real_of_int n \<le> real_of_int (2 ^ (k + 1))"
    using assms(3,4) by (simp_all only: of_int_le_iff)
  then have rn: "(2 :: real) ^ k \<le> of_int n" "of_int n \<le> (2 :: real) ^ (k + 1)"
    by simp_all
  have l1: "of_nat k \<le> f_Log2 F (of_int n)"
    using Log2_mono [of "2 ^ k" "of_int n"] rn by (simp add: Log2_pow)
  have l2: "f_Log2 F (of_int n) \<le> of_nat (k + 1)"
    using Log2_mono [of "of_int n" "2 ^ (k + 1)"] rn n33 Log2_pow [of "k + 1"] by simp
  have l5: "f_Log2 F 32 = 5" using Log2_pow [of 5] by simp
  let ?d = "fl F (f_Log2 F (of_int n) - 5)"
  have "fl F (of_int (int k - 5)) \<le> ?d" "?d \<le> fl F (of_int (int k - 4))"
    using l1 l2 by (auto intro!: fl_mono)
  moreover have "fl F (of_int (int k - 5)) = of_int (int k - 5)"
    "fl F (of_int (int k - 4)) = of_int (int k - 4)"
    using assms(1,2) by (intro fl_int; simp)+
  ultimately have c: "int k - 5 \<le> \<lceil>?d\<rceil>" "\<lceil>?d\<rceil> \<le> int k - 4"
    by (simp_all add: ceiling_le_iff le_ceiling_iff)
  have "\<bar>\<lceil>?d\<rceil> + 1\<bar> \<le> 100" using c assms(1,2) by linarith
  then have "\<bar>\<lceil>?d\<rceil> + 1\<bar> \<le> 2 ^ 53" by (rule order_trans) simp
  then have m: "fl F (of_int \<lceil>?d\<rceil> + 1) = of_int (\<lceil>?d\<rceil> + 1)"
    using fl_int [of "\<lceil>?d\<rceil> + 1"] by simp
  have eq: "pushPullScale F interval n = wrap64 ((\<lceil>?d\<rceil> + 1) * interval)"
    using n33 by (simp only: pushPullScale_def pushPullScaleThreshold_def Let_def fln)
      (simp add: l5 m go_trunc_of_int [of "\<lceil>?d\<rceil> + 1", simplified])
  have up: "(\<lceil>?d\<rceil> + 1) * interval \<le> int (k - 3) * interval"
    "int (k - 4) * interval \<le> (\<lceil>?d\<rceil> + 1) * interval"
    "int (k - 3) * interval \<le> int k * interval"
    using c assms(1,5) by (intro mult_right_mono; simp)+
  have lo: "0 \<le> int (k - 4) * interval" using assms(5) by simp
  have "wrap64 ((\<lceil>?d\<rceil> + 1) * interval) = (\<lceil>?d\<rceil> + 1) * interval"
    by (rule wrap64_id) (use up lo assms(6) in linarith)+
  with eq up show "int (k - 4) * interval \<le> pushPullScale F interval n"
    and "pushPullScale F interval n \<le> int (k - 3) * interval"
    by simp_all
qed

end

section \<open>Exact real arithmetic satisfies the laws\<close>

definition exact_flops :: flops where
  "exact_flops = \<lparr>fl = (\<lambda>x. x), f_Log = ln, f_Log10 = log 10, f_Log2 = log 2\<rparr>"

interpretation exact: float64 exact_flops
proof unfold_locales
  fix x :: real
  assume "2 \<le> x"
  then show "0 < f_Log exact_flops x" "0 < f_Log10 exact_flops x"
    by (simp_all add: exact_flops_def)
next
  fix k :: nat
  show "f_Log2 exact_flops (2 ^ k) = of_nat k"
    by (simp add: exact_flops_def log_nat_power)
qed (simp_all add: exact_flops_def)

end
