(* ===== verification/Broadcast.thy ===== *)
theory Broadcast
  imports Wire Scaling "HOL-Library.Product_Lexorder"
begin

text \<open>
  \<^verbatim>\<open>src/broadcast.go\<close>: the queue of messages waiting to be gossiped. A message is handed out
  until it has been transmitted \<open>transmitLimit\<close> times; messages with fewer transmissions go
  first, then longer ones, then newer ones. A named message replaces the older message of the
  same name.

  The priority queue itself is the third-party package \<^verbatim>\<open>github.com/mbver/heap\<close>, a parameter of
  type \<open>'h heap_ops\<close>; what the code relies on is the locale \<open>item_heap\<close>. Items are never
  modified while they are in the heap, so the heap holds values. \<open>Finish\<close> attempts a send on the
  item's channel: the model records the attempts in \<open>q_signals\<close>. The mutex is not modelled: each
  operation is one atomic step.
\<close>

section \<open>Items and the heap parameter\<close>

record TransmitCapItem =
  t_name :: string
  t_id :: u64
  t_transmits :: int
  t_msg :: bytes
  t_notify :: "chan option"

definition Less :: "TransmitCapItem \<Rightarrow> TransmitCapItem \<Rightarrow> bool" where
  "Less i i1 =
     (if t_transmits i = t_transmits i1 then
        (if length (t_msg i) = length (t_msg i1) then t_id i > t_id i1
         else length (t_msg i) > length (t_msg i1))
      else t_transmits i < t_transmits i1)"

record 'h heap_ops =
  hnew :: 'h
  hpush :: "TransmitCapItem \<Rightarrow> 'h \<Rightarrow> 'h"
  hpop :: "'h \<Rightarrow> (TransmitCapItem \<times> 'h) option"
  hremove :: "u64 \<Rightarrow> 'h \<Rightarrow> 'h"
  hlen :: "'h \<Rightarrow> nat"

record 'h TransmitCapQueue =
  q_TransmitScale :: int
  q_queue :: 'h
  q_exists :: "string \<Rightarrow> TransmitCapItem option"
  q_idSeq :: u64
  q_signals :: "chan list"

section \<open>Operations\<close>

definition NewBroadcastQueue :: "'h heap_ops \<Rightarrow> int \<Rightarrow> 'h TransmitCapQueue" where
  "NewBroadcastQueue H transmitScale =
     \<lparr>q_TransmitScale = transmitScale, q_queue = hnew H, q_exists = Map.empty, q_idSeq = 0,
      q_signals = []\<rparr>"

definition Finish :: "TransmitCapItem \<Rightarrow> 'h TransmitCapQueue \<Rightarrow> 'h TransmitCapQueue" where
  "Finish i q =
     (case t_notify i of None \<Rightarrow> q | Some c \<Rightarrow> q\<lparr>q_signals := q_signals q @ [c]\<rparr>)"

definition Push :: "'h heap_ops \<Rightarrow> TransmitCapItem \<Rightarrow> 'h TransmitCapQueue \<Rightarrow> 'h TransmitCapQueue" where
  "Push H item q =
     (let q1 =
        (if t_name item \<noteq> '''' then
           (let q0 = (case q_exists q (t_name item) of
                        None \<Rightarrow> q
                      | Some old \<Rightarrow> (Finish old q)\<lparr>q_queue := hremove H (t_id old) (q_queue q)\<rparr>)
            in q0\<lparr>q_exists := (q_exists q0)(t_name item \<mapsto> item)\<rparr>)
         else q)
      in q1\<lparr>q_queue := hpush H item (q_queue q1)\<rparr>)"

definition Pop :: "'h heap_ops \<Rightarrow> 'h TransmitCapQueue \<Rightarrow> TransmitCapItem option \<times> 'h TransmitCapQueue" where
  "Pop H q =
     (case hpop H (q_queue q) of
        None \<Rightarrow> (None, q)
      | Some (res, h) \<Rightarrow>
          (Some res, q\<lparr>q_queue := h, q_exists := (q_exists q)(t_name res := None)\<rparr>))"

definition Len :: "'h heap_ops \<Rightarrow> 'h TransmitCapQueue \<Rightarrow> int" where
  "Len H q = int (hlen H (q_queue q))"

definition QueueMsg :: "codec \<Rightarrow> 'h heap_ops \<Rightarrow> string \<Rightarrow> msgType \<Rightarrow> payload \<Rightarrow> chan option
    \<Rightarrow> 'h TransmitCapQueue \<Rightarrow> 'h TransmitCapQueue" where
  "QueueMsg C H name t msg notify q =
     (case encode C t msg of
        Ok encoded \<Rightarrow>
          Push H \<lparr>t_name = name, t_id = q_idSeq q, t_transmits = 0, t_msg = encoded, t_notify = notify\<rparr>
            (q\<lparr>q_idSeq := q_idSeq q + 1\<rparr>)
      | _ \<Rightarrow> q)"

text \<open>
  The selection loop of \<open>GetMessages\<close>. Whether it ends depends on the heap: \<open>None\<close> would be a
  loop that never returns.
\<close>

partial_function (option) pickLoop :: "'h heap_ops \<Rightarrow> int \<Rightarrow> int \<Rightarrow> int
    \<Rightarrow> TransmitCapItem list \<Rightarrow> TransmitCapItem list \<Rightarrow> 'h TransmitCapQueue
    \<Rightarrow> (TransmitCapItem list \<times> TransmitCapItem list \<times> 'h TransmitCapQueue) option" where
  "pickLoop H overhead sz bytesUsed picked notPicked q =
     (if bytesUsed + 20 + overhead > sz then Some (picked, notPicked, q)
      else case Pop H q of
        (None, q') \<Rightarrow> Some (picked, notPicked, q')
      | (Some item, q') \<Rightarrow>
          (if bytesUsed + int (length (t_msg item)) + overhead > sz
           then pickLoop H overhead sz bytesUsed picked (notPicked @ [item]) q'
           else pickLoop H overhead sz (bytesUsed + (int (length (t_msg item)) + overhead))
                  (picked @ [item]) notPicked q'))"

fun pushAll :: "'h heap_ops \<Rightarrow> TransmitCapItem list \<Rightarrow> 'h TransmitCapQueue \<Rightarrow> 'h TransmitCapQueue" where
  "pushAll H [] q = q"
| "pushAll H (item # items) q = pushAll H items (Push H item q)"

fun resend :: "'h heap_ops \<Rightarrow> int \<Rightarrow> TransmitCapItem list \<Rightarrow> 'h TransmitCapQueue
    \<Rightarrow> bytes list \<times> 'h TransmitCapQueue" where
  "resend H transLimit [] q = ([], q)"
| "resend H transLimit (item # items) q =
     (let item' = item\<lparr>t_transmits := t_transmits item + 1\<rparr>;
          q1 = (if t_transmits item' \<ge> transLimit then Finish item' q else Push H item' q);
          (msgs, q2) = resend H transLimit items q1
      in (t_msg item # msgs, q2))"

definition GetMessages :: "flops \<Rightarrow> 'h heap_ops \<Rightarrow> int \<Rightarrow> int \<Rightarrow> int \<Rightarrow> 'h TransmitCapQueue
    \<Rightarrow> (bytes list \<times> 'h TransmitCapQueue) option" where
  "GetMessages F H numNodes overhead sz q =
     (if sz \<le> overhead \<or> Len H q = 0 then Some ([], q)
      else case pickLoop H overhead sz 0 [] [] q of
        None \<Rightarrow> None
      | Some (picked, notPicked, q1) \<Rightarrow>
          (let q2 = pushAll H notPicked q1;
               transLimit = transmitLimit F (q_TransmitScale q2) numNodes;
               (msgs, q3) = resend H transLimit picked q2;
               q4 = (if hlen H (q_queue q3) = 0 then q3\<lparr>q_idSeq := 0\<rparr> else q3)
           in Some (msgs, q4)))"

partial_function (option) Resize :: "'h heap_ops \<Rightarrow> int \<Rightarrow> 'h TransmitCapQueue
    \<Rightarrow> 'h TransmitCapQueue outcome option" where
  "Resize H sz q =
     (if Len H q > sz then
        (case Pop H q of
           (None, q') \<Rightarrow> Some (Panic NilDereference)
         | (Some item, q') \<Rightarrow> Resize H sz (Finish item q'))
      else Some (Ok q))"

definition userMsgOverhead :: int where
  "userMsgOverhead = 1"

text \<open>
  \<open>getBroadcasts\<close> of the memberlist: its own messages first, then those of the user's
  \<open>UserBroadcasts\<close> delegate (a parameter), each prefixed with the user message type, from what
  is left of the limit.
\<close>

definition getBroadcasts :: "flops \<Rightarrow> 'h heap_ops \<Rightarrow> (int \<Rightarrow> int \<Rightarrow> bytes list) option \<Rightarrow> int
    \<Rightarrow> int \<Rightarrow> int \<Rightarrow> 'h TransmitCapQueue \<Rightarrow> (bytes list \<times> 'h TransmitCapQueue) option" where
  "getBroadcasts F H ubroadcasts numNodes overhead limit q =
     (if limit \<le> overhead then Some ([], q)
      else case GetMessages F H numNodes overhead limit q of
        None \<Rightarrow> None
      | Some (msgs, q') \<Rightarrow>
          (case ubroadcasts of
             None \<Rightarrow> Some (msgs, q')
           | Some GetBroadcasts \<Rightarrow>
               (let bytesUsed = sum_list (map (\<lambda>msg. int (length msg) + overhead) msgs);
                    limit' = limit - bytesUsed;
                    umsgs = GetBroadcasts (overhead + userMsgOverhead) limit'
                in Some (msgs @ map (\<lambda>msg. tag userMsg # msg) umsgs, q'))))"

section \<open>The order of the queue\<close>

definition item_key :: "TransmitCapItem \<Rightarrow> int \<times> int \<times> int" where
  "item_key i = (t_transmits i, - int (length (t_msg i)), - uint (t_id i))"

lemma Less_key: "Less i j \<longleftrightarrow> item_key i < item_key j"
  by (auto simp: Less_def item_key_def word_less_def)

lemma Less_irrefl [simp]: "\<not> Less i i"
  by (simp add: Less_key)

lemma Less_trans: "Less i j \<Longrightarrow> Less j k \<Longrightarrow> Less i k"
  by (simp add: Less_key)

lemma Less_total: "t_id i \<noteq> t_id j \<Longrightarrow> Less i j \<or> Less j i"
  by (auto simp: Less_def)

section \<open>What the queue relies on of the heap\<close>

text \<open>
  \<open>elems\<close> is the set of items a heap holds. Identifiers are unique in a heap; \<open>Pop\<close> returns an
  item no other is less than; \<open>Remove\<close> takes out the item with the given identifier.
\<close>

locale item_heap =
  fixes H :: "'h heap_ops"
    and hinv :: "'h \<Rightarrow> bool"
    and elems :: "'h \<Rightarrow> TransmitCapItem set"
  assumes inv_new: "hinv (hnew H)"
    and elems_new: "elems (hnew H) = {}"
    and finite_elems: "hinv h \<Longrightarrow> finite (elems h)"
    and uniq: "hinv h \<Longrightarrow> inj_on t_id (elems h)"
    and len: "hinv h \<Longrightarrow> hlen H h = card (elems h)"
    and push: "hinv h \<Longrightarrow> t_id i \<notin> t_id ` elems h \<Longrightarrow>
      hinv (hpush H i h) \<and> elems (hpush H i h) = insert i (elems h)"
    and remove: "hinv h \<Longrightarrow>
      hinv (hremove H k h) \<and> elems (hremove H k h) = {i \<in> elems h. t_id i \<noteq> k}"
    and pop_empty: "hinv h \<Longrightarrow> hpop H h = None \<longleftrightarrow> elems h = {}"
    and pop: "hinv h \<Longrightarrow> hpop H h = Some (i, h') \<Longrightarrow>
      i \<in> elems h \<and> hinv h' \<and> elems h' = elems h - {i} \<and> (\<forall>j \<in> elems h. \<not> Less j i)"

text \<open>
  The queue's invariant: identifiers are below the sequence number, and \<open>exists\<close> holds exactly
  the named items of the heap, so there is at most one item of a name.
\<close>

definition queue_wf :: "('h \<Rightarrow> bool) \<Rightarrow> ('h \<Rightarrow> TransmitCapItem set) \<Rightarrow> 'h TransmitCapQueue \<Rightarrow> bool" where
  "queue_wf hinv elems q \<longleftrightarrow>
     hinv (q_queue q)
     \<and> (\<forall>i \<in> elems (q_queue q). t_id i < q_idSeq q)
     \<and> (\<forall>n i. q_exists q n = Some i \<longleftrightarrow> n \<noteq> '''' \<and> i \<in> elems (q_queue q) \<and> t_name i = n)"

text \<open>An item a queue can take without touching what it holds.\<close>

definition fits_in :: "('h \<Rightarrow> TransmitCapItem set) \<Rightarrow> TransmitCapItem \<Rightarrow> 'h TransmitCapQueue \<Rightarrow> bool" where
  "fits_in elems i q \<longleftrightarrow>
     t_id i < q_idSeq q
     \<and> (\<forall>j \<in> elems (q_queue q). t_id j \<noteq> t_id i \<and> (t_name i = '''' \<or> t_name j \<noteq> t_name i))"

text \<open>A list of items that can be pushed one after the other.\<close>

definition compatible :: "('h \<Rightarrow> TransmitCapItem set) \<Rightarrow> TransmitCapItem list
    \<Rightarrow> 'h TransmitCapQueue \<Rightarrow> bool" where
  "compatible elems is q \<longleftrightarrow>
     (\<forall>i \<in> set is. fits_in elems i q)
     \<and> distinct (map t_id is)
     \<and> sorted_wrt (\<lambda>i j. t_name i = '''' \<or> t_name j \<noteq> t_name i) is"

text \<open>The space a list of messages takes, and the channels signalled when it has been sent.\<close>

definition spaceUsed :: "int \<Rightarrow> TransmitCapItem list \<Rightarrow> int" where
  "spaceUsed overhead is = sum_list (map (\<lambda>i. int (length (t_msg i)) + overhead) is)"

definition signalled :: "int \<Rightarrow> TransmitCapItem list \<Rightarrow> chan list" where
  "signalled tlim is =
     concat (map (\<lambda>i. if t_transmits i + 1 \<ge> tlim
                      then (case t_notify i of None \<Rightarrow> [] | Some c \<Rightarrow> [c]) else []) is)"

text \<open>
  What the selection loop does, started with \<open>used\<close> bytes taken: the items it picks and those
  it sets aside come out of the queue, in priority order; the picked ones keep within the size;
  one set aside does not fit; and nothing is left, or less than the minimum threshold.
\<close>

definition picks :: "('h \<Rightarrow> bool) \<Rightarrow> ('h \<Rightarrow> TransmitCapItem set) \<Rightarrow> int \<Rightarrow> int \<Rightarrow> int
    \<Rightarrow> 'h TransmitCapQueue \<Rightarrow> TransmitCapItem list \<Rightarrow> TransmitCapItem list
    \<Rightarrow> 'h TransmitCapQueue \<Rightarrow> bool" where
  "picks hinv elems ov sz used q pk np q' \<longleftrightarrow>
     queue_wf hinv elems q'
     \<and> distinct (pk @ np) \<and> set (pk @ np) \<subseteq> elems (q_queue q)
     \<and> elems (q_queue q') = elems (q_queue q) - set (pk @ np)
     \<and> q_idSeq q' = q_idSeq q \<and> q_signals q' = q_signals q \<and> q_TransmitScale q' = q_TransmitScale q
     \<and> used + spaceUsed ov pk \<le> sz
     \<and> (\<forall>i \<in> set np. sz < used + spaceUsed ov pk + int (length (t_msg i)) + ov)
     \<and> (elems (q_queue q') = {} \<or> sz < used + spaceUsed ov pk + 20 + ov)
     \<and> (\<forall>i \<in> set (pk @ np). \<forall>j \<in> elems (q_queue q'). \<not> Less j i)"

definition bump :: "TransmitCapItem \<Rightarrow> TransmitCapItem" where
  "bump i = i\<lparr>t_transmits := t_transmits i + 1\<rparr>"

lemma bump_simps [simp]:
  "t_name (bump i) = t_name i" "t_id (bump i) = t_id i" "t_msg (bump i) = t_msg i"
  "t_notify (bump i) = t_notify i" "t_transmits (bump i) = t_transmits i + 1"
  by (simp_all add: bump_def)

lemma Finish_simps [simp]:
  "q_queue (Finish i q) = q_queue q" "q_exists (Finish i q) = q_exists q"
  "q_idSeq (Finish i q) = q_idSeq q" "q_TransmitScale (Finish i q) = q_TransmitScale q"
  by (simp_all add: Finish_def split: option.splits)

lemma queue_wf_Finish [simp]: "queue_wf hinv elems (Finish i q) = queue_wf hinv elems q"
  by (simp add: queue_wf_def)

section \<open>The queue over any heap\<close>

context item_heap
begin

lemma wf_named:
  "queue_wf hinv elems q \<Longrightarrow> i \<in> elems (q_queue q) \<Longrightarrow> t_name i \<noteq> [] \<Longrightarrow>
   q_exists q (t_name i) = Some i"
  by (simp add: queue_wf_def)

lemma wf_named_unique:
  assumes "queue_wf hinv elems q" and "i \<in> elems (q_queue q)" and "j \<in> elems (q_queue q)"
    and "t_name i = t_name j" and "t_name i \<noteq> ''''"
  shows "i = j"
proof -
  have "q_exists q (t_name i) = Some i" "q_exists q (t_name i) = Some j"
    using assms by (auto simp: queue_wf_def)
  then show ?thesis by simp
qed

lemma wf_other_name:
  "queue_wf hinv elems q \<Longrightarrow> i \<in> elems (q_queue q) \<Longrightarrow> j \<in> elems (q_queue q) \<Longrightarrow> j \<noteq> i \<Longrightarrow>
   t_name i \<noteq> [] \<Longrightarrow> t_name j \<noteq> t_name i"
  using wf_named_unique by metis

lemma wf_id_unique:
  "queue_wf hinv elems q \<Longrightarrow> i \<in> elems (q_queue q) \<Longrightarrow> j \<in> elems (q_queue q) \<Longrightarrow>
   t_id i = t_id j \<Longrightarrow> i = j"
  using uniq by (auto simp: queue_wf_def dest: inj_onD)

lemma wf_finite: "queue_wf hinv elems q \<Longrightarrow> finite (elems (q_queue q))"
  by (simp add: queue_wf_def finite_elems)

lemma wf_Len: "queue_wf hinv elems q \<Longrightarrow> Len H q = int (card (elems (q_queue q)))"
  by (simp add: queue_wf_def Len_def len)

lemma wf_New: "queue_wf hinv elems (NewBroadcastQueue H k)"
  by (simp add: queue_wf_def NewBroadcastQueue_def inv_new elems_new)

lemma Pop_empty: "queue_wf hinv elems q \<Longrightarrow> elems (q_queue q) = {} \<Longrightarrow> Pop H q = (None, q)"
  using pop_empty [of "q_queue q"] by (simp add: queue_wf_def Pop_def)

lemma Pop_some:
  assumes "queue_wf hinv elems q" and "elems (q_queue q) \<noteq> {}"
  obtains i q' where "Pop H q = (Some i, q')" and "i \<in> elems (q_queue q)"
    and "elems (q_queue q') = elems (q_queue q) - {i}" and "queue_wf hinv elems q'"
    and "q_idSeq q' = q_idSeq q" and "q_signals q' = q_signals q"
    and "q_TransmitScale q' = q_TransmitScale q"
    and "\<forall>j \<in> elems (q_queue q). \<not> Less j i"
proof -
  have inv: "hinv (q_queue q)" using assms(1) by (simp add: queue_wf_def)
  with assms(2) obtain i h where h: "hpop H (q_queue q) = Some (i, h)"
    using pop_empty by (cases "hpop H (q_queue q)") auto
  let ?q = "q\<lparr>q_queue := h, q_exists := (q_exists q)(t_name i := None)\<rparr>"
  from pop [OF inv h] have i: "i \<in> elems (q_queue q)" "hinv h" "elems h = elems (q_queue q) - {i}"
    "\<forall>j \<in> elems (q_queue q). \<not> Less j i" by auto
  have ex: "q_exists ?q n = Some j \<longleftrightarrow> n \<noteq> [] \<and> j \<in> elems h \<and> t_name j = n" for n j
  proof (cases "n = t_name i")
    case True
    with wf_other_name [OF assms(1) i(1), of j] i(3) show ?thesis by auto
  next
    case False
    with assms(1) i(1,3) show ?thesis by (auto simp: queue_wf_def)
  qed
  have "queue_wf hinv elems ?q"
    unfolding queue_wf_def ex using assms(1) i(2,3) by (simp add: queue_wf_def)
  with h i show thesis by (intro that [of i ?q]) (simp_all add: Pop_def)
qed

text \<open>Pushing replaces the item of the same name and keeps everything else.\<close>

lemma Push_spec:
  assumes wf: "queue_wf hinv elems q" and lt: "t_id i < q_idSeq q"
    and fresh: "\<forall>j \<in> elems (q_queue q). t_id j \<noteq> t_id i"
  shows "queue_wf hinv elems (Push H i q)"
    and "elems (q_queue (Push H i q)) =
      insert i {j \<in> elems (q_queue q). t_name i = '''' \<or> t_name j \<noteq> t_name i}"
    and "q_idSeq (Push H i q) = q_idSeq q"
    and "q_TransmitScale (Push H i q) = q_TransmitScale q"
proof -
  let ?E = "elems (q_queue q)"
  have inv: "hinv (q_queue q)" using wf by (simp add: queue_wf_def)
  define h where "h = (if t_name i = '''' then q_queue q
    else case q_exists q (t_name i) of None \<Rightarrow> q_queue q | Some old \<Rightarrow> hremove H (t_id old) (q_queue q))"
  have queue: "q_queue (Push H i q) = hpush H i h"
    by (simp add: Push_def Let_def h_def split: option.splits)
  have ex: "q_exists (Push H i q) = (if t_name i = '''' then q_exists q else (q_exists q)(t_name i \<mapsto> i))"
    by (simp add: Push_def Let_def split: option.splits)
  have h: "hinv h \<and> elems h = {j \<in> ?E. t_name i = '''' \<or> t_name j \<noteq> t_name i}"
  proof (cases "t_name i = '''' \<or> q_exists q (t_name i) = None")
    case True
    then have "t_name i = [] \<or> t_name j \<noteq> t_name i" if "j \<in> ?E" for j
      using wf_named [OF wf that] by (cases "t_name i = []"; cases "t_name j = t_name i") simp_all
    then have "{j \<in> ?E. t_name i = [] \<or> t_name j \<noteq> t_name i} = ?E" by blast
    moreover from True have "h = q_queue q" by (auto simp: h_def)
    ultimately show ?thesis using inv by simp
  next
    case False
    then obtain old where old: "q_exists q (t_name i) = Some old" by auto
    with wf False have "old \<in> ?E" "t_name old = t_name i" by (auto simp: queue_wf_def)
    then have "t_id j \<noteq> t_id old \<longleftrightarrow> t_name i = [] \<or> t_name j \<noteq> t_name i" if "j \<in> ?E" for j
      using that wf_id_unique [OF wf, of old j] wf_other_name [OF wf, of old j] False by auto
    then have "{j \<in> ?E. t_id j \<noteq> t_id old} = {j \<in> ?E. t_name i = '''' \<or> t_name j \<noteq> t_name i}"
      by auto
    with False old remove [OF inv, of "t_id old"] show ?thesis by (simp add: h_def)
  qed
  have "t_id i \<notin> t_id ` elems h" using h fresh by auto
  with h push [of h i] have p: "hinv (hpush H i h)"
    "elems (hpush H i h) = insert i {j \<in> ?E. t_name i = '''' \<or> t_name j \<noteq> t_name i}"
    by simp_all
  then show "elems (q_queue (Push H i q)) = insert i {j \<in> ?E. t_name i = '''' \<or> t_name j \<noteq> t_name i}"
    by (simp add: queue)
  show seq: "q_idSeq (Push H i q) = q_idSeq q"
    and "q_TransmitScale (Push H i q) = q_TransmitScale q"
    by (simp_all add: Push_def Let_def split: option.splits)
  have "q_exists (Push H i q) n = Some j \<longleftrightarrow>
      n \<noteq> [] \<and> j \<in> elems (hpush H i h) \<and> t_name j = n" for n j
  proof (cases "n = t_name i")
    case True
    then show ?thesis using p(2) wf by (auto simp: ex queue_wf_def)
  next
    case False
    then show ?thesis using p(2) wf by (auto simp: ex queue_wf_def)
  qed
  moreover have "\<forall>j \<in> elems (hpush H i h). t_id j < q_idSeq q"
    using p(2) lt wf by (auto simp: queue_wf_def)
  ultimately show "queue_wf hinv elems (Push H i q)"
    unfolding queue_wf_def queue seq using p(1) by blast
qed

lemma Push_fits:
  assumes wf: "queue_wf hinv elems q" and fit: "fits_in elems i q"
  shows "queue_wf hinv elems (Push H i q)"
    and "elems (q_queue (Push H i q)) = insert i (elems (q_queue q))"
    and "q_idSeq (Push H i q) = q_idSeq q"
    and "q_TransmitScale (Push H i q) = q_TransmitScale q"
    and "q_signals (Push H i q) = q_signals q"
proof -
  have "t_name i = '''' \<or> q_exists q (t_name i) = None"
    using wf fit by (auto simp: queue_wf_def fits_in_def)
  then show "q_signals (Push H i q) = q_signals q"
    by (auto simp: Push_def Let_def split: option.splits)
  from Push_spec [OF wf, of i] fit
  show "queue_wf hinv elems (Push H i q)"
    and "elems (q_queue (Push H i q)) = insert i (elems (q_queue q))"
    and "q_idSeq (Push H i q) = q_idSeq q"
    and "q_TransmitScale (Push H i q) = q_TransmitScale q"
    by (auto simp: fits_in_def)
qed

lemma compatible_Cons_Push:
  assumes wf: "queue_wf hinv elems q" and c: "compatible elems (i # is) q"
    and i': "t_id i' = t_id i" "t_name i' = t_name i"
  shows "fits_in elems i' q" and "compatible elems is (Push H i' q)"
proof -
  show f: "fits_in elems i' q" using c i' by (simp add: compatible_def fits_in_def)
  from Push_fits [OF wf f] c i' show "compatible elems is (Push H i' q)"
    by (auto simp: compatible_def fits_in_def)
qed

lemma compatible_Cons_Finish: "compatible elems (i # is) q \<Longrightarrow> compatible elems is (Finish j q)"
  by (auto simp: compatible_def fits_in_def)

lemma pushAll_spec:
  "queue_wf hinv elems q \<Longrightarrow> compatible elems is q \<Longrightarrow>
   queue_wf hinv elems (pushAll H is q)
   \<and> elems (q_queue (pushAll H is q)) = elems (q_queue q) \<union> set is
   \<and> q_idSeq (pushAll H is q) = q_idSeq q
   \<and> q_TransmitScale (pushAll H is q) = q_TransmitScale q
   \<and> q_signals (pushAll H is q) = q_signals q"
proof (induction "is" arbitrary: q)
  case (Cons i "is")
  note f = compatible_Cons_Push [OF Cons.prems refl refl]
  show ?case
    using Cons.IH [OF Push_fits(1) [OF Cons.prems(1) f(1)] f(2)] Push_fits [OF Cons.prems(1) f(1)]
    by auto
qed simp

lemma resend_spec:
  "queue_wf hinv elems q \<Longrightarrow> compatible elems is q \<Longrightarrow> resend H tlim is q = (msgs, q') \<Longrightarrow>
   msgs = map t_msg is
   \<and> queue_wf hinv elems q'
   \<and> elems (q_queue q') = elems (q_queue q) \<union> bump ` {i \<in> set is. t_transmits i + 1 < tlim}
   \<and> q_idSeq q' = q_idSeq q
   \<and> q_signals q' = q_signals q @ signalled tlim is"
proof (induction "is" arbitrary: q msgs)
  case Nil
  then show ?case by (simp add: signalled_def)
next
  case (Cons i "is")
  define q1 where "q1 = (if t_transmits i + 1 \<ge> tlim then Finish (bump i) q else Push H (bump i) q)"
  obtain ms where rec: "resend H tlim is q1 = (ms, q')" and msgs: "msgs = t_msg i # ms"
    using Cons.prems(3) by (auto simp: q1_def bump_def Let_def split: prod.splits if_splits)
  have b: "t_id (bump i) = t_id i" "t_name (bump i) = t_name i" by simp_all
  note push = compatible_Cons_Push [OF Cons.prems(1,2) b]
  have q1: "queue_wf hinv elems q1" "compatible elems is q1"
    using Cons.prems push Push_fits(1) [OF Cons.prems(1) push(1)] compatible_Cons_Finish
    by (auto simp: q1_def)
  have e: "elems (q_queue q1) = elems (q_queue q) \<union> bump ` {j \<in> {i}. t_transmits j + 1 < tlim}"
    and "q_idSeq q1 = q_idSeq q" and "q_signals q1 = q_signals q @ signalled tlim [i]"
    using Push_fits [OF Cons.prems(1) push(1)]
    by (auto simp: q1_def signalled_def Finish_def split: option.splits)
  with Cons.IH [OF q1 rec] msgs show ?case
    by (auto simp: signalled_def)
qed

text \<open>The selection loop ends, whatever the heap's internal order.\<close>

lemma spaceUsed_simps [simp]:
  "spaceUsed ov [] = 0" "spaceUsed ov (i # is) = int (length (t_msg i)) + ov + spaceUsed ov is"
  by (simp_all add: spaceUsed_def)

lemma spaceUsed_nonneg: "0 \<le> ov \<Longrightarrow> 0 \<le> spaceUsed ov is"
  by (auto simp: spaceUsed_def intro!: sum_list_nonneg)

lemma picks_skip:
  assumes picks: "picks hinv elems ov sz used q1 pk np q'"
    and e1: "elems (q_queue q1) = elems (q_queue q) - {i}" and i: "i \<in> elems (q_queue q)"
    and same: "q_idSeq q1 = q_idSeq q" "q_signals q1 = q_signals q" "q_TransmitScale q1 = q_TransmitScale q"
    and least: "\<forall>j \<in> elems (q_queue q). \<not> Less j i"
    and big: "sz < used + int (length (t_msg i)) + ov" and ov: "0 \<le> ov"
  shows "picks hinv elems ov sz used q pk (i # np) q'"
proof -
  have "i \<notin> set (pk @ np)" using picks e1 by (auto simp: picks_def)
  moreover have "set (pk @ np) \<subseteq> elems (q_queue q)" using picks e1 unfolding picks_def by blast
  moreover have "elems (q_queue q') \<subseteq> elems (q_queue q)" using picks e1 unfolding picks_def by blast
  ultimately show ?thesis
    using picks i same least big spaceUsed_nonneg [OF ov, of pk] e1 unfolding picks_def
    by (intro conjI; simp; blast?)
qed

lemma picks_take:
  assumes picks: "picks hinv elems ov sz (used + (int (length (t_msg i)) + ov)) q1 pk np q'"
    and e1: "elems (q_queue q1) = elems (q_queue q) - {i}" and i: "i \<in> elems (q_queue q)"
    and same: "q_idSeq q1 = q_idSeq q" "q_signals q1 = q_signals q" "q_TransmitScale q1 = q_TransmitScale q"
    and least: "\<forall>j \<in> elems (q_queue q). \<not> Less j i"
  shows "picks hinv elems ov sz used q (i # pk) np q'"
proof -
  have "i \<notin> set (pk @ np)" using picks e1 by (auto simp: picks_def)
  moreover have "set (pk @ np) \<subseteq> elems (q_queue q)" using picks e1 unfolding picks_def by blast
  moreover have "elems (q_queue q') \<subseteq> elems (q_queue q)" using picks e1 unfolding picks_def by blast
  ultimately show ?thesis
    using picks i same least e1 unfolding picks_def
    by (intro conjI; simp add: add.assoc; blast?)
qed

lemma pickLoop_spec:
  assumes "queue_wf hinv elems q" and "used \<le> sz" and "0 \<le> ov"
  shows "\<exists>pk np q'. pickLoop H ov sz used P N q = Some (P @ pk, N @ np, q')
    \<and> picks hinv elems ov sz used q pk np q'"
  using assms
proof (induction "card (elems (q_queue q))" arbitrary: q used P N rule: less_induct)
  case less
  show ?case
  proof (cases "used + 20 + ov > sz \<or> elems (q_queue q) = {}")
    case True
    then have "pickLoop H ov sz used P N q = Some (P, N, q)"
      using Pop_empty [OF less.prems(1)] by (subst pickLoop.simps) auto
    moreover have "picks hinv elems ov sz used q [] [] q"
      using less.prems True by (auto simp: picks_def)
    ultimately show ?thesis by fastforce
  next
    case False
    then have nonempty: "elems (q_queue q) \<noteq> {}" by simp
    obtain i q1 where pop: "Pop H q = (Some i, q1)" and i: "i \<in> elems (q_queue q)"
      and e1: "elems (q_queue q1) = elems (q_queue q) - {i}" and wf1: "queue_wf hinv elems q1"
      and same: "q_idSeq q1 = q_idSeq q" "q_signals q1 = q_signals q" "q_TransmitScale q1 = q_TransmitScale q"
      and least: "\<forall>j \<in> elems (q_queue q). \<not> Less j i"
      by (rule Pop_some [OF less.prems(1) nonempty])
    have card: "card (elems (q_queue q1)) < card (elems (q_queue q))"
      unfolding e1 using i wf_finite [OF less.prems(1)] by (intro card_Diff1_less)
    let ?len = "int (length (t_msg i))"
    show ?thesis
    proof (cases "used + ?len + ov > sz")
      case True
      with False pop have step: "pickLoop H ov sz used P N q = pickLoop H ov sz used P (N @ [i]) q1"
        by (subst pickLoop.simps) simp
      from less.hyps [OF card wf1 less.prems(2,3), of P "N @ [i]"] obtain pk np q' where
        rec: "pickLoop H ov sz used P (N @ [i]) q1 = Some (P @ pk, (N @ [i]) @ np, q')"
        and "picks hinv elems ov sz used q1 pk np q'" by blast
      then have "picks hinv elems ov sz used q pk (i # np) q'"
        using e1 i same least True less.prems(3) by (intro picks_skip [of ov sz used q1]) simp_all
      with step rec show ?thesis by fastforce
    next
      case fits: False
      with False pop have step: "pickLoop H ov sz used P N q = pickLoop H ov sz (used + (?len + ov)) (P @ [i]) N q1"
        by (subst pickLoop.simps) simp
      have "used + (?len + ov) \<le> sz" using fits by simp
      from less.hyps [OF card wf1 this less.prems(3), of "P @ [i]" N] obtain pk np q' where
        rec: "pickLoop H ov sz (used + (?len + ov)) (P @ [i]) N q1 = Some ((P @ [i]) @ pk, N @ np, q')"
        and "picks hinv elems ov sz (used + (?len + ov)) q1 pk np q'" by blast
      then have "picks hinv elems ov sz used q (i # pk) np q'"
        using e1 i same least by (intro picks_take [of ov sz used i q1]) simp_all
      with step rec show ?thesis by fastforce
    qed
  qed
qed

text \<open>What comes out of a queue can go back into it, or into what is left of it.\<close>

lemma compatible_subset:
  assumes wf: "queue_wf hinv elems q" and d: "distinct is" and sub: "set is \<subseteq> elems (q_queue q)"
    and rest: "elems (q_queue q') \<subseteq> elems (q_queue q) - set is" and seq: "q_idSeq q' = q_idSeq q"
  shows "compatible elems is q'"
proof -
  have fits: "fits_in elems i q'" if "i \<in> set is" for i
  proof -
    have i: "i \<in> elems (q_queue q)" using that sub by blast
    have "t_id j \<noteq> t_id i \<and> (t_name i = [] \<or> t_name j \<noteq> t_name i)" if "j \<in> elems (q_queue q')" for j
    proof -
      have "j \<in> elems (q_queue q)" "j \<noteq> i" using that \<open>i \<in> set is\<close> rest by auto
      with i show ?thesis
        using wf_id_unique [OF wf, of j i] wf_other_name [OF wf, of i j] by blast
    qed
    with i wf seq show ?thesis by (auto simp: fits_in_def queue_wf_def)
  qed
  have "inj_on t_id (set is)" using wf_id_unique [OF wf] sub by (meson inj_onI subsetD)
  with d have ids: "distinct (map t_id is)" by (simp add: distinct_map)
  have names: "sorted_wrt (\<lambda>i j. t_name i = [] \<or> t_name j \<noteq> t_name i) is"
    using d sub
  proof (induction "is")
    case (Cons i "is")
    then show ?case using wf_other_name [OF wf, of i] by auto
  qed simp
  show ?thesis using fits ids names by (simp add: compatible_def)
qed

lemma GetMessages_spec:
  assumes wf: "queue_wf hinv elems q" and ov: "0 \<le> ov"
    and tlim: "tlim = transmitLimit F (q_TransmitScale q) n"
  shows "\<exists>pk q'. GetMessages F H n ov sz q = Some (map t_msg pk, q')
    \<and> queue_wf hinv elems q'
    \<and> distinct pk \<and> set pk \<subseteq> elems (q_queue q)
    \<and> (pk = [] \<or> spaceUsed ov pk \<le> sz)
    \<and> elems (q_queue q') =
        (elems (q_queue q) - set pk) \<union> bump ` {i \<in> set pk. t_transmits i + 1 < tlim}
    \<and> q_signals q' = q_signals q @ signalled tlim pk
    \<and> (ov < sz \<longrightarrow> (\<forall>j \<in> elems (q_queue q) - set pk.
         sz < spaceUsed ov pk + max 20 (int (length (t_msg j))) + ov))"
proof (cases "sz \<le> ov \<or> Len H q = 0")
  case True
  then have "GetMessages F H n ov sz q = Some ([], q)" by (simp add: GetMessages_def)
  moreover have "\<not> ov < sz \<or> elems (q_queue q) = {}"
    using True wf_finite [OF wf] by (auto simp: wf_Len [OF wf])
  ultimately show ?thesis
    using wf by (intro exI [of _ "[]"] exI [of _ q]) (auto simp: signalled_def)
next
  case False
  then have sz: "0 \<le> sz" using ov by linarith
  obtain pk np q1 where loop: "pickLoop H ov sz 0 [] [] q = Some (pk, np, q1)"
    and "picks hinv elems ov sz 0 q pk np q1"
    using pickLoop_spec [OF wf sz ov, of "[]" "[]"] by auto
  then have wf1: "queue_wf hinv elems q1"
    and d: "distinct pk" "distinct np" "set pk \<inter> set np = {}"
    and sub: "set pk \<subseteq> elems (q_queue q)" "set np \<subseteq> elems (q_queue q)"
    and e1: "elems (q_queue q1) = elems (q_queue q) - (set pk \<union> set np)"
    and same: "q_idSeq q1 = q_idSeq q" "q_signals q1 = q_signals q" "q_TransmitScale q1 = q_TransmitScale q"
    and space: "spaceUsed ov pk \<le> sz"
    and out: "\<forall>i \<in> set np. sz < spaceUsed ov pk + int (length (t_msg i)) + ov"
    and left: "elems (q_queue q1) = {} \<or> sz < spaceUsed ov pk + 20 + ov"
    unfolding picks_def by auto
  define q2 where "q2 = pushAll H np q1"
  have c1: "compatible elems np q1"
    by (rule compatible_subset [OF wf d(2) sub(2)]) (use e1 same in auto)
  from pushAll_spec [OF wf1 c1] have q2: "queue_wf hinv elems q2"
    "elems (q_queue q2) = elems (q_queue q1) \<union> set np" "q_idSeq q2 = q_idSeq q1"
    "q_TransmitScale q2 = q_TransmitScale q1" "q_signals q2 = q_signals q1"
    by (auto simp: q2_def)
  have e2: "elems (q_queue q2) = elems (q_queue q) - set pk"
    using q2(2) e1 d(3) sub(2) by blast
  have c2: "compatible elems pk q2"
    by (rule compatible_subset [OF wf d(1) sub(1)]) (use e2 q2 same in auto)
  obtain msgs q3 where res: "resend H tlim pk q2 = (msgs, q3)" by fastforce
  from resend_spec [OF q2(1) c2 res] have q3: "msgs = map t_msg pk" "queue_wf hinv elems q3"
    "elems (q_queue q3) = elems (q_queue q2) \<union> bump ` {i \<in> set pk. t_transmits i + 1 < tlim}"
    "q_signals q3 = q_signals q2 @ signalled tlim pk" by auto
  define q4 where "q4 = (if hlen H (q_queue q3) = 0 then q3\<lparr>q_idSeq := 0\<rparr> else q3)"
  have empty: "elems (q_queue q3) = {}" if "hlen H (q_queue q3) = 0"
    using that len [of "q_queue q3"] q3(2) wf_finite [OF q3(2)] by (auto simp: queue_wf_def)
  have q4: "queue_wf hinv elems q4" "q_queue q4 = q_queue q3" "q_signals q4 = q_signals q3"
    using q3(2) empty by (auto simp: q4_def queue_wf_def)
  have scale: "transmitLimit F (q_TransmitScale q2) n = tlim"
    using tlim q2(4) same(3) by simp
  have "GetMessages F H n ov sz q = Some (map t_msg pk, q4)"
    using False loop res q3(1) scale by (simp add: GetMessages_def Let_def q2_def q4_def)
  moreover have "\<forall>j \<in> elems (q_queue q) - set pk.
      sz < spaceUsed ov pk + max 20 (int (length (t_msg j))) + ov"
  proof
    fix j
    assume j: "j \<in> elems (q_queue q) - set pk"
    show "sz < spaceUsed ov pk + max 20 (int (length (t_msg j))) + ov"
    proof (cases "j \<in> set np")
      case True
      then show ?thesis using out by fastforce
    next
      case False
      then have "elems (q_queue q1) \<noteq> {}" using j e1 by blast
      then show ?thesis using left by linarith
    qed
  qed
  moreover have "elems (q_queue q4) =
      (elems (q_queue q) - set pk) \<union> bump ` {i \<in> set pk. t_transmits i + 1 < tlim}"
    using q4(2) q3(3) e2 by simp
  moreover have "q_signals q4 = q_signals q @ signalled tlim pk"
    using q4(3) q3(4) q2(5) same(2) by simp
  ultimately show ?thesis
    using q4(1) d(1) sub(1) space by blast
qed

lemma queue_wf_next_id:
  assumes "queue_wf hinv elems q" and "q_idSeq q \<noteq> - 1"
  shows "queue_wf hinv elems (q\<lparr>q_idSeq := q_idSeq q + 1\<rparr>)" and "q_idSeq q < q_idSeq q + 1"
proof -
  show lt: "q_idSeq q < q_idSeq q + 1"
    using assms(2) by (rule word_less_succ)
  show "queue_wf hinv elems (q\<lparr>q_idSeq := q_idSeq q + 1\<rparr>)"
    using assms(1) lt by (auto simp: queue_wf_def)
qed

lemma QueueMsg_spec:
  assumes wf: "queue_wf hinv elems q" and seq: "q_idSeq q \<noteq> - 1"
  shows "queue_wf hinv elems (QueueMsg C H name t msg notify q)"
    and "encode C t msg = Ok b \<Longrightarrow>
      elems (q_queue (QueueMsg C H name t msg notify q)) =
        insert \<lparr>t_name = name, t_id = q_idSeq q, t_transmits = 0, t_msg = b, t_notify = notify\<rparr>
          {j \<in> elems (q_queue q). name = '''' \<or> t_name j \<noteq> name}"
proof -
  note q' = queue_wf_next_id [OF wf seq]
  have fresh: "\<forall>j \<in> elems (q_queue q). t_id j \<noteq> q_idSeq q" using wf by (auto simp: queue_wf_def)
  have item: "t_id i = q_idSeq q \<Longrightarrow> queue_wf hinv elems (Push H i (q\<lparr>q_idSeq := q_idSeq q + 1\<rparr>))
      \<and> elems (q_queue (Push H i (q\<lparr>q_idSeq := q_idSeq q + 1\<rparr>)))
        = insert i {j \<in> elems (q_queue q). t_name i = '''' \<or> t_name j \<noteq> t_name i}" for i
    using Push_spec(1,2) [OF q'(1), of i] q'(2) fresh by simp
  show "queue_wf hinv elems (QueueMsg C H name t msg notify q)"
    using wf item by (cases "encode C t msg") (simp_all add: QueueMsg_def)
  assume "encode C t msg = Ok b"
  then show "elems (q_queue (QueueMsg C H name t msg notify q)) =
        insert \<lparr>t_name = name, t_id = q_idSeq q, t_transmits = 0, t_msg = b, t_notify = notify\<rparr>
          {j \<in> elems (q_queue q). name = '''' \<or> t_name j \<noteq> name}"
    using item by (simp add: QueueMsg_def)
qed

text \<open>Resizing to a size that is not negative drops items until the size is reached.\<close>

lemma Resize_spec:
  assumes "queue_wf hinv elems q" and "0 \<le> sz"
  shows "\<exists>q'. Resize H sz q = Some (Ok q') \<and> queue_wf hinv elems q'
    \<and> elems (q_queue q') \<subseteq> elems (q_queue q)
    \<and> int (card (elems (q_queue q'))) = min sz (int (card (elems (q_queue q))))"
  using assms
proof (induction "card (elems (q_queue q))" arbitrary: q rule: less_induct)
  case less
  show ?case
  proof (cases "Len H q > sz")
    case False
    then have "Resize H sz q = Some (Ok q)" by (subst Resize.simps) simp
    with False less.prems show ?thesis by (auto simp: wf_Len)
  next
    case True
    then have nonempty: "elems (q_queue q) \<noteq> {}"
      using less.prems by (auto simp: wf_Len)
    obtain i q1 where pop: "Pop H q = (Some i, q1)" and i: "i \<in> elems (q_queue q)"
      and e1: "elems (q_queue q1) = elems (q_queue q) - {i}" and wf1: "queue_wf hinv elems q1"
      by (rule Pop_some [OF less.prems(1) nonempty])
    have fin: "finite (elems (q_queue q))" by (rule wf_finite [OF less.prems(1)])
    have step: "Resize H sz q = Resize H sz (Finish i q1)"
      using True pop by (subst Resize.simps) simp
    have c: "card (elems (q_queue q)) = Suc (card (elems (q_queue (Finish i q1))))"
      using card_Suc_Diff1 [OF fin i] e1 by simp
    from less.hyps [of "Finish i q1"] c wf1 less.prems(2) obtain q' where
      "Resize H sz (Finish i q1) = Some (Ok q')" "queue_wf hinv elems q'"
      "elems (q_queue q') \<subseteq> elems (q_queue q1)"
      "int (card (elems (q_queue q'))) = min sz (int (card (elems (q_queue (Finish i q1)))))" by auto
    moreover have "sz \<le> int (card (elems (q_queue (Finish i q1))))"
      using True c by (simp add: wf_Len [OF less.prems(1)])
    ultimately show ?thesis using step e1 c by auto
  qed
qed

end

section \<open>A sorted list is a heap\<close>

text \<open>
  The reference heap: items in ascending order of \<open>Less\<close>. It satisfies the laws, so that they
  are consistent, and the operations over it evaluate.
\<close>

fun linsert :: "TransmitCapItem \<Rightarrow> TransmitCapItem list \<Rightarrow> TransmitCapItem list" where
  "linsert i [] = [i]"
| "linsert i (j # js) = (if Less i j then i # j # js else j # linsert i js)"

definition list_heap :: "TransmitCapItem list heap_ops" where
  "list_heap =
     \<lparr>hnew = [], hpush = linsert,
      hpop = (\<lambda>h. case h of [] \<Rightarrow> None | i # is \<Rightarrow> Some (i, is)),
      hremove = (\<lambda>k. filter (\<lambda>i. t_id i \<noteq> k)), hlen = length\<rparr>"

definition list_inv :: "TransmitCapItem list \<Rightarrow> bool" where
  "list_inv h \<longleftrightarrow> sorted_wrt (\<lambda>i j. \<not> Less j i) h \<and> distinct (map t_id h)"

lemma set_linsert [simp]: "set (linsert i js) = insert i (set js)"
  by (induction js) auto

lemma distinct_linsert:
  "distinct (map t_id js) \<Longrightarrow> t_id i \<notin> t_id ` set js \<Longrightarrow> distinct (map t_id (linsert i js))"
  by (induction js) auto

lemma sorted_linsert:
  "sorted_wrt (\<lambda>i j. \<not> Less j i) js \<Longrightarrow> sorted_wrt (\<lambda>i j. \<not> Less j i) (linsert i js)"
  by (induction js) (auto simp: Less_key)

interpretation lh: item_heap list_heap list_inv set
proof unfold_locales
  fix h :: "TransmitCapItem list" and i k h'
  assume inv: "list_inv h"
  show "inj_on t_id (set h)" using inv by (simp add: list_inv_def distinct_map)
  show "hlen list_heap h = card (set h)"
    using inv by (auto simp: list_inv_def list_heap_def distinct_map distinct_card)
  show "t_id i \<notin> t_id ` set h \<Longrightarrow>
    list_inv (hpush list_heap i h) \<and> set (hpush list_heap i h) = insert i (set h)"
    using inv by (simp add: list_inv_def list_heap_def sorted_linsert distinct_linsert)
  show "list_inv (hremove list_heap k h) \<and> set (hremove list_heap k h) = {i \<in> set h. t_id i \<noteq> k}"
    using inv by (auto simp: list_inv_def list_heap_def distinct_map inj_on_def sorted_wrt_filter)
  show "hpop list_heap h = None \<longleftrightarrow> set h = {}"
    by (cases h) (simp_all add: list_heap_def)
  show "hpop list_heap h = Some (i, h') \<Longrightarrow>
    i \<in> set h \<and> list_inv h' \<and> set h' = set h - {i} \<and> (\<forall>j \<in> set h. \<not> Less j i)"
    using inv by (cases h) (auto simp: list_heap_def list_inv_def)
qed (simp_all add: list_heap_def list_inv_def)

section \<open>Broadcasts of the memberlist\<close>

text \<open>
  A delegate that keeps to its limit: what it returns, with the overhead it was told, fits.
\<close>

definition delegate_ok :: "(int \<Rightarrow> int \<Rightarrow> bytes list) \<Rightarrow> bool" where
  "delegate_ok g \<longleftrightarrow> (\<forall>ov limit. 0 \<le> limit \<longrightarrow>
     sum_list (map (\<lambda>m. int (length m) + ov) (g ov limit)) \<le> limit)"

definition msgsSpace :: "int \<Rightarrow> bytes list \<Rightarrow> int" where
  "msgsSpace ov msgs = sum_list (map (\<lambda>m. int (length m) + ov) msgs)"

lemma msgsSpace_append [simp]: "msgsSpace ov (xs @ ys) = msgsSpace ov xs + msgsSpace ov ys"
  by (simp add: msgsSpace_def)

lemma msgsSpace_user: "msgsSpace ov (map (\<lambda>m. b # m) ms) = msgsSpace (ov + 1) ms"
  by (induction ms) (simp_all add: msgsSpace_def)

lemma spaceUsed_msgs: "spaceUsed ov is = msgsSpace ov (map t_msg is)"
  by (induction "is") (simp_all add: spaceUsed_def msgsSpace_def)

context item_heap
begin

lemma getBroadcasts_spec:
  assumes wf: "queue_wf hinv elems q" and ov: "0 \<le> ov"
    and del: "\<And>g. ub = Some g \<Longrightarrow> delegate_ok g"
  shows "\<exists>msgs q'. getBroadcasts F H ub n ov limit q = Some (msgs, q')
    \<and> queue_wf hinv elems q' \<and> (msgs = [] \<or> msgsSpace ov msgs \<le> limit)"
proof (cases "limit \<le> ov")
  case True
  with wf show ?thesis by (simp add: getBroadcasts_def)
next
  case False
  from GetMessages_spec [OF wf ov refl] obtain pk q' where
    get: "GetMessages F H n ov limit q = Some (map t_msg pk, q')" and wf': "queue_wf hinv elems q'"
    and space: "pk = [] \<or> spaceUsed ov pk \<le> limit" by blast
  have le: "msgsSpace ov (map t_msg pk) \<le> limit"
    using space False ov by (auto simp: spaceUsed_msgs msgsSpace_def)
  show ?thesis
  proof (cases ub)
    case None
    with get wf' le False show ?thesis by (simp add: getBroadcasts_def)
  next
    case (Some g)
    let ?rest = "limit - msgsSpace ov (map t_msg pk)"
    have "msgsSpace (ov + 1) (g (ov + 1) ?rest) \<le> ?rest"
      using del [OF Some] le by (simp add: delegate_ok_def msgsSpace_def)
    then have "msgsSpace ov (map t_msg pk @ map (\<lambda>m. tag userMsg # m) (g (ov + 1) ?rest)) \<le> limit"
      by (simp only: msgsSpace_append msgsSpace_user)
    moreover have "getBroadcasts F H ub n ov limit q =
        Some (map t_msg pk @ map (\<lambda>m. tag userMsg # m) (g (ov + 1) ?rest), q')"
      using False get Some by (simp add: getBroadcasts_def Let_def userMsgOverhead_def msgsSpace_def)
    ultimately show ?thesis using wf' by blast
  qed
qed

end

end
