(* ===== verification/Suspicion.thy ===== *)
theory Suspicion
  imports Scaling
begin

text \<open>
  \<^verbatim>\<open>src/suspicion.go\<close>: the timer of a suspected node. Each confirmation by another node shortens
  it from \<open>maxTimeout\<close> towards \<open>minTimeout\<close> on a logarithmic scale; \<open>confirmCap\<close> confirmations
  bring it down to \<open>minTimeout\<close>.

  The map \<open>confirmMap\<close> is only used as a set: a list of its keys. The timer is the time at which
  it fires, or \<open>None\<close> once it has fired or was stopped for good. Of the callback the model keeps
  what it captures: the suspected node's name and its number of lives (\<open>timeoutFn\<close> of
  \<open>suspectNode\<close>, \<^verbatim>\<open>src/state.go\<close>). The current time is an argument.
\<close>

record suspicion =
  su_minTimeout :: duration
  su_maxTimeout :: duration
  su_confirmCap :: int
  su_confirmMap :: "string list"
  su_start :: time
  su_timer :: "time option"
  su_fnID :: string
  su_fnLives :: u32

definition newSuspicion :: "time \<Rightarrow> duration \<Rightarrow> duration \<Rightarrow> int \<Rightarrow> string \<Rightarrow> string \<Rightarrow> u32 \<Rightarrow> suspicion" where
  "newSuspicion now minTimeout maxTimeout confirmCap from fnID fnLives =
     (let timeout = (if confirmCap \<le> 1 then minTimeout else maxTimeout)
      in \<lparr>su_minTimeout = minTimeout, su_maxTimeout = maxTimeout, su_confirmCap = confirmCap,
          su_confirmMap = [from], su_start = now, su_timer = Some (now + timeout),
          su_fnID = fnID, su_fnLives = fnLives\<rparr>)"

text \<open>\<open>Duration.Seconds\<close> of the standard library.\<close>

definition Seconds :: "flops \<Rightarrow> duration \<Rightarrow> real" where
  "Seconds F d =
     (let sec = go_quot d Second; nsec = d - Second * sec
      in fl F (fl F (of_int sec) + fl F (fl F (of_int nsec) / 1000000000)))"

definition remainingTime :: "flops \<Rightarrow> time \<Rightarrow> suspicion \<Rightarrow> duration" where
  "remainingTime F now s =
     (let elapsed = now - su_start s;
          confirms = int (length (su_confirmMap s))
      in if confirms \<ge> su_confirmCap s then wrap64 (su_minTimeout s - elapsed)
         else let f = fl F (f_Log F (fl F (of_int confirms)) / f_Log F (fl F (of_int (su_confirmCap s))));
                  maxMinDiff = fl F (Seconds F (su_maxTimeout s) - Seconds F (su_minTimeout s));
                  sec = fl F (Seconds F (su_maxTimeout s) - fl F (f * maxMinDiff));
                  timeout = wrap64 (go_trunc (of_int \<lfloor>fl F (1000 * sec)\<rfloor>) * Millisecond)
              in wrap64 (timeout - elapsed))"

text \<open>
  \<open>Confirm\<close> returns whether the confirmation is new, the updated suspicion, and whether the
  callback is started at once because no time remains.
\<close>

definition Confirm :: "flops \<Rightarrow> time \<Rightarrow> string \<Rightarrow> suspicion \<Rightarrow> bool \<times> suspicion \<times> bool" where
  "Confirm F now from s =
     (if int (length (su_confirmMap s)) \<ge> su_confirmCap s then (False, s, False)
      else if from \<in> set (su_confirmMap s) then (False, s, False)
      else let s1 = s\<lparr>su_confirmMap := su_confirmMap s @ [from]\<rparr>;
               remaining = remainingTime F now s1
           in case su_timer s1 of
                None \<Rightarrow> (True, s1, False)
              | Some _ \<Rightarrow>
                  if remaining > 0 then (True, s1\<lparr>su_timer := Some (now + remaining)\<rparr>, False)
                  else (True, s1\<lparr>su_timer := None\<rparr>, True))"

section \<open>Confirmations\<close>

definition suspicion_wf :: "suspicion \<Rightarrow> bool" where
  "suspicion_wf s \<longleftrightarrow>
     su_confirmMap s \<noteq> [] \<and> distinct (su_confirmMap s)
     \<and> int (length (su_confirmMap s)) \<le> max 1 (su_confirmCap s)"

lemma newSuspicion_wf: "suspicion_wf (newSuspicion now mn mx cap from i l)"
  by (simp add: suspicion_wf_def newSuspicion_def Let_def)

lemma Confirm_wf: "suspicion_wf s \<Longrightarrow> Confirm F now from s = (new, s', fire) \<Longrightarrow> suspicion_wf s'"
  by (auto simp: suspicion_wf_def Confirm_def Let_def split: if_splits option.splits)

lemma Confirm_new_iff:
  "fst (Confirm F now from s) \<longleftrightarrow>
     int (length (su_confirmMap s)) < su_confirmCap s \<and> from \<notin> set (su_confirmMap s)"
  by (auto simp: Confirm_def Let_def split: option.splits)

lemma Confirm_frame:
  assumes "Confirm F now from s = (new, s', fire)"
  shows "su_minTimeout s' = su_minTimeout s" "su_maxTimeout s' = su_maxTimeout s"
    "su_confirmCap s' = su_confirmCap s" "su_start s' = su_start s"
    "su_fnID s' = su_fnID s" "su_fnLives s' = su_fnLives s"
    "su_confirmMap s' = (if new then su_confirmMap s @ [from] else su_confirmMap s)"
    "\<not> new \<Longrightarrow> s' = s \<and> \<not> fire"
  using assms by (auto simp: Confirm_def Let_def split: if_splits option.splits)

section \<open>The deadline\<close>

text \<open>The time from the start of the suspicion after which \<open>k\<close> confirmations make it fire.\<close>

definition timeoutFor :: "flops \<Rightarrow> suspicion \<Rightarrow> int \<Rightarrow> duration" where
  "timeoutFor F s k =
     (if k \<ge> su_confirmCap s then su_minTimeout s
      else let f = fl F (f_Log F (fl F (of_int k)) / f_Log F (fl F (of_int (su_confirmCap s))));
               maxMinDiff = fl F (Seconds F (su_maxTimeout s) - Seconds F (su_minTimeout s));
               sec = fl F (Seconds F (su_maxTimeout s) - fl F (f * maxMinDiff))
           in wrap64 (\<lfloor>fl F (1000 * sec)\<rfloor> * Millisecond))"

lemma remainingTime_timeoutFor:
  "remainingTime F now s =
     wrap64 (timeoutFor F s (int (length (su_confirmMap s))) - (now - su_start s))"
  by (simp add: remainingTime_def timeoutFor_def Let_def)

text \<open>
  While the arithmetic stays in range, a confirmation that counts either moves the timer to the
  deadline of the new number of confirmations or, when that has passed, starts the callback.
\<close>

lemma Confirm_deadline:
  assumes conf: "Confirm F now from s = (True, s', fire)" and armed: "su_timer s \<noteq> None"
    and range: "\<bar>timeoutFor F s (int (length (su_confirmMap s)) + 1) - (now - su_start s)\<bar> < 2 ^ 63"
  shows "if now < su_start s + timeoutFor F s (int (length (su_confirmMap s)) + 1)
    then su_timer s' = Some (su_start s + timeoutFor F s (int (length (su_confirmMap s)) + 1)) \<and> \<not> fire
    else su_timer s' = None \<and> fire"
proof -
  let ?s1 = "s\<lparr>su_confirmMap := su_confirmMap s @ [from]\<rparr>"
  let ?T = "timeoutFor F s (int (length (su_confirmMap s)) + 1)"
  have "timeoutFor F ?s1 (int (length (su_confirmMap ?s1))) = ?T"
    by (simp add: timeoutFor_def add.commute)
  then have "remainingTime F now ?s1 = wrap64 (?T - (now - su_start s))"
    unfolding remainingTime_timeoutFor by simp
  also have "\<dots> = ?T - (now - su_start s)"
    by (rule wrap64_id) (use range in linarith)+
  finally have rem: "remainingTime F now ?s1 = ?T - (now - su_start s)" .
  from armed obtain d where "su_timer s = Some d" by blast
  with conf rem show ?thesis
    by (auto simp: Confirm_def Let_def split: if_splits)
qed

context float64
begin

lemma Log_ratio_mono:
  assumes "1 \<le> k" and "k \<le> k'" and "k' < cap" and "cap \<le> 2 ^ 53"
  shows "fl F (f_Log F (fl F (of_int k)) / f_Log F (fl F (of_int cap)))
    \<le> fl F (f_Log F (fl F (of_int k')) / f_Log F (fl F (of_int cap)))"
proof -
  have ids: "fl F (of_int k) = of_int k" "fl F (of_int k') = of_int k'" "fl F (of_int cap) = of_int cap"
    using assms by (auto intro!: fl_int)
  have "f_Log F (of_int k) \<le> f_Log F (of_int k')" using assms by (intro Log_mono) simp_all
  moreover have "0 < f_Log F (of_int cap)" using assms by (intro Log_pos) simp
  ultimately show ?thesis unfolding ids by (intro fl_mono divide_right_mono) simp_all
qed

text \<open>More confirmations never make the suspicion last longer.\<close>

lemma timeoutFor_antimono:
  assumes k: "1 \<le> k" "k \<le> k'" "k' < su_confirmCap s" and cap: "su_confirmCap s \<le> 2 ^ 53"
    and diff: "Seconds F (su_minTimeout s) \<le> Seconds F (su_maxTimeout s)"
    and small: "\<forall>j \<in> {k, k'}. \<bar>\<lfloor>fl F (1000 * fl F (Seconds F (su_maxTimeout s)
        - fl F (fl F (f_Log F (fl F (of_int j)) / f_Log F (fl F (of_int (su_confirmCap s))))
            * fl F (Seconds F (su_maxTimeout s) - Seconds F (su_minTimeout s)))))\<rfloor> * Millisecond\<bar> < 2 ^ 63"
  shows "timeoutFor F s k' \<le> timeoutFor F s k"
proof -
  let ?f = "\<lambda>j. fl F (f_Log F (fl F (of_int j)) / f_Log F (fl F (of_int (su_confirmCap s))))"
  let ?d = "fl F (Seconds F (su_maxTimeout s) - Seconds F (su_minTimeout s))"
  let ?sec = "\<lambda>j. fl F (Seconds F (su_maxTimeout s) - fl F (?f j * ?d))"
  have "fl F 0 \<le> ?d" using diff by (intro fl_mono) simp
  then have d: "0 \<le> ?d" by simp
  have "?f k \<le> ?f k'" using k cap by (intro Log_ratio_mono) simp_all
  from mult_right_mono [OF this d] have "fl F (?f k * ?d) \<le> fl F (?f k' * ?d)"
    by (rule fl_mono)
  then have "?sec k' \<le> ?sec k" by (intro fl_mono) simp
  then have "fl F (1000 * ?sec k') \<le> fl F (1000 * ?sec k)" by (intro fl_mono) simp
  then have fl: "\<lfloor>fl F (1000 * ?sec k')\<rfloor> * Millisecond \<le> \<lfloor>fl F (1000 * ?sec k)\<rfloor> * Millisecond"
    by (intro mult_right_mono floor_mono) (simp_all add: Millisecond_def)
  have w: "timeoutFor F s j = \<lfloor>fl F (1000 * ?sec j)\<rfloor> * Millisecond" if "j \<in> {k, k'}" for j
  proof -
    have "\<not> j \<ge> su_confirmCap s" using that k by auto
    moreover have "\<bar>\<lfloor>fl F (1000 * ?sec j)\<rfloor> * Millisecond\<bar> < 2 ^ 63" using small that by blast
    then have "wrap64 (\<lfloor>fl F (1000 * ?sec j)\<rfloor> * Millisecond) = \<lfloor>fl F (1000 * ?sec j)\<rfloor> * Millisecond"
      by (intro wrap64_id) linarith+
    ultimately show ?thesis by (simp add: timeoutFor_def Let_def)
  qed
  show ?thesis using fl w [of k] w [of k'] by simp
qed

end

text \<open>In exact arithmetic the timeout lies between the two bounds, up to the final rounding down to
  whole milliseconds.\<close>

lemma Seconds_exact: "Seconds exact_flops d = of_int d / 1000000000"
  by (simp add: Seconds_def exact_flops_def Second_def Millisecond_def Let_def field_simps)

lemma timeoutFor_exact_bounds:
  assumes k: "1 \<le> k" and mn: "0 \<le> su_minTimeout s" and le: "su_minTimeout s \<le> su_maxTimeout s"
    and mx: "su_maxTimeout s < 2 ^ 63"
  shows "su_minTimeout s - Millisecond < timeoutFor exact_flops s k"
    and "timeoutFor exact_flops s k \<le> su_maxTimeout s"
proof -
  let ?mn = "real_of_int (su_minTimeout s)" and ?mx = "real_of_int (su_maxTimeout s)"
  let ?f = "ln (real_of_int k) / ln (real_of_int (su_confirmCap s))"
  let ?sec = "?mx / 1000000000 - ?f * (?mx / 1000000000 - ?mn / 1000000000)"
  have "su_minTimeout s - Millisecond < timeoutFor exact_flops s k
    \<and> timeoutFor exact_flops s k \<le> su_maxTimeout s"
  proof (cases "k \<ge> su_confirmCap s")
    case True
    with le show ?thesis by (simp add: timeoutFor_def Millisecond_def)
  next
    case False
    then have f: "0 \<le> ?f" "?f \<le> 1" using k by (simp_all add: divide_le_eq_1)
    have d: "0 \<le> ?mx / 1000000000 - ?mn / 1000000000" using le by simp
    from mult_nonneg_nonneg [OF f(1) d] mult_left_le_one_le [OF d f]
    have b: "?mn / 1000000000 \<le> ?sec" "?sec \<le> ?mx / 1000000000" by linarith+
    define k' where "k' = \<lfloor>1000 * ?sec\<rfloor>"
    have k': "real_of_int k' \<le> 1000 * ?sec" "1000 * ?sec < real_of_int k' + 1"
      unfolding k'_def by linarith+
    have "real_of_int (k' * 1000000) \<le> ?mx" using k'(1) b(2) by simp
    then have up: "k' * 1000000 \<le> su_maxTimeout s" by linarith
    have "?mn < real_of_int (k' * 1000000 + 1000000)" using k'(2) b(1) by simp
    then have lo: "su_minTimeout s < k' * 1000000 + 1000000" by linarith
    have "timeoutFor exact_flops s k = wrap64 (k' * 1000000)"
      using False by (simp add: timeoutFor_def Let_def Seconds_exact k'_def Millisecond_def)
        (simp add: exact_flops_def)
    moreover have "wrap64 (k' * 1000000) = k' * 1000000"
      by (rule wrap64_id) (use up lo mn mx in simp_all)
    ultimately show ?thesis using up lo by (simp add: Millisecond_def)
  qed
  then show "su_minTimeout s - Millisecond < timeoutFor exact_flops s k"
    and "timeoutFor exact_flops s k \<le> su_maxTimeout s" by simp_all
qed

end
