(* ===== verification/Codec.thy ===== *)
theory Codec
  imports Wire
begin

text \<open>
  What the library relies on of the msgpack codec: a decoder reads back the struct an encoder wrote
  and stops right after it (\<open>codec_laws\<close>). The second half is a reference codec that satisfies the
  laws: the fields in order, numbers big-endian, byte strings as a list of marked bytes.
\<close>

section \<open>The laws of the codec\<close>

lemma encode_Ok: "encode C t p = Ok m \<longleftrightarrow> (\<exists>b. enc C p = Some b \<and> m = tag t # b)"
  by (auto simp: encode_def split: option.splits)

locale codec_laws =
  fixes C :: codec
  assumes alive: "enc C (P_alive a) = Some b \<Longrightarrow> dec_alive C (b @ rest) = Some (a, rest)"
    and suspect: "enc C (P_suspect s) = Some b \<Longrightarrow> dec_suspect C (b @ rest) = Some (s, rest)"
    and dead: "enc C (P_dead d) = Some b \<Longrightarrow> dec_dead C (b @ rest) = Some (d, rest)"
    and ping: "enc C (P_ping p) = Some b \<Longrightarrow> dec_ping C (b @ rest) = Some (p, rest)"
    and ack: "enc C (P_ack k) = Some b \<Longrightarrow> dec_ack C (b @ rest) = Some (k, rest)"
    and indirectPing: "enc C (P_indirectPing ip) = Some b \<Longrightarrow> dec_indirectPing C (b @ rest) = Some (ip, rest)"
    and indirectAck: "enc C (P_indirectAck ia) = Some b \<Longrightarrow> dec_indirectAck C (b @ rest) = Some (ia, rest)"
    and state: "enc C (P_state st) = Some b \<Longrightarrow> dec_state C (b @ rest) = Some (st, rest)"
    and header: "enc C (P_header h) = Some b \<Longrightarrow> dec_header C (b @ rest) = Some (h, rest)"
    and compressed: "enc C (P_compressed z) = Some b \<Longrightarrow> dec_compressed C (b @ rest) = Some (z, rest)"
    and errResp: "enc C (P_errResp e) = Some b \<Longrightarrow> dec_errResp C (b @ rest) = Some (e, rest)"
begin

lemma decode_alive: "encode C t (P_alive a) = Ok m \<Longrightarrow> decode (dec_alive C) (tl m) = Ok a"
  and decode_suspect: "encode C t (P_suspect s) = Ok m \<Longrightarrow> decode (dec_suspect C) (tl m) = Ok s"
  and decode_dead: "encode C t (P_dead d) = Ok m \<Longrightarrow> decode (dec_dead C) (tl m) = Ok d"
  and decode_ping: "encode C t (P_ping p) = Ok m \<Longrightarrow> decode (dec_ping C) (tl m) = Ok p"
  and decode_ack: "encode C t (P_ack k) = Ok m \<Longrightarrow> decode (dec_ack C) (tl m) = Ok k"
  and decode_indirectPing: "encode C t (P_indirectPing ip) = Ok m \<Longrightarrow> decode (dec_indirectPing C) (tl m) = Ok ip"
  and decode_indirectAck: "encode C t (P_indirectAck ia) = Ok m \<Longrightarrow> decode (dec_indirectAck C) (tl m) = Ok ia"
  and decode_compressed: "encode C t (P_compressed z) = Ok m \<Longrightarrow> decode (dec_compressed C) (tl m) = Ok z"
  by (auto simp: encode_Ok decode_def
      dest!: alive [where rest = "[]"] suspect [where rest = "[]"] dead [where rest = "[]"] ping [where rest = "[]"]
        ack [where rest = "[]"] indirectPing [where rest = "[]"] indirectAck [where rest = "[]"] compressed [where rest = "[]"])

end

section \<open>A reference codec\<close>

type_synonym 'a reader = "bytes \<Rightarrow> ('a \<times> bytes) option"

definition rbind :: "'a reader \<Rightarrow> ('a \<Rightarrow> 'b reader) \<Rightarrow> 'b reader" where
  "rbind f g bs = (case f bs of None \<Rightarrow> None | Some (x, rest) \<Rightarrow> g x rest)"

definition rreturn :: "'a \<Rightarrow> 'a reader" where
  "rreturn x bs = Some (x, bs)"

fun r16 :: "u16 reader" where
  "r16 (b0 # b1 # bs) = Some (rd16 b0 b1, bs)"
| "r16 _ = None"

fun r32 :: "u32 reader" where
  "r32 (b0 # b1 # b2 # b3 # bs) = Some (rd32 b0 b1 b2 b3, bs)"
| "r32 _ = None"

primrec wBytes :: "bytes \<Rightarrow> bytes" where
  "wBytes [] = [0]"
| "wBytes (x # xs) = 1 # x # wBytes xs"

fun rBytes :: "bytes reader" where
  "rBytes (m # bs) =
     (if m = 0 then Some ([], bs)
      else case bs of [] \<Rightarrow> None | x # bs' \<Rightarrow> map_option (\<lambda>(xs, rest). (x # xs, rest)) (rBytes bs'))"
| "rBytes [] = None"

definition charByte :: "char \<Rightarrow> byte" where
  "charByte c = of_nat (of_char c)"

definition byteChar :: "byte \<Rightarrow> char" where
  "byteChar b = char_of (unat b)"

definition rString :: "string reader" where
  "rString = rbind rBytes (\<lambda>b. rreturn (map byteChar b))"

definition wBool :: "bool \<Rightarrow> bytes" where
  "wBool b = [if b then 1 else 0]"

fun rBool :: "bool reader" where
  "rBool (b # bs) = Some (b = 1, bs)"
| "rBool [] = None"

definition wInt :: "int \<Rightarrow> bytes" where
  "wInt i = wBool (i < 0) @ wBytes (replicate (nat \<bar>i\<bar>) 0)"

definition rInt :: "int reader" where
  "rInt = rbind rBool (\<lambda>s. rbind rBytes (\<lambda>b. rreturn (if s then - int (length b) else int (length b))))"

fun stateNo :: "StateType \<Rightarrow> int option" where
  "stateNo StateAlive = Some 0" | "stateNo StateSuspect = Some 1" | "stateNo StateDead = Some 2"
| "stateNo StateLeft = Some 3" | "stateNo (StateOther n) = (if n \<in> {0, 1, 2, 3} then None else Some n)"

definition noState :: "int \<Rightarrow> StateType" where
  "noState n = (if n = 0 then StateAlive else if n = 1 then StateSuspect else if n = 2 then StateDead
     else if n = 3 then StateLeft else StateOther n)"

lemma charByte_inverse [simp]: "byteChar (charByte c) = c"
proof -
  have "(of_char c :: nat) < 256" by (rule nat_of_char_less_256)
  then have "unat (of_nat (of_char c) :: byte) = of_char c" by (intro unat_of_nat_small) simp
  then show ?thesis by (simp add: charByte_def byteChar_def)
qed

lemma r_simps [simp]:
  "rbind (rreturn x) g = g x" "rreturn x bs = Some (x, bs)"
  "r16 (be16 v @ bs) = Some (v, bs)" "r32 (be32 w @ bs) = Some (w, bs)"
  "rBool (wBool b @ bs) = Some (b, bs)"
  by (auto simp: rbind_def rreturn_def be16_def rd16_be16 be32_def rd32_be32 wBool_def fun_eq_iff)

lemma rBytes_wBytes [simp]: "rBytes (wBytes xs @ bs) = Some (xs, bs)"
  by (induction xs) simp_all

lemma rString_wString [simp]: "rString (wBytes (map charByte s) @ bs) = Some (s, bs)"
  by (simp add: rString_def rbind_def comp_def)

lemma rInt_wInt [simp]: "rInt (wInt i @ bs) = Some (i, bs)"
  by (simp add: rInt_def wInt_def rbind_def)

lemma noState_stateNo: "stateNo s = Some n \<Longrightarrow> noState n = s"
  by (cases s) (auto simp: noState_def split: if_splits)

abbreviation "wString s \<equiv> wBytes (map charByte s)"

fun ref_enc :: "payload \<Rightarrow> bytes option" where
  "ref_enc (P_alive a) = Some (be32 (a_Lives a) @ wString (a_ID a) @ wBytes (a_IP a) @ be16 (a_Port a) @ wBytes (a_Tags a))"
| "ref_enc (P_suspect s) = Some (be32 (s_Lives s) @ wString (s_ID s) @ wString (s_From s))"
| "ref_enc (P_dead d) = Some (be32 (d_Lives d) @ wString (d_ID d) @ wBool (d_Left d))"
| "ref_enc (P_ping p) = Some (be32 (p_SeqNo p) @ wString (p_ID p) @ wBytes (p_SourceIP p) @ be16 (p_SourcePort p))"
| "ref_enc (P_ack k) = Some (be32 (k_SeqNo k) @ wBytes (k_Payload k))"
| "ref_enc (P_indirectPing i) = Some (be32 (i_SeqNo i) @ wString (i_ID i) @ wBytes (i_IP i) @ be16 (i_Port i)
     @ wBytes (i_SourceIP i) @ be16 (i_SourcePort i))"
| "ref_enc (P_indirectAck i) = Some (be32 (ia_SeqNo i) @ wBool (ia_Success i))"
| "ref_enc (P_state r) = map_option (\<lambda>n. be32 (r_Lives r) @ wString (r_ID r) @ wBytes (r_IP r) @ be16 (r_Port r)
     @ wBytes (r_Tags r) @ wInt n) (stateNo (r_State r))"
| "ref_enc (P_header h) = Some (wInt (h_Nodes h) @ wInt (h_UserStateLen h))"
| "ref_enc (P_compressed z) = Some (wBytes [z_Algo z] @ wBytes (z_Buf z))"
| "ref_enc (P_errResp e) = Some (wString (e_Error e))"

definition ref_codec :: codec where
  "ref_codec = \<lparr>enc = ref_enc,
     dec_alive = rbind r32 (\<lambda>l. rbind rString (\<lambda>i. rbind rBytes (\<lambda>ip. rbind r16 (\<lambda>p. rbind rBytes (\<lambda>t.
       rreturn \<lparr>a_Lives = l, a_ID = i, a_IP = ip, a_Port = p, a_Tags = t\<rparr>))))),
     dec_suspect = rbind r32 (\<lambda>l. rbind rString (\<lambda>i. rbind rString (\<lambda>f.
       rreturn \<lparr>s_Lives = l, s_ID = i, s_From = f\<rparr>))),
     dec_dead = rbind r32 (\<lambda>l. rbind rString (\<lambda>i. rbind rBool (\<lambda>b.
       rreturn \<lparr>d_Lives = l, d_ID = i, d_Left = b\<rparr>))),
     dec_ping = rbind r32 (\<lambda>n. rbind rString (\<lambda>i. rbind rBytes (\<lambda>ip. rbind r16 (\<lambda>p.
       rreturn \<lparr>p_SeqNo = n, p_ID = i, p_SourceIP = ip, p_SourcePort = p\<rparr>)))),
     dec_ack = rbind r32 (\<lambda>n. rbind rBytes (\<lambda>b. rreturn \<lparr>k_SeqNo = n, k_Payload = b\<rparr>)),
     dec_indirectPing = rbind r32 (\<lambda>n. rbind rString (\<lambda>i. rbind rBytes (\<lambda>ip. rbind r16 (\<lambda>p.
       rbind rBytes (\<lambda>sip. rbind r16 (\<lambda>sp. rreturn \<lparr>i_SeqNo = n, i_ID = i, i_IP = ip, i_Port = p,
         i_SourceIP = sip, i_SourcePort = sp\<rparr>)))))),
     dec_indirectAck = rbind r32 (\<lambda>n. rbind rBool (\<lambda>b. rreturn \<lparr>ia_SeqNo = n, ia_Success = b\<rparr>)),
     dec_state = rbind r32 (\<lambda>l. rbind rString (\<lambda>i. rbind rBytes (\<lambda>ip. rbind r16 (\<lambda>p. rbind rBytes (\<lambda>t.
       rbind rInt (\<lambda>n. rreturn \<lparr>r_Lives = l, r_ID = i, r_IP = ip, r_Port = p, r_Tags = t,
         r_State = noState n\<rparr>)))))),
     dec_header = rbind rInt (\<lambda>n. rbind rInt (\<lambda>u. rreturn \<lparr>h_Nodes = n, h_UserStateLen = u\<rparr>)),
     dec_compressed = rbind rBytes (\<lambda>a. rbind rBytes (\<lambda>b. rreturn \<lparr>z_Algo = hd a, z_Buf = b\<rparr>)),
     dec_errResp = rbind rString (\<lambda>e. rreturn \<lparr>e_Error = e\<rparr>)\<rparr>"

lemma rbind_step: "f bs = Some (x, rest) \<Longrightarrow> rbind f g bs = g x rest"
  by (simp add: rbind_def)

interpretation rc: codec_laws ref_codec
  by unfold_locales
     (auto simp: ref_codec_def rbind_step noState_stateNo simp del: wBytes.simps split: option.splits)

end
