(* ===== verification/Keyring.thy ===== *)
theory Keyring
  imports Prelude
begin

text \<open>
  \<^verbatim>\<open>src/keyring.go\<close>: the encryption keys. The primary key encrypts; every key can decrypt. A
  primary key of \<open>None\<close> is the nil slice. An operation returns the new keyring; on an error the
  keyring is unchanged. Slices are values here, except in \<open>RemoveKey\<close>, whose loop runs over the
  slice whose backing array it shifts.
\<close>

record Keyring =
  primaryKey :: "bytes option"
  keys :: "bytes list"

text \<open>\<open>bytes.Equal\<close> does not tell nil from the empty slice.\<close>

definition sliceOf :: "bytes option \<Rightarrow> bytes" where
  "sliceOf k = (case k of None \<Rightarrow> [] | Some b \<Rightarrow> b)"

definition ValidateKey :: "bytes \<Rightarrow> unit outcome" where
  "ValidateKey key =
     (let l = length key in if l \<noteq> 16 \<and> l \<noteq> 24 \<and> l \<noteq> 32 then Err ErrKeySize else Ok ())"

definition AddKey :: "bytes \<Rightarrow> Keyring \<Rightarrow> Keyring outcome" where
  "AddKey key r =
     bind_outcome (ValidateKey key) (\<lambda>_.
       if list_ex (\<lambda>k. key = k) (keys r) then Ok r else Ok (r\<lparr>keys := keys r @ [key]\<rparr>))"

definition UseKey :: "bytes \<Rightarrow> Keyring \<Rightarrow> Keyring outcome" where
  "UseKey key r =
     (if list_ex (\<lambda>k. key = k) (keys r) then Ok (r\<lparr>primaryKey := Some key\<rparr>)
      else Err (ErrKeyNotInKeyring key))"

fun addKeys :: "bytes list \<Rightarrow> Keyring \<Rightarrow> Keyring outcome" where
  "addKeys [] r = Ok r"
| "addKeys (k # ks) r = bind_outcome (AddKey k r) (addKeys ks)"

definition NewKeyring :: "bytes list \<Rightarrow> bytes option \<Rightarrow> Keyring outcome" where
  "NewKeyring ks primary =
     (let r = \<lparr>primaryKey = None, keys = []\<rparr> in
      bind_outcome
        (case primary of
           None \<Rightarrow> Ok r
         | Some p \<Rightarrow> bind_outcome (AddKey p r) (UseKey p))
        (addKeys ks))"

text \<open>
  The loop of \<open>RemoveKey\<close> ranges over the slice as it was at the start (\<open>n\<close> elements of the
  array \<open>arr\<close>), while \<open>append(r.keys[:i], r.keys[i+1:]...)\<close> moves the tail of the current
  slice (\<open>len\<close> elements) down in that same array. Slicing from \<open>i + 1\<close> beyond the current
  length panics.
\<close>

function removeLoop :: "bytes \<Rightarrow> nat \<Rightarrow> nat \<Rightarrow> bytes list \<Rightarrow> nat \<Rightarrow> bool
    \<Rightarrow> (bytes list \<times> nat \<times> bool) outcome" where
  "removeLoop key n i arr len exist =
     (if i < n then
        if key = arr ! i then
          if i + 1 \<le> len then
            removeLoop key n (i + 1)
              (take i arr @ take (len - (i + 1)) (drop (i + 1) arr) @ drop (len - 1) arr) (len - 1) True
          else Panic IndexOutOfRange
        else removeLoop key n (i + 1) arr len exist
      else Ok (arr, len, exist))"
  by pat_completeness auto
termination
  by (relation "measure (\<lambda>(key, n, i, arr, len, exist). n - i)") auto

declare removeLoop.simps [simp del]

definition RemoveKey :: "bytes \<Rightarrow> Keyring \<Rightarrow> Keyring outcome" where
  "RemoveKey key r =
     (if key = sliceOf (primaryKey r) then Err ErrRemovePrimary
      else bind_outcome (removeLoop key (length (keys r)) 0 (keys r) (length (keys r)) False)
        (\<lambda>(arr, len, exist).
           if exist then Ok (r\<lparr>keys := take len arr\<rparr>) else Err (ErrKeyNotInKeyring key)))"

definition GetKeys :: "Keyring \<Rightarrow> bytes list" where
  "GetKeys r =
     (case primaryKey r of
        None \<Rightarrow> []
      | Some p \<Rightarrow> p # filter (\<lambda>k. k \<noteq> p) (keys r))"

definition GetPrimaryKey :: "Keyring \<Rightarrow> bytes" where
  "GetPrimaryKey r = sliceOf (primaryKey r)"

text \<open>\<open>EncryptionEnabled\<close> of \<^verbatim>\<open>src/encrypt.go\<close>: the memberlist has a keyring that hands out a key.\<close>

definition EncryptionEnabled :: "Keyring option \<Rightarrow> bool" where
  "EncryptionEnabled kr = (case kr of None \<Rightarrow> False | Some r \<Rightarrow> length (GetKeys r) > 0)"

section \<open>The keyring invariant\<close>

definition valid_size :: "bytes \<Rightarrow> bool" where
  "valid_size k \<longleftrightarrow> length k \<in> {16, 24, 32}"

definition keyring_wf :: "Keyring \<Rightarrow> bool" where
  "keyring_wf r \<longleftrightarrow>
     distinct (keys r) \<and> (\<forall>k \<in> set (keys r). valid_size k)
     \<and> (case primaryKey r of None \<Rightarrow> True | Some p \<Rightarrow> p \<in> set (keys r))"

lemma ValidateKey_iff: "ValidateKey key = (if valid_size key then Ok () else Err ErrKeySize)"
  by (auto simp: ValidateKey_def valid_size_def Let_def)

lemma list_ex_mem: "list_ex (\<lambda>k. key = k) ks \<longleftrightarrow> key \<in> set ks"
  by (auto simp: list_ex_iff)

lemma AddKey_eq:
  "AddKey key r =
     (if \<not> valid_size key then Err ErrKeySize
      else if key \<in> set (keys r) then Ok r else Ok (r\<lparr>keys := keys r @ [key]\<rparr>))"
  by (simp add: AddKey_def ValidateKey_iff list_ex_mem)

lemma UseKey_eq:
  "UseKey key r = (if key \<in> set (keys r) then Ok (r\<lparr>primaryKey := Some key\<rparr>)
                   else Err (ErrKeyNotInKeyring key))"
  by (simp add: UseKey_def list_ex_mem)

lemma AddKey_wf: "keyring_wf r \<Longrightarrow> AddKey key r = Ok r' \<Longrightarrow> keyring_wf r'"
  by (auto simp: AddKey_eq keyring_wf_def split: if_splits option.splits)

lemma UseKey_wf: "keyring_wf r \<Longrightarrow> UseKey key r = Ok r' \<Longrightarrow> keyring_wf r'"
  by (auto simp: UseKey_eq keyring_wf_def split: if_splits)

lemma addKeys_wf: "keyring_wf r \<Longrightarrow> addKeys ks r = Ok r' \<Longrightarrow> keyring_wf r'"
  by (induction ks arbitrary: r) (auto simp: bind_outcome_eq_Ok dest: AddKey_wf)

lemma NewKeyring_wf: "NewKeyring ks primary = Ok r \<Longrightarrow> keyring_wf r"
proof -
  have init: "keyring_wf \<lparr>primaryKey = None, keys = []\<rparr>" by (simp add: keyring_wf_def)
  assume new: "NewKeyring ks primary = Ok r"
  show ?thesis
  proof (cases primary)
    case None
    with new init show ?thesis by (auto simp: NewKeyring_def intro: addKeys_wf)
  next
    case (Some p)
    with new obtain r1 r2 where "AddKey p \<lparr>primaryKey = None, keys = []\<rparr> = Ok r1"
      "UseKey p r1 = Ok r2" "addKeys ks r2 = Ok r"
      by (auto simp: NewKeyring_def bind_outcome_eq_Ok)
    with init show ?thesis by (meson AddKey_wf UseKey_wf addKeys_wf)
  qed
qed

section \<open>Removing a key\<close>

lemma removeLoop_absent:
  "(\<forall>j. i \<le> j \<and> j < n \<longrightarrow> arr ! j \<noteq> key) \<Longrightarrow> removeLoop key n i arr len exist = Ok (arr, len, exist)"
  by (induction key n i arr len exist rule: removeLoop.induct)
     (subst removeLoop.simps, auto)

lemma removeLoop_skip:
  "i \<le> k \<Longrightarrow> k \<le> n \<Longrightarrow> (\<forall>j. i \<le> j \<and> j < k \<longrightarrow> arr ! j \<noteq> key) \<Longrightarrow>
   removeLoop key n i arr len exist = removeLoop key n k arr len exist"
proof (induction "k - i" arbitrary: i)
  case (Suc d)
  then have "i < n" "arr ! i \<noteq> key" by auto
  then have "removeLoop key n i arr len exist = removeLoop key n (i + 1) arr len exist"
    by (subst removeLoop.simps) simp
  also have "\<dots> = removeLoop key n k arr len exist"
    by (rule Suc.hyps(1)) (use Suc.hyps(2) Suc.prems in auto)
  finally show ?case .
qed simp

text \<open>With no duplicates, removing at the first occurrence leaves no second one for the loop to
  find in the shifted array.\<close>

lemma removeLoop_distinct:
  assumes d: "distinct xs" and i: "i < length xs" "xs ! i = key"
  shows "removeLoop key (length xs) 0 xs (length xs) False =
    Ok (take i xs @ drop (i + 1) xs @ drop (length xs - 1) xs, length xs - 1, True)"
proof -
  let ?n = "length xs"
  let ?ys = "take i xs @ drop (i + 1) xs @ drop (?n - 1) xs"
  have "\<forall>j. j < i \<longrightarrow> xs ! j \<noteq> key"
    using d i by (metis less_trans nth_eq_iff_index_eq nat_neq_iff)
  then have "removeLoop key ?n 0 xs ?n False = removeLoop key ?n i xs ?n False"
    using i by (intro removeLoop_skip) auto
  also have "\<dots> = removeLoop key ?n (i + 1) ?ys (?n - 1) True"
    using i by (subst removeLoop.simps) simp
  also have "\<dots> = Ok (?ys, ?n - 1, True)"
  proof (rule removeLoop_absent, intro allI impI)
    fix j
    assume j: "i + 1 \<le> j \<and> j < ?n"
    define k where "k = (if j + 1 < ?n then j + 1 else ?n - 1)"
    have "?ys ! j = xs ! k" using j i by (auto simp: k_def nth_append)
    moreover have "k \<noteq> i" "k < ?n" using j by (auto simp: k_def)
    ultimately show "?ys ! j \<noteq> key"
      using nth_eq_iff_index_eq [OF d, of k i] i by simp
  qed
  finally show ?thesis .
qed

lemma RemoveKey_eq:
  assumes "keyring_wf r"
  shows "RemoveKey key r =
    (if key = sliceOf (primaryKey r) then Err ErrRemovePrimary
     else if key \<in> set (keys r) then Ok (r\<lparr>keys := remove1 key (keys r)\<rparr>)
     else Err (ErrKeyNotInKeyring key))"
proof (cases "key \<in> set (keys r)")
  case True
  have d: "distinct (keys r)" using assms by (simp add: keyring_wf_def)
  from True obtain i where i: "i < length (keys r)" "keys r ! i = key"
    by (auto simp: in_set_conv_nth)
  have "remove1 key (keys r) = take i (keys r) @ drop (i + 1) (keys r)"
  proof -
    have eq: "keys r = take i (keys r) @ key # drop (Suc i) (keys r)"
      using id_take_nth_drop [OF i(1)] i(2) by simp
    with d have "distinct (take i (keys r) @ key # drop (Suc i) (keys r))" by simp
    then have "key \<notin> set (take i (keys r))" by simp
    then have "remove1 key (take i (keys r) @ key # drop (Suc i) (keys r))
      = take i (keys r) @ drop (i + 1) (keys r)" by (simp add: remove1_append)
    with eq show ?thesis by simp
  qed
  with removeLoop_distinct [OF d i] i show ?thesis
    using True by (simp add: RemoveKey_def)
next
  case False
  then have "\<forall>j. 0 \<le> j \<and> j < length (keys r) \<longrightarrow> keys r ! j \<noteq> key"
    by (auto simp: in_set_conv_nth)
  from removeLoop_absent [OF this] False show ?thesis by (simp add: RemoveKey_def)
qed

lemma RemoveKey_wf: "keyring_wf r \<Longrightarrow> RemoveKey key r = Ok r' \<Longrightarrow> keyring_wf r'"
  by (auto simp: RemoveKey_eq keyring_wf_def sliceOf_def in_set_remove1
      split: if_splits option.splits dest: notin_set_remove1 set_remove1_subset [THEN subsetD])

lemma GetKeys_spec:
  assumes "keyring_wf r" and "primaryKey r = Some p"
  shows "hd (GetKeys r) = p" and "set (GetKeys r) = set (keys r)" and "distinct (GetKeys r)"
  using assms by (auto simp: keyring_wf_def GetKeys_def)

end
