(* ===== verification/AesGcm.thy ===== *)
theory AesGcm
  imports Prelude
begin

text \<open>
  The authenticated encryption of Go's standard library that \<^verbatim>\<open>src/encrypt.go\<close> calls: the AES
  block cipher (\<open>crypto/aes\<close>, FIPS 197) and the Galois/counter mode over it (\<open>crypto/cipher\<close>,
  NIST SP 800-38D) with 12-byte nonces and 16-byte tags. The library relies on two facts about it,
  proved at the end: sealing adds 16 bytes, and opening what was sealed gives the message back.
\<close>

section \<open>AES\<close>

definition sboxTable :: "byte list" where
  "sboxTable =
   [0x63, 0x7c, 0x77, 0x7b, 0xf2, 0x6b, 0x6f, 0xc5, 0x30, 0x01, 0x67, 0x2b, 0xfe, 0xd7, 0xab, 0x76,
    0xca, 0x82, 0xc9, 0x7d, 0xfa, 0x59, 0x47, 0xf0, 0xad, 0xd4, 0xa2, 0xaf, 0x9c, 0xa4, 0x72, 0xc0,
    0xb7, 0xfd, 0x93, 0x26, 0x36, 0x3f, 0xf7, 0xcc, 0x34, 0xa5, 0xe5, 0xf1, 0x71, 0xd8, 0x31, 0x15,
    0x04, 0xc7, 0x23, 0xc3, 0x18, 0x96, 0x05, 0x9a, 0x07, 0x12, 0x80, 0xe2, 0xeb, 0x27, 0xb2, 0x75,
    0x09, 0x83, 0x2c, 0x1a, 0x1b, 0x6e, 0x5a, 0xa0, 0x52, 0x3b, 0xd6, 0xb3, 0x29, 0xe3, 0x2f, 0x84,
    0x53, 0xd1, 0x00, 0xed, 0x20, 0xfc, 0xb1, 0x5b, 0x6a, 0xcb, 0xbe, 0x39, 0x4a, 0x4c, 0x58, 0xcf,
    0xd0, 0xef, 0xaa, 0xfb, 0x43, 0x4d, 0x33, 0x85, 0x45, 0xf9, 0x02, 0x7f, 0x50, 0x3c, 0x9f, 0xa8,
    0x51, 0xa3, 0x40, 0x8f, 0x92, 0x9d, 0x38, 0xf5, 0xbc, 0xb6, 0xda, 0x21, 0x10, 0xff, 0xf3, 0xd2,
    0xcd, 0x0c, 0x13, 0xec, 0x5f, 0x97, 0x44, 0x17, 0xc4, 0xa7, 0x7e, 0x3d, 0x64, 0x5d, 0x19, 0x73,
    0x60, 0x81, 0x4f, 0xdc, 0x22, 0x2a, 0x90, 0x88, 0x46, 0xee, 0xb8, 0x14, 0xde, 0x5e, 0x0b, 0xdb,
    0xe0, 0x32, 0x3a, 0x0a, 0x49, 0x06, 0x24, 0x5c, 0xc2, 0xd3, 0xac, 0x62, 0x91, 0x95, 0xe4, 0x79,
    0xe7, 0xc8, 0x37, 0x6d, 0x8d, 0xd5, 0x4e, 0xa9, 0x6c, 0x56, 0xf4, 0xea, 0x65, 0x7a, 0xae, 0x08,
    0xba, 0x78, 0x25, 0x2e, 0x1c, 0xa6, 0xb4, 0xc6, 0xe8, 0xdd, 0x74, 0x1f, 0x4b, 0xbd, 0x8b, 0x8a,
    0x70, 0x3e, 0xb5, 0x66, 0x48, 0x03, 0xf6, 0x0e, 0x61, 0x35, 0x57, 0xb9, 0x86, 0xc1, 0x1d, 0x9e,
    0xe1, 0xf8, 0x98, 0x11, 0x69, 0xd9, 0x8e, 0x94, 0x9b, 0x1e, 0x87, 0xe9, 0xce, 0x55, 0x28, 0xdf,
    0x8c, 0xa1, 0x89, 0x0d, 0xbf, 0xe6, 0x42, 0x68, 0x41, 0x99, 0x2d, 0x0f, 0xb0, 0x54, 0xbb, 0x16]"

definition sbox :: "byte \<Rightarrow> byte" where
  "sbox b = sboxTable ! unat b"

definition xtime :: "byte \<Rightarrow> byte" where
  "xtime b = (if bit b 7 then push_bit 1 b XOR 0x1b else push_bit 1 b)"

definition xorBytes :: "bytes \<Rightarrow> bytes \<Rightarrow> bytes" where
  "xorBytes xs ys = map2 (\<lambda>x y. x XOR y) xs ys"

definition subWord :: "bytes \<Rightarrow> bytes" where
  "subWord = map sbox"

definition rcon :: "nat \<Rightarrow> bytes" where
  "rcon i = [(xtime ^^ (i - 1)) 1, 0, 0, 0]"

text \<open>The key schedule: the words so far, latest last, are extended \<open>n\<close> times.\<close>

fun expandKey :: "nat \<Rightarrow> nat \<Rightarrow> bytes list \<Rightarrow> bytes list" where
  "expandKey nk 0 ws = ws"
| "expandKey nk (Suc n) ws =
     (let i = length ws;
          prev = ws ! (i - 1);
          temp = (if i mod nk = 0 then xorBytes (subWord (rotate1 prev)) (rcon (i div nk))
                  else if 6 < nk \<and> i mod nk = 4 then subWord prev else prev)
      in expandKey nk n (ws @ [xorBytes (ws ! (i - nk)) temp]))"

definition roundKeys :: "bytes \<Rightarrow> bytes list" where
  "roundKeys key =
     (let nk = length key div 4;
          ws = expandKey nk (4 * (nk + 7) - nk) (map (\<lambda>i. take 4 (drop (4 * i) key)) [0..<nk])
      in map (\<lambda>r. concat (take 4 (drop (4 * r) ws))) [0..<nk + 7])"

definition subBytes :: "bytes \<Rightarrow> bytes" where
  "subBytes = map sbox"

definition shiftRows :: "bytes \<Rightarrow> bytes" where
  "shiftRows s = map (\<lambda>i. s ! ((i + 4 * (i mod 4)) mod 16)) [0..<16]"

definition mixColumn :: "bytes \<Rightarrow> nat \<Rightarrow> byte" where
  "mixColumn s i =
     (let a = (\<lambda>k. s ! (4 * (i div 4) + (i + k) mod 4))
      in xtime (a 0) XOR (xtime (a 1) XOR a 1) XOR a 2 XOR a 3)"

definition mixColumns :: "bytes \<Rightarrow> bytes" where
  "mixColumns s = map (mixColumn s) [0..<16]"

definition aesBlock :: "bytes \<Rightarrow> bytes \<Rightarrow> bytes" where
  "aesBlock key block =
     (let rks = roundKeys key;
          s = fold (\<lambda>rk s. xorBytes (mixColumns (shiftRows (subBytes s))) rk)
                (butlast (tl rks)) (xorBytes block (hd rks));
          out = shiftRows (subBytes s)
      in map (\<lambda>i. out ! i XOR last rks ! i) [0..<16])"

section \<open>Galois/counter mode\<close>

type_synonym block = "128 word"

definition blockOf :: "bytes \<Rightarrow> block" where
  "blockOf bs = foldl (\<lambda>w b. push_bit 8 w OR ucast b) 0 (take 16 (bs @ replicate 16 0))"

definition blockBytes :: "block \<Rightarrow> bytes" where
  "blockBytes w = map (\<lambda>i. ucast (drop_bit (8 * (15 - i)) w)) [0..<16]"

text \<open>The product in the field of \<open>2 ^ 128\<close> elements, most significant bit first.\<close>

definition gfStep :: "block \<Rightarrow> nat \<Rightarrow> block \<times> block \<Rightarrow> block \<times> block" where
  "gfStep x i zv =
     (let (z, v) = zv
      in (if bit x (127 - i) then z XOR v else z,
          if bit v 0 then drop_bit 1 v XOR push_bit 120 0xe1 else drop_bit 1 v))"

definition gfMul :: "block \<Rightarrow> block \<Rightarrow> block" where
  "gfMul x y = fst (fold (gfStep x) [0..<128] (0, y))"

function ghashBlocks :: "block \<Rightarrow> block \<Rightarrow> bytes \<Rightarrow> block" where
  "ghashBlocks h y bs =
     (if bs = [] then y else ghashBlocks h (gfMul (y XOR blockOf (take 16 bs)) h) (drop 16 bs))"
  by pat_completeness auto
termination
  by (relation "measure (\<lambda>(h, y, bs). length bs)") auto

declare ghashBlocks.simps [simp del]

definition ghash :: "block \<Rightarrow> bytes \<Rightarrow> bytes \<Rightarrow> block" where
  "ghash h aad ct =
     (let y = ghashBlocks h (ghashBlocks h 0 aad) ct;
          lens = push_bit 64 (of_nat (8 * length aad)) OR of_nat (8 * length ct)
      in gfMul (y XOR lens) h)"

function ctr :: "bytes \<Rightarrow> bytes \<Rightarrow> u32 \<Rightarrow> bytes \<Rightarrow> bytes" where
  "ctr key nonce c bs =
     (if bs = [] then []
      else xorBytes (take 16 bs) (aesBlock key (nonce @ be32 c)) @ ctr key nonce (c + 1) (drop 16 bs))"
  by pat_completeness auto
termination
  by (relation "measure (\<lambda>(key, nonce, c, bs). length bs)") auto

declare ctr.simps [simp del]

definition gcmTag :: "bytes \<Rightarrow> bytes \<Rightarrow> bytes \<Rightarrow> bytes \<Rightarrow> bytes" where
  "gcmTag key nonce aad ct =
     blockBytes (ghash (blockOf (aesBlock key (replicate 16 0))) aad ct
       XOR blockOf (aesBlock key (nonce @ be32 1)))"

text \<open>\<open>Seal\<close> and \<open>Open\<close> of \<open>cipher.AEAD\<close>.\<close>

definition gcmSeal :: "bytes \<Rightarrow> bytes \<Rightarrow> bytes \<Rightarrow> bytes \<Rightarrow> bytes" where
  "gcmSeal key nonce plain aad = (let ct = ctr key nonce 2 plain in ct @ gcmTag key nonce aad ct)"

definition gcmOpen :: "bytes \<Rightarrow> bytes \<Rightarrow> bytes \<Rightarrow> bytes \<Rightarrow> bytes option" where
  "gcmOpen key nonce authCT aad =
     (if length authCT < 16 then None
      else let n = length authCT - 16; ct = take n authCT
           in if drop n authCT = gcmTag key nonce aad ct then Some (ctr key nonce 2 ct) else None)"

section \<open>Sealing and opening\<close>

lemma length_aesBlock [simp]: "length (aesBlock key b) = 16"
  by (simp add: aesBlock_def Let_def)

lemma length_xorBytes [simp]: "length (xorBytes xs ys) = min (length xs) (length ys)"
  by (simp add: xorBytes_def)

lemma xorBytes_twice: "length xs \<le> length ys \<Longrightarrow> xorBytes (xorBytes xs ys) ys = xs"
  by (rule nth_equalityI) (simp_all add: xorBytes_def xor.assoc)

lemma length_ctr [simp]: "length (ctr key nonce c bs) = length bs"
  by (induction key nonce c bs rule: ctr.induct) (subst ctr.simps, auto simp: min_def)

lemma ctr_ctr: "ctr key nonce c (ctr key nonce c bs) = bs"
proof (induction key nonce c bs rule: ctr.induct)
  case (1 key nonce c bs)
  show ?case
  proof (cases "bs = []")
    case False
    let ?x = "xorBytes (take 16 bs) (aesBlock key (nonce @ be32 c))"
    let ?r = "ctr key nonce (c + 1) (drop 16 bs)"
    have len: "length ?x = min (length bs) 16" by simp
    have eq: "ctr key nonce c bs = ?x @ ?r" using False by (subst ctr.simps) simp
    have "take 16 (?x @ ?r) = ?x \<and> drop 16 (?x @ ?r) = ?r"
    proof (cases "length bs \<le> 16")
      case True
      then have "?r = []" by (simp add: ctr.simps)
      with len show ?thesis by simp
    next
      case False
      with len have "length ?x = 16" by simp
      then show ?thesis by simp
    qed
    moreover have "length (?x @ ?r) \<noteq> 0" using False len by simp
    then have "?x @ ?r \<noteq> []" by fastforce
    ultimately have "ctr key nonce c (?x @ ?r)
        = xorBytes ?x (aesBlock key (nonce @ be32 c)) @ ctr key nonce (c + 1) ?r"
      using ctr.simps [of key nonce c "?x @ ?r"] by presburger
    then show ?thesis using 1 [OF False] by (simp add: eq xorBytes_twice)
  qed (simp add: ctr.simps)
qed

lemma length_gcmSeal [simp]: "length (gcmSeal key nonce plain aad) = length plain + 16"
  by (simp add: gcmSeal_def gcmTag_def blockBytes_def Let_def)

lemma gcmOpen_gcmSeal: "gcmOpen key nonce (gcmSeal key nonce plain aad) aad = Some plain"
proof -
  have "length (gcmTag key nonce aad ct) = 16" for ct by (simp add: gcmTag_def blockBytes_def)
  then show ?thesis by (simp add: gcmOpen_def gcmSeal_def Let_def ctr_ctr)
qed

lemma gcmOpen_length: "gcmOpen key nonce authCT aad = Some plain \<Longrightarrow> length authCT = length plain + 16"
  by (auto simp: gcmOpen_def Let_def split: if_splits)

end
