(* ===== verification/Encrypt.thy ===== *)
theory Encrypt
  imports Codec Keyring AesGcm
begin

text \<open>
  \<^verbatim>\<open>src/encrypt.go\<close>: authenticated encryption of packets and streams under the keys of the
  keyring. The random nonce is an argument: \<open>rnd\<close> is what reading it from \<open>crypto/rand\<close> gave. A
  stream is the bytes still to be read from the connection, and a reader returns what is left.
\<close>

definition versionSize :: int where "versionSize = 1"
definition nonceSize :: int where "nonceSize = 12"
definition tagSize :: int where "tagSize = 16"
definition maxPushSize :: int where "maxPushSize = 20 * 1024 * 1024"
definition maxEncryptionVersion :: byte where "maxEncryptionVersion = 0"

definition encryptOverhead :: "byte \<Rightarrow> int outcome" where
  "encryptOverhead vsn =
     (if vsn = 0 then Ok (versionSize + nonceSize + tagSize) else Panic UnsupportedVersion)"

text \<open>\<open>aes.NewCipher\<close> refuses a key that has not 16, 24 or 32 bytes.\<close>

definition NewCipher :: "bytes \<Rightarrow> bytes outcome" where
  "NewCipher key = (if length key \<in> {16, 24, 32} then Ok key else Err ErrCipher)"

definition encrypt :: "byte \<Rightarrow> bytes \<Rightarrow> bytes outcome \<Rightarrow> bytes \<Rightarrow> bytes \<Rightarrow> bytes outcome" where
  "encrypt vsn key rnd msg aad =
     bind_outcome (NewCipher key) (\<lambda>aesBlock.
     bind_outcome (encryptOverhead vsn) (\<lambda>_.
     bind_outcome rnd (\<lambda>nonce.
       Ok (vsn # nonce @ gcmSeal aesBlock nonce msg aad))))"

definition decrypt :: "bytes \<Rightarrow> bytes \<Rightarrow> bytes \<Rightarrow> bytes outcome" where
  "decrypt key msg aad =
     bind_outcome (NewCipher key) (\<lambda>aesBlock.
       if length msg < 13 then Panic IndexOutOfRange
       else let nonce = take 12 (drop 1 msg); authCT = drop 13 msg
            in case gcmOpen aesBlock nonce authCT aad of None \<Rightarrow> Err ErrCipher | Some plain \<Rightarrow> Ok plain)"

text \<open>The loop of \<open>decryptWithKeys\<close>: the first key that opens the message.\<close>

fun tryKeys :: "bytes list \<Rightarrow> bytes \<Rightarrow> bytes \<Rightarrow> bytes outcome" where
  "tryKeys [] msg data = Err ErrNoKeyDecrypts"
| "tryKeys (key # ks) msg data =
     (case decrypt key msg data of
        Ok plain \<Rightarrow> Ok plain
      | Err _ \<Rightarrow> tryKeys ks msg data
      | Panic p \<Rightarrow> Panic p)"

definition decryptWithKeys :: "bytes list \<Rightarrow> bytes \<Rightarrow> bytes \<Rightarrow> bytes outcome" where
  "decryptWithKeys ks msg data =
     (if length msg = 0 then Err ErrEmptyPayload
      else let vsn = msg ! 0 in
        if vsn > maxEncryptionVersion then Err (ErrEncryptionVersion (msg ! 0))
        else bind_outcome (encryptOverhead vsn) (\<lambda>overhead.
          if int (length msg) < overhead then Err (ErrPayloadTooSmall (length msg))
          else tryKeys ks msg data))"

text \<open>Go strings are byte sequences; \<open>[]byte(s)\<close>.\<close>

definition strBytes :: "string \<Rightarrow> bytes" where
  "strBytes s = map charByte s"

definition writeEncryptedSize :: "byte \<Rightarrow> int \<Rightarrow> bytes \<Rightarrow> bytes outcome" where
  "writeEncryptedSize vsn n buf =
     bind_outcome (encryptOverhead vsn) (\<lambda>overhead. Ok (buf @ be32 (of_int (overhead + n))))"

text \<open>
  \<open>tcpAAD\<close>: with a label, the slice made with length \<open>5 + len(streamLabel)\<close> is all zeros, and the
  header and the label are appended after the zeros.
\<close>

definition tcpAAD :: "bytes \<Rightarrow> string \<Rightarrow> bytes" where
  "tcpAAD buf streamLabel =
     (if streamLabel \<noteq> ''''
      then replicate (5 + length streamLabel) 0 @ take 5 buf @ strBytes streamLabel
      else take 5 buf)"

definition encryptTcp :: "byte \<Rightarrow> bytes \<Rightarrow> bytes outcome \<Rightarrow> bytes \<Rightarrow> string \<Rightarrow> bytes outcome" where
  "encryptTcp vsn key rnd msg streamLabel =
     bind_outcome (writeEncryptedSize vsn (int (length msg)) [tag encryptMsg]) (\<lambda>buf.
     bind_outcome (encrypt vsn key rnd msg (tcpAAD buf streamLabel)) (\<lambda>encrypted.
       Ok (buf @ encrypted)))"

text \<open>\<open>decryptTcp\<close>, called after the type byte has been read.\<close>

fun rdSize :: "bytes \<Rightarrow> u32" where
  "rdSize (b0 # b1 # b2 # b3 # _) = rd32 b0 b1 b2 b3"
| "rdSize _ = 0"

definition decryptTcp :: "bytes list \<Rightarrow> bytes \<Rightarrow> string \<Rightarrow> (bytes \<times> bytes) outcome" where
  "decryptTcp ks r streamLabel =
     (if length r < 4 then Err ErrEOF
      else let buf = tag encryptMsg # take 4 r;
               r1 = drop 4 r;
               authData = tcpAAD buf streamLabel;
               n = unat (rdSize (drop 1 buf))
           in if int n > maxPushSize then Err (ErrRemoteTooLarge (rdSize (drop 1 buf)))
              else if length r1 < n then Err ErrEOF
              else bind_outcome (decryptWithKeys ks (take n r1) authData) (\<lambda>plain.
                Ok (plain, drop n r1)))"

section \<open>Round trips\<close>

lemma rdSize_be32 [simp]: "rdSize (be32 v) = v" "rdSize (be32 v @ r) = v"
  by (simp_all add: be32_def rd32_be32)

lemma encrypt_Ok:
  "encrypt vsn key rnd msg aad = Ok c \<longleftrightarrow>
     length key \<in> {16, 24, 32} \<and> vsn = 0
     \<and> (\<exists>nonce. rnd = Ok nonce \<and> c = 0 # nonce @ gcmSeal key nonce msg aad)"
  by (auto simp: encrypt_def NewCipher_def encryptOverhead_def bind_outcome_eq_Ok)

text \<open>The overhead is exactly what \<open>encryptOverhead\<close> announces.\<close>

lemma encrypt_length:
  assumes "encrypt vsn key (Ok nonce) msg aad = Ok c" and "int (length nonce) = nonceSize"
  shows "encryptOverhead vsn = Ok (int (length c) - int (length msg))"
  using assms by (auto simp: encrypt_Ok encryptOverhead_def versionSize_def nonceSize_def tagSize_def)

lemma decrypt_encrypt:
  assumes "encrypt vsn key (Ok nonce) msg aad = Ok c" and "length nonce = 12"
  shows "decrypt key c aad = Ok msg"
  using assms by (auto simp: encrypt_Ok decrypt_def NewCipher_def gcmOpen_gcmSeal)

lemma tryKeys_append:
  "(\<And>k. k \<in> set before \<Longrightarrow> \<exists>e. decrypt k msg data = Err e) \<Longrightarrow>
   tryKeys (before @ ks) msg data = tryKeys ks msg data"
proof (induction before)
  case (Cons b before)
  then obtain e where "decrypt b msg data = Err e" by auto
  with Cons show ?case by simp
qed simp

text \<open>
  A message encrypted under one of the receiver's keys is decrypted, provided the keys tried before
  it reject the message. No key is tried before the primary one.
\<close>

lemma decryptWithKeys_encrypt:
  assumes enc: "encrypt vsn key (Ok nonce) msg aad = Ok c" and n: "length nonce = 12"
    and ks: "ks = before @ key # after"
    and reject: "\<And>k. k \<in> set before \<Longrightarrow> \<exists>e. decrypt k c aad = Err e"
  shows "decryptWithKeys ks c aad = Ok msg"
proof -
  have c: "vsn = 0" "c = 0 # nonce @ gcmSeal key nonce msg aad" using enc by (auto simp: encrypt_Ok)
  then have "decryptWithKeys ks c aad = tryKeys ks c aad"
    using n by (simp add: decryptWithKeys_def maxEncryptionVersion_def encryptOverhead_def
        versionSize_def nonceSize_def tagSize_def)
  also have "\<dots> = Ok msg"
    using tryKeys_append [of before c aad "key # after"] reject decrypt_encrypt [OF enc n]
    by (simp add: ks)
  finally show ?thesis .
qed

text \<open>The length check in front makes the slicing in \<open>decrypt\<close> safe: no packet makes it panic.\<close>

lemma tryKeys_no_panic: "13 \<le> length msg \<Longrightarrow> tryKeys ks msg data \<noteq> Panic p"
  by (induction ks)
     (auto simp: decrypt_def NewCipher_def Let_def split: outcome.splits option.splits)

lemma decryptWithKeys_no_panic: "decryptWithKeys ks msg data \<noteq> Panic p"
  using tryKeys_no_panic [of msg ks data p]
  by (auto simp: decryptWithKeys_def Let_def maxEncryptionVersion_def encryptOverhead_def versionSize_def
      nonceSize_def tagSize_def not_less)

lemma decryptTcp_encryptTcp:
  assumes enc: "encryptTcp vsn key (Ok nonce) msg label = Ok out" and n: "length nonce = 12"
    and small: "int (length msg) + 29 \<le> maxPushSize" and ks: "ks = key # after"
  shows "\<exists>r. out = tag encryptMsg # r \<and> decryptTcp ks (r @ rest) label = Ok (msg, rest)"
proof -
  let ?buf = "tag encryptMsg # be32 (of_int (29 + int (length msg)))"
  have vsn: "vsn = 0" using enc by (auto simp: encryptTcp_def writeEncryptedSize_def encryptOverhead_def
      bind_outcome_eq_Ok split: if_splits)
  then obtain c where c: "encrypt vsn key (Ok nonce) msg (tcpAAD ?buf label) = Ok c" "out = ?buf @ c"
    using enc by (auto simp: encryptTcp_def writeEncryptedSize_def encryptOverhead_def
      bind_outcome_eq_Ok versionSize_def nonceSize_def tagSize_def)
  have len: "length c = length msg + 29"
    using c(1) n by (auto simp: encrypt_Ok)
  have "unat (of_nat (length c) :: u32) = length c"
    using small len by (intro unat_of_nat_small) (simp add: maxPushSize_def)
  moreover have "of_int (29 + int (length msg)) = (of_nat (length c) :: u32)"
    using len by (simp add: algebra_simps)
  ultimately have u: "unat (of_int (29 + int (length msg)) :: u32) = length c" by simp
  moreover have ui: "uint (of_int (29 + int (length msg)) :: u32) = int (length c)"
    unfolding u [symmetric] by simp
  moreover have "decryptWithKeys ks c (tcpAAD ?buf label) = Ok msg"
    using decryptWithKeys_encrypt [OF c(1) n, of ks "[]" after] ks by simp
  ultimately have "decryptTcp ks (be32 (of_int (29 + int (length msg))) @ c @ rest) label = Ok (msg, rest)"
    using small len by (simp add: decryptTcp_def Let_def)
  with c(2) show ?thesis by simp
qed

end
