(* ===== verification/Lzw.thy ===== *)
theory Lzw
  imports Prelude
begin

text \<open>
  \<^verbatim>\<open>compress/lzw\<close> of the standard library as the source uses it: least significant bits first, literals of
  8 bits, codes of 9 to 12 bits. The hash table of the writer is a map from a code and a literal to the
  code of the longer string; the prefix and suffix arrays of the reader are the strings they stand for.
  Reading what was written gives the message back, for every message.
\<close>

section \<open>Bits\<close>

definition codeBits :: "nat \<Rightarrow> nat \<Rightarrow> bool list" where
  "codeBits width c = map (bit c) [0..<width]"

definition bitsVal :: "bool list \<Rightarrow> nat" where
  "bitsVal bs = horner_sum of_bool 2 bs"

definition byteBits :: "byte \<Rightarrow> bool list" where
  "byteBits b = map (bit b) [0..<8]"

fun toBytes :: "bool list \<Rightarrow> bytes" where
  "toBytes [] = []"
| "toBytes (b # bs) = of_nat (bitsVal (take 8 (b # bs))) # toBytes (drop 7 bs)"

section \<open>The writer\<close>

definition clearCode :: nat where "clearCode = 256"
definition eofCode :: nat where "eofCode = 257"
definition maxCode :: nat where "maxCode = 4095"

record lzw_writer =
  w_hi :: nat
  w_width :: nat
  w_table :: "nat \<times> byte \<Rightarrow> nat option"

definition w_init :: lzw_writer where
  "w_init = \<lparr>w_hi = eofCode, w_width = 9, w_table = Map.empty\<rparr>"

text \<open>\<open>incHi\<close>: the bits it writes, whether it ran out of codes, and the state after it.\<close>

definition incHi :: "lzw_writer \<Rightarrow> bool list \<times> bool \<times> lzw_writer" where
  "incHi w =
     (let hi = w_hi w + 1;
          width = (if hi = 2 ^ w_width w then w_width w + 1 else w_width w)
      in if hi = maxCode then (codeBits width clearCode, True, w_init)
         else ([], False, w\<lparr>w_hi := hi, w_width := width\<rparr>))"

text \<open>The loop of \<open>Write\<close> followed by \<open>Close\<close>, from the pending code on.\<close>

fun writeLoop :: "lzw_writer \<Rightarrow> nat \<Rightarrow> bytes \<Rightarrow> bool list" where
  "writeLoop w code [] =
     (case incHi w of (bs, _, w') \<Rightarrow> codeBits (w_width w) code @ bs @ codeBits (w_width w') eofCode)"
| "writeLoop w code (x # xs) =
     (case w_table w (code, x) of
        Some k \<Rightarrow> writeLoop w k xs
      | None \<Rightarrow>
          (case incHi w of (bs, out, w') \<Rightarrow>
             codeBits (w_width w) code @ bs
             @ writeLoop (if out then w' else w'\<lparr>w_table := (w_table w')((code, x) \<mapsto> w_hi w')\<rparr>) (unat x) xs))"

definition lzwWrite :: "bytes \<Rightarrow> bytes" where
  "lzwWrite msg =
     toBytes (codeBits 9 clearCode
       @ (case msg of [] \<Rightarrow> codeBits 9 eofCode | x # xs \<Rightarrow> writeLoop w_init (unat x) xs))"

section \<open>The reader\<close>

record lzw_reader =
  r_hi :: nat
  r_width :: nat
  r_last :: "nat option"
  r_dict :: "nat \<Rightarrow> bytes"

definition r_init :: lzw_reader where
  "r_init = \<lparr>r_hi = eofCode, r_width = 9, r_last = None, r_dict = (\<lambda>_. [])\<rparr>"

definition expand :: "lzw_reader \<Rightarrow> nat \<Rightarrow> bytes" where
  "expand r c = (if c < clearCode then [of_nat c] else r_dict r c)"

text \<open>What a code that is a literal or at most \<open>hi\<close> stands for; the code \<open>hi\<close> itself, not yet complete,
  is the last string followed by its own head.\<close>

definition codeText :: "lzw_reader \<Rightarrow> nat \<Rightarrow> bytes" where
  "codeText r code =
     (case r_last r of
        None \<Rightarrow> expand r code
      | Some l \<Rightarrow> if clearCode \<le> code \<and> code = r_hi r then expand r l @ [hd (expand r l)] else expand r code)"

definition learn :: "lzw_reader \<Rightarrow> nat \<Rightarrow> lzw_reader" where
  "learn r code =
     (let d = (case r_last r of None \<Rightarrow> r_dict r | Some l \<Rightarrow> (r_dict r)(r_hi r := expand r l @ [hd (codeText r code)]));
          hi = r_hi r + 1
      in if hi < 2 ^ r_width r then r\<lparr>r_dict := d, r_last := Some code, r_hi := hi\<rparr>
         else if r_width r = 12 then r\<lparr>r_dict := d, r_last := None\<rparr>
         else r\<lparr>r_dict := d, r_last := Some code, r_hi := hi, r_width := r_width r + 1\<rparr>)"

function readLoop :: "lzw_reader \<Rightarrow> bool list \<Rightarrow> bytes \<Rightarrow> bytes option" where
  "readLoop r bs out =
     (if length bs < r_width r \<or> r_width r = 0 then None
      else
        let code = bitsVal (take (r_width r) bs);
            rest = drop (r_width r) bs
        in if code = clearCode then readLoop (r\<lparr>r_width := 9, r_hi := eofCode, r_last := None\<rparr>) rest out
           else if code = eofCode then Some out
           else if code < clearCode \<or> code \<le> r_hi r then readLoop (learn r code) rest (out @ codeText r code)
           else None)"
  by pat_completeness auto
termination
  by (relation "measure (\<lambda>(r, bs, out). length bs)") auto

declare readLoop.simps [simp del]

definition lzwRead :: "bytes \<Rightarrow> bytes option" where
  "lzwRead b = readLoop r_init (concat (map byteBits b)) []"

section \<open>Reading what was written\<close>

lemma length_codeBits [simp]: "length (codeBits n c) = n"
  by (simp add: codeBits_def)

lemma bitsVal_codeBits: "c < 2 ^ n \<Longrightarrow> bitsVal (codeBits n c) = c"
  by (simp add: bitsVal_def codeBits_def horner_sum_bit_eq_take_bit take_bit_nat_eq_self)

lemma byteBits_bitsVal:
  assumes "length bs = 8"
  shows "byteBits (of_nat (bitsVal bs)) = bs"
proof (rule nth_equalityI)
  show "length (byteBits (of_nat (bitsVal bs))) = length bs" using assms by (simp add: byteBits_def)
  show "byteBits (of_nat (bitsVal bs)) ! i = bs ! i" if "i < length (byteBits (of_nat (bitsVal bs)))" for i
    using that assms
    by (simp add: byteBits_def bitsVal_def bit_horner_sum_bit_iff bit_of_nat_iff possible_bit_def)
qed

lemma bitsVal_pad: "bitsVal (bs @ replicate k False) = bitsVal bs"
  by (induction bs) (simp_all add: bitsVal_def, induction k, simp_all)

text \<open>The bytes hold the bits, followed by less than a byte of zeros.\<close>

lemma toBytes_bits: "\<exists>k. concat (map byteBits (toBytes bs)) = bs @ replicate k False"
proof (induction bs rule: toBytes.induct)
  case (2 b bs)
  let ?c = "take 8 (b # bs)"
  show ?case
  proof (cases "length (b # bs) < 8")
    case True
    then have c: "?c = b # bs" "drop 7 bs = []" by simp_all
    have "byteBits (of_nat (bitsVal ?c)) = ?c @ replicate (8 - length (b # bs)) False"
      using byteBits_bitsVal [of "?c @ replicate (8 - length (b # bs)) False"] True by (simp only: bitsVal_pad c) simp
    with c show ?thesis by (auto simp del: take_Suc_Cons)
  next
    case False
    then have "byteBits (of_nat (bitsVal ?c)) = ?c" by (intro byteBits_bitsVal) simp
    moreover obtain k where "concat (map byteBits (toBytes (drop 7 bs))) = drop 7 bs @ replicate k False" using 2 by blast
    moreover have "?c @ drop 7 bs = b # bs" using append_take_drop_id [of 8 "b # bs"] by simp
    ultimately show ?thesis by (metis (no_types) append.assoc concat.simps(2) list.simps(9) toBytes.simps(2))
  qed
qed (auto intro: exI [of _ 0])

text \<open>One step of the reader on a code of its width.\<close>

lemma readLoop_code:
  assumes "0 < r_width r" and "c < 2 ^ r_width r"
  shows "readLoop r (codeBits (r_width r) c @ rest) out =
    (if c = clearCode then readLoop (r\<lparr>r_width := 9, r_hi := eofCode, r_last := None\<rparr>) rest out
     else if c = eofCode then Some out
     else if c < clearCode \<or> c \<le> r_hi r then readLoop (learn r c) rest (out @ codeText r c)
     else None)"
  using assms by (subst readLoop.simps) (simp add: bitsVal_codeBits Let_def)

text \<open>
  The reader follows the writer: the same \<open>hi\<close> and width, and a table \<open>T\<close> of strings such that the reader
  knows every code below \<open>hi\<close>, the code \<open>hi\<close> is the last string followed by the head of the pending
  one, and every entry of the writer's table extends the string of its code by its literal.
\<close>

definition follows :: "(nat \<Rightarrow> bytes) \<Rightarrow> lzw_writer \<Rightarrow> nat \<Rightarrow> lzw_reader \<Rightarrow> bool" where
  "follows T w code r \<longleftrightarrow>
     r_hi r = w_hi w \<and> r_width r = w_width w \<and> 9 \<le> w_width w
     \<and> eofCode \<le> w_hi w \<and> w_hi w < maxCode \<and> w_hi w < 2 ^ w_width w
     \<and> (code < clearCode \<or> eofCode < code \<and> code \<le> w_hi w)
     \<and> (\<forall>c < clearCode. T c = [of_nat c])
     \<and> (\<forall>k. eofCode < k \<longrightarrow> T k \<noteq> [])
     \<and> (\<forall>k. eofCode < k \<and> k < w_hi w \<longrightarrow> r_dict r k = T k)
     \<and> (case r_last r of
          None \<Rightarrow> w_hi w = eofCode
        | Some l \<Rightarrow> eofCode < w_hi w \<and> (l < clearCode \<or> eofCode < l \<and> l < w_hi w)
            \<and> T (w_hi w) = T l @ [hd (T code)])
     \<and> (\<forall>c x k. w_table w (c, x) = Some k \<longrightarrow> eofCode < k \<and> k \<le> w_hi w \<and> c < k \<and> T k = T c @ [x])"

lemma followsD:
  assumes "follows T w code r"
  shows "r_hi r = w_hi w" "r_width r = w_width w" "9 \<le> w_width w"
    "eofCode \<le> w_hi w" "w_hi w < maxCode" "w_hi w < 2 ^ w_width w"
    "code < clearCode \<or> eofCode < code \<and> code \<le> w_hi w"
    "c < clearCode \<Longrightarrow> T c = [of_nat c]" "eofCode < k \<Longrightarrow> T k \<noteq> []"
    "eofCode < k \<Longrightarrow> k < w_hi w \<Longrightarrow> r_dict r k = T k"
    "r_last r = None \<Longrightarrow> w_hi w = eofCode"
    "r_last r = Some l \<Longrightarrow> eofCode < w_hi w" "r_last r = Some l \<Longrightarrow> l < clearCode \<or> eofCode < l \<and> l < w_hi w"
    "r_last r = Some l \<Longrightarrow> T (w_hi w) = T l @ [hd (T code)]"
    "w_table w (c, x) = Some k \<Longrightarrow> eofCode < k \<and> k \<le> w_hi w \<and> c < k \<and> T k = T c @ [x]"
  using assms by (simp_all add: follows_def)

lemma follows_init: "x < clearCode \<Longrightarrow> r_hi r = eofCode \<Longrightarrow> r_width r = 9 \<Longrightarrow> r_last r = None \<Longrightarrow>
   follows (\<lambda>c. if c < clearCode then [of_nat c] else [0]) w_init x r"
  by (auto simp: follows_def w_init_def eofCode_def maxCode_def clearCode_def)

lemma follows_hit:
  assumes "follows T w code r" and "w_table w (code, x) = Some k"
  shows "follows T w k r \<and> T k = T code @ [x]"
proof -
  have k: "eofCode < k" "k \<le> w_hi w" "T k = T code @ [x]" using assms by (auto simp: follows_def)
  have "T code \<noteq> []" using assms(1) by (auto simp: follows_def)
  then have "hd (T k) = hd (T code)" using k by simp
  then show ?thesis using assms(1) k by (auto simp: follows_def split: option.splits)
qed

lemma follows_expand:
  assumes "follows T w code r" and "c < clearCode \<or> eofCode < c \<and> c < w_hi w"
  shows "expand r c = T c"
  using assms by (auto simp: follows_def expand_def clearCode_def eofCode_def)

lemma follows_codeText:
  assumes "follows T w code r"
  shows "codeText r code = T code"
proof (cases "code = w_hi w \<and> clearCode \<le> code")
  case True
  then obtain l where l: "r_last r = Some l" "l < clearCode \<or> eofCode < l \<and> l < w_hi w" "T (w_hi w) = T l @ [hd (T code)]"
    using assms by (auto simp: follows_def clearCode_def eofCode_def split: option.splits)
  have "T l \<noteq> []" using assms l(2) by (auto simp: follows_def)
  then have "hd (T code) = hd (T l)" using True l(3) by (metis hd_append2)
  with True l assms follows_expand [OF assms l(2)] show ?thesis by (simp add: codeText_def follows_def)
next
  case False
  then have v: "code < clearCode \<or> eofCode < code \<and> code < w_hi w"
    using followsD(7) [OF assms] by (auto simp: eofCode_def clearCode_def)
  show ?thesis using False follows_expand [OF assms v] followsD(1) [OF assms]
    by (cases "r_last r") (auto simp: codeText_def)
qed

definition learned :: "lzw_writer \<Rightarrow> lzw_reader \<Rightarrow> nat \<Rightarrow> lzw_reader" where
  "learned w r code =
     (if w_hi w + 1 = maxCode then (learn r code)\<lparr>r_width := 9, r_hi := eofCode, r_last := None\<rparr> else learn r code)"

lemma follows_width:
  assumes "follows T w code r"
  shows "w_hi w + 1 \<noteq> 2 ^ 12" and "w_hi w + 1 \<le> 2 ^ w_width w" and "w_hi w + 1 \<le> maxCode"
  using assms by (simp_all add: follows_def maxCode_def)

lemma learn_fields:
  assumes "follows T w code r"
  shows "r_hi (learn r code) = w_hi w + 1"
    and "r_width (learn r code) = (if w_hi w + 1 = 2 ^ w_width w then w_width w + 1 else w_width w)"
    and "r_last (learn r code) = Some code"
    and "r_dict (learn r code) = (case r_last r of None \<Rightarrow> r_dict r | Some l \<Rightarrow> (r_dict r)(w_hi w := expand r l @ [hd (T code)]))"
proof -
  have "r_hi r = w_hi w" "r_width r = w_width w" using assms by (simp_all add: follows_def)
  moreover have "w_hi w + 1 < 2 ^ w_width w \<or> w_hi w + 1 = 2 ^ w_width w \<and> w_width w \<noteq> 12"
    using follows_width [OF assms] by auto
  ultimately show "r_hi (learn r code) = w_hi w + 1"
    and "r_width (learn r code) = (if w_hi w + 1 = 2 ^ w_width w then w_width w + 1 else w_width w)"
    and "r_last (learn r code) = Some code"
    and "r_dict (learn r code) = (case r_last r of None \<Rightarrow> r_dict r | Some l \<Rightarrow> (r_dict r)(w_hi w := expand r l @ [hd (T code)]))"
    using follows_codeText [OF assms] by (cases "r_last r"; auto simp: learn_def Let_def)+
qed

text \<open>What the writer emits for a code makes the reader output its string.\<close>

lemma read_emit:
  assumes "follows T w code r" and "incHi w = (bs, ran_out, w')"
  shows "readLoop r (codeBits (w_width w) code @ bs @ rest) out = readLoop (learned w r code) rest (out @ T code)"
    and "r_hi (learned w r code) = w_hi w'" and "r_width (learned w r code) = w_width w'"
proof -
  have w: "r_width r = w_width w" "9 \<le> w_width w" "r_hi r = w_hi w" "w_hi w < 2 ^ w_width w"
    "code < clearCode \<or> eofCode < code \<and> code \<le> w_hi w" using assms(1) by (auto simp: follows_def)
  have "(512::nat) \<le> 2 ^ w_width w" using power_increasing [OF w(2), of "2::nat"] by simp
  then have "code < 2 ^ r_width r" using w by (auto simp: clearCode_def)
  then have step: "readLoop r (codeBits (w_width w) code @ rs) out = readLoop (learn r code) rs (out @ T code)" for rs
    using readLoop_code [of r code rs out] w follows_codeText [OF assms(1)] by (auto simp: clearCode_def eofCode_def)
  have c: "clearCode < 2 ^ r_width (learn r code)" "0 < r_width (learn r code)"
    using learn_fields(2) [OF assms(1)] w(2) \<open>512 \<le> 2 ^ w_width w\<close> by (auto simp: clearCode_def)
  show "readLoop r (codeBits (w_width w) code @ bs @ rest) out = readLoop (learned w r code) rest (out @ T code)"
    using assms(2) step readLoop_code [OF c(2,1)] learn_fields(2) [OF assms(1)]
    by (auto simp: incHi_def learned_def Let_def split: if_splits)
  show "r_hi (learned w r code) = w_hi w'" "r_width (learned w r code) = w_width w'"
    using assms(2) learn_fields [OF assms(1)] by (auto simp: incHi_def learned_def Let_def w_init_def split: if_splits)
qed

lemma follows_miss:
  assumes f: "follows T w code r" and i: "incHi w = (bs, ran_out, w')"
  shows "\<exists>T'. follows T' (if ran_out then w' else w'\<lparr>w_table := (w_table w')((code, x) \<mapsto> w_hi w')\<rparr>) (unat x) (learned w r code)
    \<and> T' (unat x) = [x]"
proof (cases "w_hi w + 1 = maxCode")
  case True
  have "unat x < clearCode" using unsigned_less [of x, where ?'a = nat] by (simp add: clearCode_def)
  with i True follows_init [of "unat x" "learned w r code"] show ?thesis
    by (intro exI [of _ "\<lambda>c. if c < clearCode then [of_nat c] else [0]"]) (auto simp: incHi_def learned_def Let_def)
next
  case False
  have x: "unat x < clearCode" using unsigned_less [of x, where ?'a = nat] by (simp add: clearCode_def)
  let ?T = "T(w_hi w + 1 := T code @ [x])"
  have w': "\<not> ran_out" "w_hi w' = w_hi w + 1" "w_table w' = w_table w" "learned w r code = learn r code"
    "w_width w' = (if w_hi w + 1 = 2 ^ w_width w then w_width w + 1 else w_width w)"
    using i False by (auto simp: incHi_def Let_def learned_def split: if_splits)
  have hi: "eofCode \<le> w_hi w" "clearCode < eofCode" using f by (simp_all add: follows_def eofCode_def clearCode_def)
  have Tx: "?T (unat x) = [x]" using f x hi by (simp add: follows_def)
  have code: "code < clearCode \<or> eofCode < code \<and> code \<le> w_hi w" using f by (simp add: follows_def)
  have d: "r_dict (learn r code) k = ?T k" if "eofCode < k" "k < w_hi w + 1" for k
  proof (cases "r_last r")
    case None
    then show ?thesis using that followsD(11) [OF f] by simp
  next
    case (Some l)
    then show ?thesis using that followsD(10) [OF f that(1)] followsD(14) [OF f Some] follows_expand [OF f followsD(13) [OF f Some]]
      by (auto simp: learn_fields(4) [OF f])
  qed
  have t: "eofCode < k \<and> k \<le> w_hi w + 1 \<and> c < k \<and> ?T k = ?T c @ [y]"
    if "((w_table w)((code, x) \<mapsto> w_hi w + 1)) (c, y) = Some k" for c y k
  proof (cases "(c, y) = (code, x)")
    case True
    then show ?thesis using that code hi by auto
  next
    case False
    then have "w_table w (c, y) = Some k" using that by (auto split: if_splits)
    from followsD(15) [OF f this] show ?thesis by auto
  qed
  have "follows ?T (w'\<lparr>w_table := (w_table w')((code, x) \<mapsto> w_hi w')\<rparr>) (unat x) (learn r code)"
    unfolding follows_def
  proof (intro conjI, goal_cases)
    case 9
    show ?case using followsD(9) [OF f] by simp
  next
    case 10
    show ?case using d by (simp add: w')
  next
    case 11
    show ?case using code hi Tx by (auto simp: learn_fields(3) [OF f] w')
  next
    case 12
    show ?case using t by (simp add: w')
  qed (use followsD(3-6,8) [OF f] hi x False follows_width [OF f] in \<open>auto simp: learn_fields(1,2) [OF f] w'\<close>)
  with w' Tx show ?thesis by (intro exI [of _ ?T]) simp
qed

lemma readLoop_writeLoop:
  "follows T w code r \<Longrightarrow> readLoop r (writeLoop w code xs @ rest) out = Some (out @ T code @ xs)"
proof (induction xs arbitrary: T w code r out)
  case Nil
  obtain bs ran_out w' where i: "incHi w = (bs, ran_out, w')" by (cases "incHi w")
  note e = read_emit [OF Nil i]
  have "9 \<le> w_width w'" using i Nil by (auto simp: incHi_def follows_def Let_def w_init_def split: if_splits)
  then have "(512::nat) \<le> 2 ^ w_width w'" using power_increasing [of 9 "w_width w'" "2::nat"] by simp
  then have "readLoop (learned w r code) (codeBits (w_width w') eofCode @ rest) (out @ T code) = Some (out @ T code)"
    using readLoop_code [of "learned w r code" eofCode] e(3) \<open>9 \<le> w_width w'\<close> by (simp add: eofCode_def clearCode_def)
  then show ?case using e(1) [of "codeBits (w_width w') eofCode @ rest" out] i by simp
next
  case (Cons x xs)
  show ?case
  proof (cases "w_table w (code, x)")
    case None
    obtain bs ran_out w' where i: "incHi w = (bs, ran_out, w')" by (cases "incHi w")
    obtain T' where "follows T' (if ran_out then w' else w'\<lparr>w_table := (w_table w')((code, x) \<mapsto> w_hi w')\<rparr>) (unat x) (learned w r code)"
      and "T' (unat x) = [x]" using follows_miss [OF Cons.prems i] by blast
    with Cons.IH [OF this(1)] show ?thesis using None i read_emit(1) [OF Cons.prems i] by (simp split del: if_split)
  next
    case (Some k)
    with Cons.IH [of T w k r out] follows_hit [OF Cons.prems Some] show ?thesis by simp
  qed
qed

lemma lzwRead_lzwWrite: "lzwRead (lzwWrite msg) = Some msg"
proof -
  let ?bs = "codeBits 9 clearCode @ (case msg of [] \<Rightarrow> codeBits 9 eofCode | x # xs \<Rightarrow> writeLoop w_init (unat x) xs)"
  obtain k where k: "concat (map byteBits (lzwWrite msg)) = ?bs @ replicate k False"
    using toBytes_bits [of ?bs] by (auto simp: lzwWrite_def)
  have c: "readLoop r_init (codeBits 9 clearCode @ rest) [] = readLoop r_init rest []" for rest
    using readLoop_code [of r_init clearCode rest "[]"] by (simp add: r_init_def clearCode_def)
  show ?thesis
  proof (cases msg)
    case Nil
    then show ?thesis using k c readLoop_code [of r_init eofCode _ "[]"]
      by (simp add: lzwRead_def) (simp add: r_init_def eofCode_def clearCode_def)
  next
    case (Cons x xs)
    have x: "unat x < clearCode" using unsigned_less [of x, where ?'a = nat] by (simp add: clearCode_def)
    have "follows (\<lambda>c. if c < clearCode then [of_nat c] else [0]) w_init (unat x) r_init"
      by (rule follows_init [OF x]) (simp_all add: r_init_def)
    from readLoop_writeLoop [OF this] show ?thesis using k c Cons x by (simp add: lzwRead_def)
  qed
qed

text \<open>The encoded text of the standard library's own test of the reader.\<close>

lemma lzwRead_tobe:
  "lzwRead [84, 158, 8, 41, 242, 68, 138, 147, 39, 84, 4, 18, 52, 184, 176, 224, 193, 132, 1, 1]
     = Some (map of_char ''TOBEORNOTTOBEORTOBEORNOT'')"
  by code_simp

end
