(* ===== verification/Packet.thy ===== *)
theory Packet
  imports Encrypt Config Lzw
begin

text \<open>
  How a message becomes a packet or a stream and back: compression of \<^verbatim>\<open>src/util.go\<close>, the
  checksum, and \<open>packUdp\<close>, \<open>unpackPacket\<close>, \<open>packTcp\<close>, \<open>unpackStream\<close> of
  \<^verbatim>\<open>src/net_transport.go\<close>. The compressor is the one of \<open>Lzw\<close>, and the checksum the CRC-32 of
  \<open>hash/crc32\<close>, bit by bit.
\<close>

section \<open>Compression\<close>

definition lzwAlgo :: byte where "lzwAlgo = 0"

definition decompress :: "compressed \<Rightarrow> bytes outcome" where
  "decompress c =
     (if z_Algo c \<noteq> lzwAlgo then Err (ErrUnknownAlgo (z_Algo c))
      else case lzwRead (z_Buf c) of None \<Rightarrow> Err ErrLzw | Some b \<Rightarrow> Ok b)"

definition compress :: "codec \<Rightarrow> bytes \<Rightarrow> bytes outcome" where
  "compress C msg =
     encode C compressMsg (P_compressed \<lparr>z_Algo = lzwAlgo, z_Buf = lzwWrite msg\<rparr>)"

definition decompressMsg :: "codec \<Rightarrow> bytes \<Rightarrow> bytes outcome" where
  "decompressMsg C msg = bind_outcome (decode (dec_compressed C) msg) decompress"

section \<open>Checksum\<close>

definition crcStep :: "u32 \<Rightarrow> u32" where
  "crcStep c = (if bit c 0 then drop_bit 1 c XOR 0xEDB88320 else drop_bit 1 c)"

definition crcByte :: "byte \<Rightarrow> u32 \<Rightarrow> u32" where
  "crcByte b c = (crcStep ^^ 8) (c XOR ucast b)"

definition crc32 :: "bytes \<Rightarrow> u32" where
  "crc32 bs = NOT (fold crcByte bs (NOT 0))"

section \<open>Packets\<close>

text \<open>The part \<open>packUdp\<close> and \<open>packTcp\<close> share: the compressed form, if it is shorter.\<close>

definition shrink :: "codec \<Rightarrow> Config \<Rightarrow> bytes \<Rightarrow> bytes outcome" where
  "shrink C cfg msg =
     (if c_EnableCompression cfg
      then bind_outcome (compress C msg) (\<lambda>compressed.
             Ok (if length compressed < length msg then compressed else msg))
      else Ok msg)"

definition packUdp :: "codec \<Rightarrow> Config \<Rightarrow> Keyring option \<Rightarrow> bytes outcome \<Rightarrow> bytes \<Rightarrow> bytes outcome" where
  "packUdp C cfg kr rnd msg0 =
     bind_outcome (shrink C cfg msg0) (\<lambda>msg1.
       let crc = crc32 msg1;
           msg = (tag hasCrcMsg # be32 crc) @ msg1
       in if EncryptionEnabled kr
          then encrypt (c_EncryptionVersion cfg) (GetPrimaryKey (the kr)) rnd msg (strBytes (c_Label cfg))
          else Ok msg)"

definition unpackPacket :: "codec \<Rightarrow> Keyring option \<Rightarrow> bytes \<Rightarrow> string \<Rightarrow> bytes outcome" where
  "unpackPacket C kr msg0 packetLabel =
     bind_outcome
       (if EncryptionEnabled kr
        then decryptWithKeys (GetKeys (the kr)) msg0 (strBytes packetLabel) else Ok msg0) (\<lambda>msg.
       if length msg < 5 \<or> msg ! 0 \<noteq> tag hasCrcMsg then Err ErrExpectCrc
       else let crc = crc32 (drop 5 msg);
                expected = rdSize (take 4 (drop 1 msg));
                msg1 = drop 5 msg
            in if crc \<noteq> expected then Err (ErrCrcInvalid expected crc)
               else if msg1 = [] then Panic IndexOutOfRange
               else if msg1 ! 0 = tag compressMsg then decompressMsg C (drop 1 msg1)
               else Ok msg1)"

section \<open>Streams\<close>

definition packTcp :: "codec \<Rightarrow> Config \<Rightarrow> Keyring option \<Rightarrow> bytes outcome \<Rightarrow> bytes \<Rightarrow> string \<Rightarrow> bytes outcome" where
  "packTcp C cfg kr rnd msg0 streamLabel =
     bind_outcome (shrink C cfg msg0) (\<lambda>msg.
       if EncryptionEnabled kr
       then encryptTcp (c_EncryptionVersion cfg) (GetPrimaryKey (the kr)) rnd msg streamLabel
       else Ok msg)"

text \<open>\<open>unpackStream\<close> returns the message type and the reader the decoder continues on.\<close>

definition unpackStream :: "codec \<Rightarrow> Keyring option \<Rightarrow> bytes \<Rightarrow> string \<Rightarrow> (byte \<times> bytes) outcome" where
  "unpackStream C kr conn streamLabel =
     (case conn of
        [] \<Rightarrow> Err ErrEOF
      | mtype0 # rest \<Rightarrow>
          (let encrypted = (mtype0 = tag encryptMsg);
               encryptionEnabled = EncryptionEnabled kr
           in if encryptionEnabled \<and> \<not> encrypted then Err ErrNotEncrypted
              else if \<not> encryptionEnabled \<and> encrypted then Err ErrEncrypted
              else bind_outcome
                (if encryptionEnabled \<and> encrypted
                 then bind_outcome (decryptTcp (GetKeys (the kr)) rest streamLabel) (\<lambda>(plain, _).
                        case plain of [] \<Rightarrow> Panic IndexOutOfRange | t # r \<Rightarrow> Ok (t, r))
                 else Ok (mtype0, rest)) (\<lambda>(mtype, connReader).
                if mtype = tag compressMsg
                then bind_outcome (decode (dec_compressed C) connReader) (\<lambda>c.
                     bind_outcome (decompress c) (\<lambda>data.
                       case data of [] \<Rightarrow> Panic IndexOutOfRange | t # r \<Rightarrow> Ok (t, r)))
                else Ok (mtype, connReader))))"

section \<open>The checksum detects a corrupted byte\<close>

lemma xor_twice: "x XOR (x XOR y) = y" for x y :: "'a::len word"
  by (simp flip: xor.assoc)

lemma xor_cancel: "x XOR y = x XOR z \<longleftrightarrow> y = z" "y XOR x = z XOR x \<longleftrightarrow> y = z"
  for x y z :: "'a::len word"
proof -
  show left: "x XOR y = x XOR z \<longleftrightarrow> y = z" for x y z :: "'a word"
    by (metis xor_twice)
  show "y XOR x = z XOR x \<longleftrightarrow> y = z" using left [of x y z] by (metis xor.commute)
qed

lemma crcStep_inj: "crcStep c = crcStep d \<Longrightarrow> c = d"
proof -
  assume eq: "crcStep c = crcStep d"
  have "\<not> bit x 32" for x :: u32 using bit_imp_le_length [of x 32] by auto
  then have top: "bit (crcStep x) 31 \<longleftrightarrow> bit x 0" for x
    by (simp add: crcStep_def bit_xor_iff bit_drop_bit_eq)
  have "bit c 0 = bit d 0" using top [of c] top [of d] eq by simp
  then have dr: "drop_bit 1 c = drop_bit 1 d"
    using eq by (auto simp: crcStep_def xor_cancel split: if_splits)
  show "c = d"
  proof (rule bit_word_eqI)
    fix n
    have "bit (drop_bit 1 c) (n - 1) = bit (drop_bit 1 d) (n - 1)" using dr by simp
    with \<open>bit c 0 = bit d 0\<close> show "bit c n = bit d n"
      by (cases n) (simp_all add: bit_drop_bit_eq)
  qed
qed

lemma crcStep8_inj: "inj (crcStep ^^ 8)"
  by (rule inj_fn) (rule injI, erule crcStep_inj)

lemma ucast_u32_inj:
  assumes "(ucast (b :: byte) :: u32) = ucast b'"
  shows "b = b'"
proof (rule bit_word_eqI)
  fix n assume "n < LENGTH(8)"
  moreover have "bit (ucast b :: u32) n = bit (ucast b' :: u32) n" using assms by simp
  ultimately show "bit b n = bit b' n" by (simp add: bit_ucast_iff)
qed

lemma fold_crcByte_inj: "fold crcByte bs c = fold crcByte bs d \<Longrightarrow> c = d"
proof (induction bs arbitrary: c d)
  case (Cons b bs)
  from Cons.prems have "fold crcByte bs (crcByte b c) = fold crcByte bs (crcByte b d)" by simp
  then have "crcByte b c = crcByte b d" by (rule Cons.IH)
  then have "(crcStep ^^ 8) (c XOR ucast b) = (crcStep ^^ 8) (d XOR ucast b)"
    by (simp only: crcByte_def)
  then have "c XOR ucast b = d XOR ucast b" by (rule injD [OF crcStep8_inj])
  then show ?case by (simp add: xor_cancel)
qed simp

lemma crc32_byte_changed:
  assumes "b \<noteq> b'"
  shows "crc32 (pre @ b # post) \<noteq> crc32 (pre @ b' # post)"
proof
  let ?c = "fold crcByte pre (NOT 0)"
  assume "crc32 (pre @ b # post) = crc32 (pre @ b' # post)"
  then have "fold crcByte post (crcByte b ?c) = fold crcByte post (crcByte b' ?c)"
    by (simp add: crc32_def)
  then have "crcByte b ?c = crcByte b' ?c" by (rule fold_crcByte_inj)
  then have "?c XOR ucast b = ?c XOR ucast b'"
    unfolding crcByte_def by (rule injD [OF crcStep8_inj])
  then have "b = b'" by (intro ucast_u32_inj) (simp add: xor_cancel)
  with assms show False ..
qed

section \<open>Round trips\<close>

text \<open>
  Sender and receiver agree: they both use encryption, with the sender's primary key the first the
  receiver tries, or neither does.
\<close>

definition keyrings_agree :: "Keyring option \<Rightarrow> Keyring option \<Rightarrow> bool" where
  "keyrings_agree ks kr \<longleftrightarrow> EncryptionEnabled ks = EncryptionEnabled kr
     \<and> (EncryptionEnabled ks \<longrightarrow> hd (GetKeys (the kr)) = GetPrimaryKey (the ks))"

lemma keyrings_agree_GetKeys:
  assumes "keyrings_agree ks kr" and "EncryptionEnabled kr"
  shows "GetKeys (the kr) = [] @ GetPrimaryKey (the ks) # tl (GetKeys (the kr))"
  using assms by (cases "GetKeys (the kr)") (auto simp: keyrings_agree_def EncryptionEnabled_def split: option.splits)

context codec_laws
begin

lemma decompressMsg_compress:
  assumes "compress C msg = Ok m"
  shows "\<exists>b. m = tag compressMsg # b \<and> decompressMsg C b = Ok msg"
proof -
  have z: "encode C compressMsg (P_compressed \<lparr>z_Algo = lzwAlgo, z_Buf = lzwWrite msg\<rparr>) = Ok m"
    using assms by (simp add: compress_def)
  then obtain b where "m = tag compressMsg # b" by (auto simp: encode_Ok)
  with z decode_compressed [OF z] show ?thesis
    by (simp add: decompressMsg_def decompress_def lzwRead_lzwWrite)
qed

text \<open>A shrunken message is the message itself or its compressed form.\<close>

lemma shrink_cases:
  assumes "shrink C cfg msg = Ok m" and "msg \<noteq> []"
  obtains (same) "m = msg" | (compressed) b where "m = tag compressMsg # b" "decompressMsg C b = Ok msg"
proof (cases "m = msg")
  case False
  then have "compress C msg = Ok m"
    using assms(1) by (auto simp: shrink_def bind_outcome_eq_Ok split: if_splits)
  then show thesis using decompressMsg_compress that(2) by blast
qed

lemma shrink_length: "shrink C cfg msg = Ok m \<Longrightarrow> length m \<le> length msg"
  by (auto simp: shrink_def bind_outcome_eq_Ok split: if_splits)

lemma unpack_checked:
  assumes sh: "shrink C cfg msg = Ok m" and msg: "msg \<noteq> []" "hd msg \<noteq> tag compressMsg"
    and off: "\<not> EncryptionEnabled kr"
  shows "unpackPacket C kr ((tag hasCrcMsg # be32 (crc32 m)) @ m) label = Ok msg"
proof -
  have "drop 5 ((tag hasCrcMsg # be32 (crc32 m)) @ m) = m" by (simp add: be32_def)
  moreover have "rdSize (take 4 (drop 1 ((tag hasCrcMsg # be32 (crc32 m)) @ m))) = crc32 m" by simp
  ultimately have "unpackPacket C kr ((tag hasCrcMsg # be32 (crc32 m)) @ m) label =
      (if m = [] then Panic IndexOutOfRange
       else if m ! 0 = tag compressMsg then decompressMsg C (drop 1 m) else Ok m)"
    unfolding unpackPacket_def Let_def using off by simp
  also have "\<dots> = Ok msg"
    using sh msg(1) by (cases rule: shrink_cases) (use msg in \<open>auto simp: hd_conv_nth\<close>)
  finally show ?thesis .
qed

lemma unpackPacket_packUdp:
  assumes pack: "packUdp C cfg ks (Ok nonce) msg = Ok p" and n: "length nonce = 12"
    and msg: "msg \<noteq> []" "hd msg \<noteq> tag compressMsg" and agree: "keyrings_agree ks kr"
  shows "unpackPacket C kr p (c_Label cfg) = Ok msg"
proof -
  obtain m where sh: "shrink C cfg msg = Ok m" using pack by (auto simp: packUdp_def bind_outcome_eq_Ok)
  let ?m = "(tag hasCrcMsg # be32 (crc32 m)) @ m"
  show ?thesis
  proof (cases "EncryptionEnabled kr")
    case False
    then have "p = ?m" using pack sh agree by (auto simp: packUdp_def keyrings_agree_def)
    with unpack_checked [OF sh msg False] show ?thesis by simp
  next
    case True
    then have "encrypt (c_EncryptionVersion cfg) (GetPrimaryKey (the ks)) (Ok nonce) ?m (strBytes (c_Label cfg)) = Ok p"
      using pack sh agree by (auto simp: packUdp_def keyrings_agree_def)
    then have "decryptWithKeys (GetKeys (the kr)) p (strBytes (c_Label cfg)) = Ok ?m"
      using n keyrings_agree_GetKeys [OF agree True] by (rule decryptWithKeys_encrypt) simp
    then have "unpackPacket C kr p (c_Label cfg) = unpackPacket C None ?m (c_Label cfg)"
      using True by (simp add: unpackPacket_def EncryptionEnabled_def)
    with unpack_checked [OF sh msg, of None] show ?thesis by (simp add: EncryptionEnabled_def)
  qed
qed

text \<open>The packet is at most five bytes and the encryption overhead longer than the message.\<close>

lemma packUdp_length:
  assumes "packUdp C cfg ks (Ok nonce) msg = Ok p" and "length nonce = 12"
  shows "length p \<le> length msg + 5 + (if EncryptionEnabled ks then 29 else 0)"
proof -
  obtain m where sh: "shrink C cfg msg = Ok m" using assms by (auto simp: packUdp_def bind_outcome_eq_Ok)
  show ?thesis
    using assms sh shrink_length [OF sh]
    by (auto simp: packUdp_def encrypt_Ok Let_def split: if_splits)
qed

end

context codec_laws
begin

lemma unpackStream_plain:
  assumes sh: "shrink C cfg (t # body) = Ok m" and t: "t \<noteq> tag compressMsg" "t \<noteq> tag encryptMsg"
    and off: "\<not> EncryptionEnabled kr"
  shows "\<exists>r. unpackStream C kr (m @ rest) label = Ok (t, body @ r)"
proof (cases "m = t # body")
  case True
  with t off show ?thesis by (simp add: unpackStream_def)
next
  case False
  let ?z = "\<lparr>z_Algo = lzwAlgo, z_Buf = lzwWrite (t # body)\<rparr>"
  have "encode C compressMsg (P_compressed ?z) = Ok m"
    using False sh by (auto simp: shrink_def compress_def bind_outcome_eq_Ok split: if_splits)
  then obtain b where b: "m = tag compressMsg # b" "enc C (P_compressed ?z) = Some b"
    by (auto simp: encode_Ok)
  have "decode (dec_compressed C) (b @ rest) = Ok ?z"
    using compressed [OF b(2)] by (simp add: decode_def)
  then have "unpackStream C kr (m @ rest) label = Ok (t, body)"
    using off by (simp add: unpackStream_def b(1) decompress_def lzwRead_lzwWrite)
  then show ?thesis by (metis append_Nil2)
qed

lemma unpackStream_packTcp:
  assumes pack: "packTcp C cfg ks (Ok nonce) (t # body) label = Ok p" and n: "length nonce = 12"
    and t: "t \<noteq> tag compressMsg" "t \<noteq> tag encryptMsg" and agree: "keyrings_agree ks kr"
    and small: "int (length body) + 30 \<le> maxPushSize"
  shows "\<exists>r. unpackStream C kr (p @ rest) label = Ok (t, body @ r)"
proof -
  obtain m where sh: "shrink C cfg (t # body) = Ok m" using pack by (auto simp: packTcp_def bind_outcome_eq_Ok)
  show ?thesis
  proof (cases "EncryptionEnabled kr")
    case False
    then have "p = m" using pack sh agree by (auto simp: packTcp_def keyrings_agree_def)
    with unpackStream_plain [OF sh t False] show ?thesis by simp
  next
    case True
    then have enc: "encryptTcp (c_EncryptionVersion cfg) (GetPrimaryKey (the ks)) (Ok nonce) m label = Ok p"
      using pack sh agree by (auto simp: packTcp_def keyrings_agree_def)
    have "int (length m) + 29 \<le> maxPushSize" using shrink_length [OF sh] small by simp
    moreover have "GetKeys (the kr) = GetPrimaryKey (the ks) # tl (GetKeys (the kr))"
      using keyrings_agree_GetKeys [OF agree True] by simp
    ultimately obtain r where r: "p = tag encryptMsg # r"
        "decryptTcp (GetKeys (the kr)) (r @ rest) label = Ok (m, rest)"
      using decryptTcp_encryptTcp [OF enc n] by blast
    obtain t1 m1 where m: "m = t1 # m1" and "t1 \<noteq> tag encryptMsg"
    proof (rule shrink_cases [OF sh])
      show "t # body \<noteq> []" by simp
    qed (use t(2) that in \<open>auto simp del: tag_simps\<close>)
    then have "unpackStream C kr (p @ rest) label = unpackStream C None (m @ []) label"
      using True by (simp add: unpackStream_def r m EncryptionEnabled_def)
    with unpackStream_plain [OF sh t, of None "[]" label] show ?thesis by (simp add: EncryptionEnabled_def)
  qed
qed

end

section \<open>Corrupted packets\<close>

lemma list_update_split:
  assumes "i < length p"
  shows "p[i := b] = take i p @ b # drop (Suc i) p" and "p = take i p @ p ! i # drop (Suc i) p"
  using assms by (simp_all add: upd_conv_take_nth_drop id_take_nth_drop)

lemma unpackPacket_bad_crc:
  assumes "\<not> EncryptionEnabled kr" and "length m = 4" and "rdSize m \<noteq> crc32 body"
  shows "unpackPacket C kr (tag hasCrcMsg # m @ body) label = Err (ErrCrcInvalid (rdSize m) (crc32 body))"
  using assms by (simp add: unpackPacket_def)

lemma byte_high_bits: "\<not> bit (b :: byte) (8 + n)" "\<not> bit b (16 + n)" "\<not> bit b (24 + n)"
  using bit_imp_le_length [of b] by fastforce+

lemma rdSize_changed:
  assumes "length m = 4" and "length m' = 4" and "rdSize m = rdSize m'"
  shows "m = m'"
proof -
  have be: "be32 (rdSize m) = m" if len: "length m = 4" for m
  proof -
    obtain a b c d where m: "m = [a, b, c, d]"
      using len by (auto simp: length_Suc_conv eval_nat_numeral)
    show ?thesis unfolding m be32_def rdSize.simps rd32_def
      by (auto intro!: bit_word_eqI simp: bit_simps byte_high_bits)
  qed
  with assms show ?thesis by metis
qed

lemma corrupted_byte_rejected:
  assumes off: "\<not> EncryptionEnabled kr" and p: "p = (tag hasCrcMsg # be32 (crc32 m)) @ m"
    and i: "i < length p" and b: "b \<noteq> p ! i"
  shows "\<exists>e. unpackPacket C kr (p[i := b]) label = Err e"
proof -
  consider (type) "i = 0" | (crc) j where "i = Suc j" "j < 4" | (body) j where "i = j + 5"
    by (metis add.commute add_Suc_right le_Suc_ex not0_implies_Suc not_less numeral_eq_Suc pred_numeral_simps(3) plus_1_eq_Suc Suc_eq_plus1)
  then show ?thesis
  proof cases
    case type
    then have "b \<noteq> tag hasCrcMsg" using b p by simp
    with type off show ?thesis by (simp add: p unpackPacket_def)
  next
    case (crc j)
    let ?h = "(be32 (crc32 m))[j := b]"
    have "p[i := b] = tag hasCrcMsg # ?h @ m" using crc by (simp add: p list_update_append)
    moreover have "?h \<noteq> be32 (crc32 m)"
      using b crc by (simp add: p nth_append) (metis length_be32 nth_list_update_eq)
    then have "rdSize ?h \<noteq> crc32 m"
      using rdSize_changed [of ?h "be32 (crc32 m)"] by auto
    ultimately show ?thesis using unpackPacket_bad_crc [OF off, of ?h m] by simp
  next
    case (body j)
    have j: "j < length m" using i body by (simp add: p)
    have "p[i := b] = tag hasCrcMsg # be32 (crc32 m) @ m[j := b]" 
      unfolding p list_update_append using body by simp
    moreover have "m ! j \<noteq> b" using b body unfolding p nth_append by simp
    then have "crc32 m \<noteq> crc32 (m[j := b])"
      using crc32_byte_changed [of "m ! j" b "take j m" "drop (Suc j) m"] list_update_split [OF j] by metis
    ultimately show ?thesis using unpackPacket_bad_crc [OF off, of "be32 (crc32 m)" "m[j := b]"] by simp
  qed
qed

lemma decompressMsg_no_panic: "decompressMsg C b \<noteq> Panic p"
  by (auto simp: decompressMsg_def decompress_def decode_def bind_outcome_eq_Panic split: option.splits prod.splits)

end
