(* ===== verification/LongRun.thy ===== *)
theory LongRun
  imports Wire
begin

text \<open>
  The manager of long-running messages of \<^verbatim>\<open>src/net_handlers.go\<close>: alive messages wait in a
  high-priority queue, suspect, dead and user messages in a low-priority one, and one handler
  goroutine takes them out. The manager's mutex is part of the state (\<open>lm_locked\<close>), because one
  return path leaves it locked; an operation that waits for the mutex forever is \<open>None\<close>.
\<close>

record longRunMsg =
  lm_type :: msgType
  lm_msg :: bytes
  lm_from :: UDPAddr

record longRunMsgManager =
  lm_high :: "longRunMsg list"
  lm_low :: "longRunMsg list"
  lm_maxQueueDepth :: int
  lm_locked :: bool

definition newLongRunMsgManager :: "int \<Rightarrow> longRunMsgManager" where
  "newLongRunMsgManager qDepth =
     \<lparr>lm_high = [], lm_low = [], lm_maxQueueDepth = qDepth, lm_locked = False\<rparr>"

definition isLongRunMsg :: "msgType \<Rightarrow> bool" where
  "isLongRunMsg t \<longleftrightarrow> t = aliveMsg \<or> t = suspectMsg \<or> t = deadMsg \<or> t = userMsg"

text \<open>
  \<open>queueLongRunMsg\<close> up to the release of the mutex; the wake-up that follows is a step of the
  handler system below. The error return comes before the unlock.
\<close>

definition queueLongRunMsg :: "msgType \<Rightarrow> bytes \<Rightarrow> UDPAddr \<Rightarrow> longRunMsgManager
    \<Rightarrow> (unit outcome \<times> longRunMsgManager) option" where
  "queueLongRunMsg t msg from mng =
     (if lm_locked mng then None
      else
        let queue = (if t = aliveMsg then lm_high mng else lm_low mng);
            item = \<lparr>lm_type = t, lm_msg = msg, lm_from = from\<rparr>
        in if int (length queue) \<ge> lm_maxQueueDepth mng
           then Some (Err ErrQueueFull, mng\<lparr>lm_locked := True\<rparr>)
           else Some (Ok (),
             if t = aliveMsg then mng\<lparr>lm_high := lm_high mng @ [item]\<rparr>
             else mng\<lparr>lm_low := lm_low mng @ [item]\<rparr>))"

definition getNextMsg :: "longRunMsgManager \<Rightarrow> (longRunMsg outcome \<times> longRunMsgManager) option" where
  "getNextMsg mng =
     (if lm_locked mng then None
      else if lm_high mng \<noteq> [] then
        Some (Ok (last (lm_high mng)), mng\<lparr>lm_high := butlast (lm_high mng)\<rparr>)
      else if lm_low mng \<noteq> [] then
        Some (Ok (last (lm_low mng)), mng\<lparr>lm_low := butlast (lm_low mng)\<rparr>)
      else Some (Err ErrNoLongRunMsg, mng))"

section \<open>Queueing and taking\<close>

definition longrun_wf :: "longRunMsgManager \<Rightarrow> bool" where
  "longrun_wf mng \<longleftrightarrow>
     int (length (lm_high mng)) \<le> max 0 (lm_maxQueueDepth mng)
     \<and> int (length (lm_low mng)) \<le> max 0 (lm_maxQueueDepth mng)
     \<and> (\<forall>m \<in> set (lm_high mng). lm_type m = aliveMsg)
     \<and> (\<forall>m \<in> set (lm_low mng). lm_type m \<noteq> aliveMsg)"

lemma newLongRunMsgManager_wf: "longrun_wf (newLongRunMsgManager d)"
  by (simp add: longrun_wf_def newLongRunMsgManager_def)

lemma queueLongRunMsg_wf:
  "longrun_wf mng \<Longrightarrow> queueLongRunMsg t msg from mng = Some (r, mng') \<Longrightarrow> longrun_wf mng'"
  by (auto simp: longrun_wf_def queueLongRunMsg_def Let_def split: if_splits)

lemma getNextMsg_wf: "longrun_wf mng \<Longrightarrow> getNextMsg mng = Some (r, mng') \<Longrightarrow> longrun_wf mng'"
  by (auto simp: longrun_wf_def getNextMsg_def split: if_splits dest!: in_set_butlastD)

text \<open>Every message that is queued is handed out exactly once: the multiset of waiting messages
  gains what is queued and loses what is taken.\<close>

definition waiting :: "longRunMsgManager \<Rightarrow> longRunMsg multiset" where
  "waiting mng = mset (lm_high mng) + mset (lm_low mng)"

lemma queueLongRunMsg_waiting:
  "queueLongRunMsg t msg from mng = Some (Ok (), mng') \<Longrightarrow>
   waiting mng' = add_mset \<lparr>lm_type = t, lm_msg = msg, lm_from = from\<rparr> (waiting mng)"
  by (auto simp: waiting_def queueLongRunMsg_def Let_def split: if_splits)

lemma mset_butlast_last: "xs \<noteq> [] \<Longrightarrow> mset xs = add_mset (last xs) (mset (butlast xs))"
  by (metis append_butlast_last_id mset_append mset_single_iff_right union_commute add_mset_add_single mset.simps)

lemma getNextMsg_waiting:
  "getNextMsg mng = Some (Ok m, mng') \<Longrightarrow> waiting mng = add_mset m (waiting mng')"
  by (auto simp: waiting_def getNextMsg_def split: if_splits simp: mset_butlast_last)

lemma getNextMsg_high_first:
  "\<not> lm_locked mng \<Longrightarrow> longrun_wf mng \<Longrightarrow> lm_high mng \<noteq> [] \<Longrightarrow>
   \<exists>m mng'. getNextMsg mng = Some (Ok m, mng') \<and> lm_type m = aliveMsg"
  by (auto simp: getNextMsg_def longrun_wf_def)

section \<open>The handler goroutine and its wake-ups\<close>

text \<open>
  \<open>runLongRunMsgHandler\<close> waits in its select, is woken through the unbuffered channel
  \<open>gotMsgCh\<close>, drains the queues, and goes back to the select when \<open>getNextMsg\<close> reports none. A
  producer, after releasing the mutex, attempts the wake-up without blocking: it only succeeds
  while the handler is in its select. \<open>sys_notifies\<close> counts the producers between the two.
\<close>

datatype handler_pc = AtSelect | Draining | Returning

record longrun_sys =
  sys_mng :: longRunMsgManager
  sys_pc :: handler_pc
  sys_notifies :: nat

definition longrun_init :: "int \<Rightarrow> longrun_sys" where
  "longrun_init d = \<lparr>sys_mng = newLongRunMsgManager d, sys_pc = AtSelect, sys_notifies = 0\<rparr>"

inductive longrun_step :: "longrun_sys \<Rightarrow> longrun_sys \<Rightarrow> bool" where
  enqueue: "isLongRunMsg t \<Longrightarrow> queueLongRunMsg t msg from (sys_mng s) = Some (Ok (), mng) \<Longrightarrow>
    longrun_step s (s\<lparr>sys_mng := mng, sys_notifies := Suc (sys_notifies s)\<rparr>)"
| reject: "isLongRunMsg t \<Longrightarrow> queueLongRunMsg t msg from (sys_mng s) = Some (Err e, mng) \<Longrightarrow>
    longrun_step s (s\<lparr>sys_mng := mng\<rparr>)"
| wake: "0 < sys_notifies s \<Longrightarrow> sys_pc s = AtSelect \<Longrightarrow>
    longrun_step s (s\<lparr>sys_pc := Draining, sys_notifies := sys_notifies s - 1\<rparr>)"
| miss: "0 < sys_notifies s \<Longrightarrow> sys_pc s \<noteq> AtSelect \<Longrightarrow>
    longrun_step s (s\<lparr>sys_notifies := sys_notifies s - 1\<rparr>)"
| take_msg: "sys_pc s = Draining \<Longrightarrow> getNextMsg (sys_mng s) = Some (Ok m, mng) \<Longrightarrow>
    longrun_step s (s\<lparr>sys_mng := mng\<rparr>)"
| drained: "sys_pc s = Draining \<Longrightarrow> getNextMsg (sys_mng s) = Some (Err e, mng) \<Longrightarrow>
    longrun_step s (s\<lparr>sys_mng := mng, sys_pc := Returning\<rparr>)"
| resume: "sys_pc s = Returning \<Longrightarrow> longrun_step s (s\<lparr>sys_pc := AtSelect\<rparr>)"

inductive_cases longrun_stepE: "longrun_step s s'"

lemma longrun_step_wf: "longrun_step s s' \<Longrightarrow> longrun_wf (sys_mng s) \<Longrightarrow> longrun_wf (sys_mng s')"
  by (erule longrun_stepE) (auto dest: queueLongRunMsg_wf getNextMsg_wf)

lemma longrun_reachable_wf: "longrun_step\<^sup>*\<^sup>* (longrun_init d) s \<Longrightarrow> longrun_wf (sys_mng s)"
  by (induction rule: rtranclp_induct)
     (auto simp: longrun_init_def newLongRunMsgManager_wf dest: longrun_step_wf)

text \<open>The mutex, once left locked, stays locked.\<close>

lemma longrun_step_locked: "longrun_step s s' \<Longrightarrow> lm_locked (sys_mng s) \<Longrightarrow> lm_locked (sys_mng s')"
  by (erule longrun_stepE) (auto simp: queueLongRunMsg_def getNextMsg_def)

lemma longrun_locked_frozen:
  "longrun_step\<^sup>*\<^sup>* s s' \<Longrightarrow> lm_locked (sys_mng s) \<Longrightarrow> sys_mng s' = sys_mng s"
proof (induction rule: rtranclp_induct)
  case (step y z)
  then have "lm_locked (sys_mng y)" by simp
  with step show ?case
    by (auto elim!: longrun_stepE simp: queueLongRunMsg_def getNextMsg_def)
qed simp

lemma longrun_run:
  "longrun_step s s1 \<Longrightarrow> longrun_step\<^sup>*\<^sup>* s1 s2 \<Longrightarrow> longrun_step\<^sup>*\<^sup>* s s2"
  by (rule converse_rtranclp_into_rtranclp)

end
