(* ===== verification/PingMng.thy ===== *)
theory PingMng
  imports Wire
begin

text \<open>
  The ping manager of \<^verbatim>\<open>src/ping.go\<close>: sequence numbers and the handlers waiting for an ack.

  A handler holds the channel its waiting goroutine reads, named by a number. Sends on these
  unbuffered channels are attempts that succeed only if the reader is waiting; the model records
  the attempts, oldest first, in \<open>pm_acks\<close> and \<open>pm_iacks\<close>. The counter a handler for indirect acks
  points at is a cell of the store \<open>pm_nacks\<close>. The timers that drop a handler after its timeout
  are the operations \<open>ackTimeout\<close> and \<open>indirectAckTimeout\<close>.
\<close>

record timedAck =
  ta_payload :: bytes
  ta_timestamp :: time

record indirectAckHandler =
  ih_ackCh :: chan
  ih_nNacks :: nat

record pingManager =
  pm_seqNo :: u32
  pm_ackHandlers :: "u32 \<Rightarrow> chan option"
  pm_indirectAckHandlers :: "u32 \<Rightarrow> indirectAckHandler option"
  pm_acks :: "(chan \<times> timedAck) list"
  pm_iacks :: "chan list"
  pm_nacks :: "nat \<Rightarrow> int"

definition newPingManager :: pingManager where
  "newPingManager =
     \<lparr>pm_seqNo = 0, pm_ackHandlers = Map.empty, pm_indirectAckHandlers = Map.empty,
      pm_acks = [], pm_iacks = [], pm_nacks = (\<lambda>_. 0)\<rparr>"

definition nextSeqNo :: "pingManager \<Rightarrow> u32 \<times> pingManager" where
  "nextSeqNo mng = (let n = pm_seqNo mng + 1 in (n, mng\<lparr>pm_seqNo := n\<rparr>))"

definition setAckHandler :: "u32 \<Rightarrow> chan \<Rightarrow> pingManager \<Rightarrow> pingManager" where
  "setAckHandler seqNo ch mng = mng\<lparr>pm_ackHandlers := (pm_ackHandlers mng)(seqNo \<mapsto> ch)\<rparr>"

definition ackTimeout :: "u32 \<Rightarrow> pingManager \<Rightarrow> pingManager" where
  "ackTimeout seqNo mng = mng\<lparr>pm_ackHandlers := (pm_ackHandlers mng)(seqNo := None)\<rparr>"

definition invokeAckHandler :: "ack \<Rightarrow> time \<Rightarrow> pingManager \<Rightarrow> pingManager" where
  "invokeAckHandler a timestamp mng =
     (let h = pm_ackHandlers mng (k_SeqNo a);
          mng1 = mng\<lparr>pm_ackHandlers := (pm_ackHandlers mng)(k_SeqNo a := None)\<rparr>
      in case h of
           None \<Rightarrow> mng1
         | Some ch \<Rightarrow>
             mng1\<lparr>pm_acks := pm_acks mng1 @
               [(ch, \<lparr>ta_payload = k_Payload a, ta_timestamp = timestamp\<rparr>)]\<rparr>)"

definition setIndirectAckHandler :: "u32 \<Rightarrow> chan \<Rightarrow> nat \<Rightarrow> pingManager \<Rightarrow> pingManager" where
  "setIndirectAckHandler seqNo ackCh nNacks mng =
     mng\<lparr>pm_indirectAckHandlers :=
       (pm_indirectAckHandlers mng)(seqNo \<mapsto> \<lparr>ih_ackCh = ackCh, ih_nNacks = nNacks\<rparr>)\<rparr>"

definition indirectAckTimeout :: "u32 \<Rightarrow> pingManager \<Rightarrow> pingManager" where
  "indirectAckTimeout seqNo mng =
     mng\<lparr>pm_indirectAckHandlers := (pm_indirectAckHandlers mng)(seqNo := None)\<rparr>"

definition invokeIndirectAckHandler :: "indirectAck \<Rightarrow> pingManager \<Rightarrow> pingManager" where
  "invokeIndirectAckHandler ina mng =
     (case pm_indirectAckHandlers mng (ia_SeqNo ina) of
        None \<Rightarrow> mng
      | Some h \<Rightarrow>
          if \<not> ia_Success ina then
            mng\<lparr>pm_nacks := (pm_nacks mng)(ih_nNacks h := wrap32 (pm_nacks mng (ih_nNacks h) + 1))\<rparr>
          else
            mng\<lparr>pm_indirectAckHandlers := (pm_indirectAckHandlers mng)(ia_SeqNo ina := None),
                pm_iacks := pm_iacks mng @ [ih_ackCh h]\<rparr>)"

section \<open>Handlers are used at most once\<close>

lemma nextSeqNo_simps [simp]:
  "fst (nextSeqNo mng) = pm_seqNo mng + 1" "pm_seqNo (snd (nextSeqNo mng)) = pm_seqNo mng + 1"
  by (simp_all add: nextSeqNo_def Let_def)

lemma invokeAckHandler_once:
  "pm_acks (invokeAckHandler b t' (invokeAckHandler a t mng)) = pm_acks (invokeAckHandler a t mng)"
  if "k_SeqNo b = k_SeqNo a"
  using that by (auto simp: invokeAckHandler_def Let_def split: option.splits)

lemma invokeAckHandler_timeout:
  "pm_acks (invokeAckHandler a t (ackTimeout (k_SeqNo a) mng)) = pm_acks mng"
  by (simp add: invokeAckHandler_def ackTimeout_def Let_def)

lemma invokeAckHandler_delivers:
  "pm_ackHandlers mng (k_SeqNo a) = Some ch \<Longrightarrow>
   pm_acks (invokeAckHandler a t mng)
     = pm_acks mng @ [(ch, \<lparr>ta_payload = k_Payload a, ta_timestamp = t\<rparr>)]"
  by (simp add: invokeAckHandler_def Let_def)

lemma invokeAckHandler_other:
  "s \<noteq> k_SeqNo a \<Longrightarrow> pm_ackHandlers (invokeAckHandler a t mng) s = pm_ackHandlers mng s"
  by (simp add: invokeAckHandler_def Let_def split: option.splits)

text \<open>The sequence numbers of up to \<open>2 ^ 32\<close> consecutive pings are distinct.\<close>

fun drawSeqNos :: "nat \<Rightarrow> pingManager \<Rightarrow> u32 list" where
  "drawSeqNos 0 mng = []"
| "drawSeqNos (Suc n) mng = (let (s, mng') = nextSeqNo mng in s # drawSeqNos n mng')"

lemma drawSeqNos_eq: "drawSeqNos n mng = map (\<lambda>i. pm_seqNo mng + of_nat i) [1..<Suc n]"
proof (induction n arbitrary: mng)
  case (Suc n)
  have "map (\<lambda>i. pm_seqNo mng + of_nat i) [1..<Suc (Suc n)]
    = (pm_seqNo mng + 1) # map (\<lambda>i. pm_seqNo mng + 1 + of_nat i) [1..<Suc n]"
    by (subst upt_conv_Cons) (auto simp: map_Suc_upt [symmetric] algebra_simps simp del: upt_Suc)
  with Suc show ?case by (simp add: nextSeqNo_def Let_def del: upt_Suc)
qed simp

lemma of_nat_word_inj:
  "i < 2 ^ LENGTH('a) \<Longrightarrow> j < 2 ^ LENGTH('a) \<Longrightarrow> (of_nat i :: 'a::len word) = of_nat j \<longleftrightarrow> i = j"
  by (metis unat_of_nat_small)

lemma drawSeqNos_distinct: "n < 2 ^ 32 \<Longrightarrow> distinct (drawSeqNos n mng)"
  unfolding drawSeqNos_eq distinct_map
  by (auto simp: inj_on_def of_nat_word_inj)

end
