(* ===== verification/State.thy ===== *)
theory State
  imports IPText Awareness Broadcast Suspicion Packet LongRun PingMng
begin

text \<open>
  The membership state and its transitions: \<^verbatim>\<open>src/state.go\<close>, the struct \<open>Memberlist\<close> of
  \<^verbatim>\<open>src/memberlist.go\<close> and the event manager of \<^verbatim>\<open>src/node_events.go\<close>.

  A \<open>*nodeState\<close> is shared between the slice \<open>nodes\<close> and the map \<open>nodeMap\<close>, and is updated in
  place: pointers are numbers, \<open>m_store\<close> is the store they point into, and \<open>m_next\<close> is the next
  pointer to be allocated. Each handler runs under the lock \<open>nodeL\<close> and is one function from the
  state to the new state. The current time, the drawn random number and the parameters of the
  third-party packages (\<open>'h env\<close>) are arguments. \<open>None\<close> as the result of a handler is a call that
  never returns. Channel sends are recorded: events in \<open>m_events\<close>, callbacks that \<open>Confirm\<close> starts
  in \<open>m_started\<close>, packets handed to the transport in \<open>m_sent\<close>, user messages in \<open>m_usrMsgCh\<close>, which is
  \<open>None\<close> if there is no channel. Log output is not modelled.

  The fields of \<open>'h env\<close>: the operations of the heap package, the msgpack codec, the floating-point
  functions, the compressor, the nonce drawn for the \<open>k\<close>-th packet, the error of writing it to the
  socket, and \<open>net.ParseIP\<close>.
\<close>

section \<open>Nodes\<close>

record Node =
  n_ID :: string
  n_IP :: IP
  n_Port :: u16
  n_Tags :: bytes

record nodeState =
  ns_Node :: Node
  ns_Lives :: u32
  ns_State :: StateType
  ns_StateChange :: time

definition DeadOrLeft :: "nodeState \<Rightarrow> bool" where
  "DeadOrLeft n \<longleftrightarrow> ns_State n = StateDead \<or> ns_State n = StateLeft"

definition UDPAddress :: "Node \<Rightarrow> UDPAddr" where
  "UDPAddress n = \<lparr>ua_IP = n_IP n, ua_Port = int (unat (n_Port n))\<rparr>"

section \<open>Events\<close>

datatype NodeEventType = NodeJoin | NodeLeave | NodeUpdate

primrec NodeEventType_String :: "NodeEventType \<Rightarrow> string" where
  "NodeEventType_String NodeJoin = ''join''"
| "NodeEventType_String NodeLeave = ''leave''"
| "NodeEventType_String NodeUpdate = ''update''"

record NodeEvent =
  ev_Type :: NodeEventType
  ev_Node :: Node

text \<open>\<open>em_ch\<close>: whether the channel is set.\<close>

record EventManager =
  em_ch :: bool
  em_timeout :: duration

section \<open>The memberlist\<close>

record 'h env =
  e_heap :: "'h heap_ops"
  e_codec :: codec
  e_flops :: flops
  e_nonce :: "nat \<Rightarrow> bytes outcome"
  e_write :: "nat \<Rightarrow> error option"

type_synonym ptr = nat

record 'h Memberlist =
  m_lives :: u32
  m_awr :: awareness
  m_config :: Config
  m_keyring :: "Keyring option"
  m_shutdown :: bool
  m_left :: bool
  m_mbroadcasts :: "'h TransmitCapQueue"
  m_ubroadcasts :: "(int \<Rightarrow> int \<Rightarrow> bytes list) option"
  m_longRunMng :: longRunMsgManager
  m_pingMng :: pingManager
  m_eventMng :: EventManager
  m_events :: "(NodeEvent \<times> duration) list"
  m_numPushPull :: u32
  m_store :: "ptr \<Rightarrow> nodeState"
  m_next :: ptr
  m_nodes :: "ptr list"
  m_nodeMap :: "string \<Rightarrow> ptr option"
  m_numNodes :: int
  m_suspicions :: "string \<Rightarrow> suspicion option"
  m_started :: "(string \<times> u32) list"
  m_probeIdx :: int
  m_sent :: "(UDPAddr \<times> bytes) list"
  m_usrMsgCh :: "bytes list option"

definition ID :: "'h Memberlist \<Rightarrow> string" where
  "ID m = c_ID (m_config m)"

definition hasLeft :: "'h Memberlist \<Rightarrow> bool" where
  "hasLeft m = m_left m"

definition GetNumNodes :: "'h Memberlist \<Rightarrow> int" where
  "GetNumNodes m = m_numNodes m"

definition send :: "NodeEvent \<Rightarrow> 'h Memberlist \<Rightarrow> 'h Memberlist" where
  "send e m =
     (if \<not> em_ch (m_eventMng m) then m
      else let timeout = (if em_timeout (m_eventMng m) = 0 then 5 * Second else em_timeout (m_eventMng m))
           in m\<lparr>m_events := m_events m @ [(e, timeout)]\<rparr>)"

definition NotifyJoin :: "Node \<Rightarrow> 'h Memberlist \<Rightarrow> 'h Memberlist" where
  "NotifyJoin n m = send \<lparr>ev_Type = NodeJoin, ev_Node = n\<rparr> m"

definition NotifyLeave :: "Node \<Rightarrow> 'h Memberlist \<Rightarrow> 'h Memberlist" where
  "NotifyLeave n m = send \<lparr>ev_Type = NodeLeave, ev_Node = n\<rparr> m"

definition NotifyUpdate :: "Node \<Rightarrow> 'h Memberlist \<Rightarrow> 'h Memberlist" where
  "NotifyUpdate n m = send \<lparr>ev_Type = NodeUpdate, ev_Node = n\<rparr> m"

definition broadcast :: "'h env \<Rightarrow> string \<Rightarrow> msgType \<Rightarrow> payload \<Rightarrow> chan option
    \<Rightarrow> 'h Memberlist \<Rightarrow> 'h Memberlist" where
  "broadcast E name t msg notify m =
     m\<lparr>m_mbroadcasts := QueueMsg (e_codec E) (e_heap E) name t msg notify (m_mbroadcasts m)\<rparr>"

definition setNode :: "ptr \<Rightarrow> nodeState \<Rightarrow> 'h Memberlist \<Rightarrow> 'h Memberlist" where
  "setNode p n m = m\<lparr>m_store := (m_store m)(p := n)\<rparr>"

text \<open>\<open>randIntN\<close> of \<^verbatim>\<open>src/util.go\<close>, given the drawn \<open>rand.Uint32()\<close>, for slices of fewer than
  \<open>2 ^ 32\<close> elements, whose length \<open>uint32(n)\<close> does not truncate.\<close>

definition randIntN :: "u32 \<Rightarrow> nat \<Rightarrow> nat" where
  "randIntN r n = (if n = 0 then 0 else unat r mod n)"

section \<open>Transitions\<close>

definition nextLiveNo :: "'h Memberlist \<Rightarrow> u32 \<times> 'h Memberlist" where
  "nextLiveNo m = (let l = m_lives m + 1 in (l, m\<lparr>m_lives := l\<rparr>))"

text \<open>
  \<open>aliveNode\<close>. The deferred calls (broadcast, join event, update event) run after the body, in
  this order.
\<close>

definition aliveNode :: "'h env \<Rightarrow> time \<Rightarrow> u32 \<Rightarrow> alive \<Rightarrow> chan option
    \<Rightarrow> 'h Memberlist \<Rightarrow> 'h Memberlist" where
  "aliveNode E now rnd a notify m =
     (let isLocalNode = (a_ID a = ID m) in
      if hasLeft m \<and> isLocalNode then m
      else if \<not> IPAllowed (m_config m) (a_IP a) then m
      else case m_nodeMap m (a_ID a) of
        None \<Rightarrow>
          (let node = \<lparr>ns_Node = \<lparr>n_ID = a_ID a, n_IP = a_IP a, n_Port = a_Port a, n_Tags = a_Tags a\<rparr>,
                       ns_Lives = a_Lives a, ns_State = StateAlive, ns_StateChange = now\<rparr>;
               p = m_next m;
               nodes = m_nodes m @ [p];
               n = length nodes - 1;
               idx = randIntN rnd n;
               m1 = (setNode p node m)\<lparr>m_next := p + 1,
                      m_nodeMap := (m_nodeMap m)(a_ID a \<mapsto> p),
                      m_nodes := swap idx n nodes,
                      m_numNodes := wrap32 (m_numNodes m + 1)\<rparr>
           in NotifyJoin (ns_Node node) (broadcast E (a_ID a) aliveMsg (P_alive a) notify m1))
      | Some p \<Rightarrow>
          (let node = m_store m p in
           if a_Lives a \<le> ns_Lives node then m
           else
             let m1 = m\<lparr>m_suspicions := (m_suspicions m)(a_ID a := None)\<rparr>;
                 notifyJoin = DeadOrLeft node;
                 notifyUpdate = (n_Tags (ns_Node node) \<noteq> a_Tags a);
                 node1 = node\<lparr>ns_Lives := a_Lives a,
                              ns_Node := (ns_Node node)\<lparr>n_Tags := a_Tags a\<rparr>\<rparr>;
                 node2 = (if ns_State node1 \<noteq> StateAlive
                          then node1\<lparr>ns_State := StateAlive, ns_StateChange := now\<rparr> else node1);
                 m2 = setNode p node2 m1;
                 m3 = broadcast E (n_ID (ns_Node node2)) aliveMsg (P_alive a) notify m2;
                 m4 = (if notifyJoin then NotifyJoin (ns_Node node2) m3 else m3)
             in if notifyUpdate then NotifyUpdate (ns_Node node2) m4 else m4))"

text \<open>The loop of \<open>refute\<close>; \<open>l\<close> is the number just drawn, which is also \<open>m.lives\<close>.\<close>

partial_function (option) refuteLoop :: "u32 \<Rightarrow> u32 \<Rightarrow> u32 option" where
  "refuteLoop lives l = (if l \<le> lives then refuteLoop lives (l + 1) else Some l)"

definition refute :: "'h env \<Rightarrow> ptr \<Rightarrow> u32 \<Rightarrow> 'h Memberlist \<Rightarrow> 'h Memberlist option" where
  "refute E p lives m =
     (case refuteLoop lives (m_lives m + 1) of
        None \<Rightarrow> None
      | Some l \<Rightarrow>
          (let node = (m_store m p)\<lparr>ns_Lives := l\<rparr>;
               m1 = (setNode p node m)\<lparr>m_lives := l, m_awr := Punish 1 (m_awr m)\<rparr>;
               a = \<lparr>a_Lives = l, a_ID = n_ID (ns_Node node), a_IP = n_IP (ns_Node node),
                    a_Port = n_Port (ns_Node node), a_Tags = n_Tags (ns_Node node)\<rparr>
           in Some (broadcast E (a_ID a) aliveMsg (P_alive a) None m1)))"

definition suspectNode :: "'h env \<Rightarrow> time \<Rightarrow> suspect \<Rightarrow> 'h Memberlist \<Rightarrow> 'h Memberlist option" where
  "suspectNode E now s m =
     (case m_nodeMap m (s_ID s) of
        None \<Rightarrow> Some m
      | Some p \<Rightarrow>
          (let node = m_store m p in
           if s_Lives s < ns_Lives node then Some m
           else case m_suspicions m (s_ID s) of
             Some sc \<Rightarrow>
               (let (new, sc', fire) = Confirm (e_flops E) now (s_From s) sc;
                    m1 = m\<lparr>m_suspicions := (m_suspicions m)(s_ID s \<mapsto> sc')\<rparr>;
                    m2 = (if fire then m1\<lparr>m_started := m_started m1 @ [(su_fnID sc', su_fnLives sc')]\<rparr> else m1)
                in Some (if new then broadcast E (s_ID s) suspectMsg (P_suspect s) None m2 else m2))
           | None \<Rightarrow>
               if ns_State node \<noteq> StateAlive then Some m
               else if s_ID s = ID m then refute E p (s_Lives s) m
               else
                 let m1 = broadcast E (s_ID s) suspectMsg (P_suspect s) None m;
                     m2 = setNode p (node\<lparr>ns_Lives := s_Lives s, ns_State := StateSuspect,
                                         ns_StateChange := now\<rparr>) m1;
                     cap0 = c_SuspicionMult (m_config m) - 1;
                     n = GetNumNodes m;
                     confirmCap = (if n - 1 < cap0 then 1 else cap0);
                     minTimeout = minSuspicionTimeout (e_flops E) (c_SuspicionMult (m_config m)) n
                                    (c_ProbeInterval (m_config m));
                     maxTimeout = wrap64 (c_SuspicionMaxTimeoutMult (m_config m) * minTimeout)
                 in Some (m2\<lparr>m_suspicions := (m_suspicions m2)(s_ID s \<mapsto>
                            newSuspicion now minTimeout maxTimeout confirmCap (s_From s)
                              (s_ID s) (s_Lives s))\<rparr>)))"

definition deadNode :: "'h env \<Rightarrow> time \<Rightarrow> dead \<Rightarrow> chan option \<Rightarrow> 'h Memberlist
    \<Rightarrow> 'h Memberlist option" where
  "deadNode E now d notify m =
     (case m_nodeMap m (d_ID d) of
        None \<Rightarrow> Some m
      | Some p \<Rightarrow>
          (let node = m_store m p in
           if d_Lives d < ns_Lives node \<or> DeadOrLeft node then Some m
           else if d_ID d = ID m \<and> \<not> hasLeft m then refute E p (d_Lives d) m
           else
             let m1 = m\<lparr>m_suspicions := (m_suspicions m)(d_ID d := None)\<rparr>;
                 m2 = broadcast E (d_ID d) deadMsg (P_dead d) notify m1;
                 node1 = node\<lparr>ns_Lives := d_Lives d,
                              ns_State := (if d_Left d then StateLeft else StateDead),
                              ns_StateChange := now\<rparr>;
                 m3 = setNode p node1 m2
             in Some (NotifyLeave (ns_Node node1) m3)))"

text \<open>
  The callback of a suspicion timer (\<open>timeoutFn\<close>): it captured the name and the lives of the
  suspect message. The first half, under the read lock, decides whether to go on.
\<close>

definition timeoutProceed :: "string \<Rightarrow> u32 \<Rightarrow> 'h Memberlist \<Rightarrow> dead option" where
  "timeoutProceed sID lives m =
     (case m_nodeMap m sID of
        None \<Rightarrow> None
      | Some p \<Rightarrow>
          (let node = m_store m p in
           if ns_State node = StateSuspect \<and> ns_Lives node = lives
           then Some \<lparr>d_Lives = ns_Lives node, d_ID = n_ID (ns_Node node), d_Left = False\<rparr>
           else None))"

definition timeoutFn :: "'h env \<Rightarrow> time \<Rightarrow> string \<Rightarrow> u32 \<Rightarrow> 'h Memberlist \<Rightarrow> 'h Memberlist option" where
  "timeoutFn E now sID lives m =
     (case timeoutProceed sID lives m of
        None \<Rightarrow> Some m
      | Some d \<Rightarrow> deadNode E now d None m)"

section \<open>The refutation loop\<close>

lemma refuteLoop_skip:
  "lives \<noteq> - 1 \<Longrightarrow> l \<le> lives \<Longrightarrow> refuteLoop lives l = Some (lives + 1)"
proof (induction "unat lives - unat l" arbitrary: l)
  case 0
  then have "l = lives" by (simp add: word_le_nat_alt word_unat_eq_iff)
  moreover have "\<not> lives + 1 \<le> lives" using word_less_succ [OF 0(2)] by simp
  then have "refuteLoop lives (lives + 1) = Some (lives + 1)"
    by (subst refuteLoop.simps) simp
  ultimately show ?case by (subst refuteLoop.simps) simp
next
  case (Suc n)
  then have lt: "l < lives" by (simp add: word_less_nat_alt)
  then have "l \<noteq> - 1" by (metis word_order.extremum_strict)
  then have "unat (l + 1) = unat l + 1" by (simp add: unat_succ)
  then have "refuteLoop lives (l + 1) = Some (lives + 1)"
    using Suc lt by (intro Suc.hyps(1)) (simp_all add: word_le_nat_alt word_less_nat_alt)
  with Suc.prems(2) show ?case by (subst refuteLoop.simps) simp
qed

lemma refuteLoop_eq:
  "lives \<noteq> - 1 \<Longrightarrow> refuteLoop lives l = Some (if l \<le> lives then lives + 1 else l)"
  using refuteLoop_skip by (cases "l \<le> lives") (simp, subst refuteLoop.simps, simp)

lemma refuteLoop_gt:
  "refuteLoop lives l = Some r \<Longrightarrow> lives < r"
  by (rule refuteLoop.raw_induct [of "\<lambda>lives l r. lives < r"]) (auto split: if_splits simp: not_le)

text \<open>No 32-bit number exceeds the largest one, so the loop does not end there.\<close>

lemma refuteLoop_max: "refuteLoop (- 1) l = None"
  using refuteLoop_gt [of "- 1" l] by (cases "refuteLoop (- 1) l") auto

end
