(* ===== verification/StateInv.thy ===== *)
theory StateInv
  imports State
begin

text \<open>
  The invariant of the membership state and what each transition of \<^verbatim>\<open>src/state.go\<close> does to it:
  the slice, the map and the store of nodes agree; a node is suspected exactly when it has a
  running suspicion, whose callback captured the node's name and lives; the local node is never
  suspected, and is alive until it leaves.
\<close>

section \<open>Fields left unchanged\<close>

lemma broadcast_simps [simp, frame_simps]:
  "m_lives (broadcast E nm t p c m) = m_lives m" "m_awr (broadcast E nm t p c m) = m_awr m"
  "m_config (broadcast E nm t p c m) = m_config m" "m_keyring (broadcast E nm t p c m) = m_keyring m"
  "m_shutdown (broadcast E nm t p c m) = m_shutdown m" "m_left (broadcast E nm t p c m) = m_left m"
  "m_longRunMng (broadcast E nm t p c m) = m_longRunMng m"
  "m_pingMng (broadcast E nm t p c m) = m_pingMng m"
  "m_eventMng (broadcast E nm t p c m) = m_eventMng m" "m_events (broadcast E nm t p c m) = m_events m"
  "m_store (broadcast E nm t p c m) = m_store m" "m_next (broadcast E nm t p c m) = m_next m"
  "m_nodes (broadcast E nm t p c m) = m_nodes m" "m_nodeMap (broadcast E nm t p c m) = m_nodeMap m"
  "m_numNodes (broadcast E nm t p c m) = m_numNodes m"
  "m_suspicions (broadcast E nm t p c m) = m_suspicions m"
  "m_started (broadcast E nm t p c m) = m_started m"
  "m_probeIdx (broadcast E nm t p c m) = m_probeIdx m" "m_sent (broadcast E nm t p c m) = m_sent m"
  by (simp_all add: broadcast_def)

lemma send_simps [simp, frame_simps]:
  "m_lives (send e m) = m_lives m" "m_awr (send e m) = m_awr m"
  "m_config (send e m) = m_config m" "m_keyring (send e m) = m_keyring m"
  "m_shutdown (send e m) = m_shutdown m" "m_left (send e m) = m_left m"
  "m_mbroadcasts (send e m) = m_mbroadcasts m" "m_longRunMng (send e m) = m_longRunMng m"
  "m_pingMng (send e m) = m_pingMng m" "m_eventMng (send e m) = m_eventMng m"
  "m_store (send e m) = m_store m" "m_next (send e m) = m_next m"
  "m_nodes (send e m) = m_nodes m" "m_nodeMap (send e m) = m_nodeMap m"
  "m_numNodes (send e m) = m_numNodes m" "m_suspicions (send e m) = m_suspicions m"
  "m_started (send e m) = m_started m" "m_probeIdx (send e m) = m_probeIdx m"
  "m_sent (send e m) = m_sent m"
  by (simp_all add: send_def Let_def)

lemmas notify_defs = NotifyJoin_def NotifyLeave_def NotifyUpdate_def

section \<open>The invariant\<close>

definition nid :: "'h Memberlist \<Rightarrow> ptr \<Rightarrow> string" where
  "nid m p = n_ID (ns_Node (m_store m p))"

definition lookup :: "'h Memberlist \<Rightarrow> string \<Rightarrow> nodeState option" where
  "lookup m i = map_option (m_store m) (m_nodeMap m i)"

definition table_wf :: "'h Memberlist \<Rightarrow> bool" where
  "table_wf m \<longleftrightarrow>
     distinct (m_nodes m)
     \<and> (\<forall>p \<in> set (m_nodes m). p < m_next m \<and> m_nodeMap m (nid m p) = Some p)
     \<and> (\<forall>i p. m_nodeMap m i = Some p \<longrightarrow> p \<in> set (m_nodes m) \<and> nid m p = i)
     \<and> m_numNodes m = wrap32 (int (length (m_nodes m)))"

definition susp_matches :: "string \<Rightarrow> nodeState \<Rightarrow> suspicion \<Rightarrow> bool" where
  "susp_matches i n s \<longleftrightarrow> su_fnID s = i \<and> su_fnLives s = ns_Lives n \<and> suspicion_wf s"

fun susp_at :: "string \<Rightarrow> nodeState option \<Rightarrow> suspicion option \<Rightarrow> bool" where
  "susp_at i None None = True"
| "susp_at i None (Some s) = False"
| "susp_at i (Some n) None = (ns_State n \<noteq> StateSuspect)"
| "susp_at i (Some n) (Some s) = (ns_State n = StateSuspect \<and> susp_matches i n s)"

definition susp_wf :: "'h Memberlist \<Rightarrow> bool" where
  "susp_wf m \<longleftrightarrow> (\<forall>i. susp_at i (lookup m i) (m_suspicions m i))"

definition local_wf :: "'h Memberlist \<Rightarrow> bool" where
  "local_wf m \<longleftrightarrow>
     (\<forall>n. lookup m (ID m) = Some n \<longrightarrow>
        ns_State n = StateAlive \<or> (m_left m \<and> DeadOrLeft n))"

definition member_wf :: "'h Memberlist \<Rightarrow> bool" where
  "member_wf m \<longleftrightarrow> table_wf m \<and> susp_wf m \<and> local_wf m"

lemma member_wf_cong:
  assumes "m_nodes m' = m_nodes m" "m_nodeMap m' = m_nodeMap m" "m_store m' = m_store m"
    "m_next m' = m_next m" "m_numNodes m' = m_numNodes m" "m_suspicions m' = m_suspicions m"
    "m_config m' = m_config m" "m_left m' = m_left m"
  shows "member_wf m' = member_wf m"
proof -
  have "lookup m' = lookup m" "nid m' = nid m" "ID m' = ID m"
    by (auto simp: lookup_def nid_def ID_def assms)
  with assms show ?thesis
    by (simp add: member_wf_def table_wf_def susp_wf_def local_wf_def)
qed

lemma lookup_cong [simp, frame_simps]:
  "lookup (broadcast E nm t p c m) = lookup m" "lookup (send e m) = lookup m"
  by (simp_all add: lookup_def fun_eq_iff)

lemma member_wf_frame [simp]:
  "member_wf (broadcast E nm t p c m) = member_wf m" "member_wf (send e m) = member_wf m"
  by (rule member_wf_cong; simp)+

lemma lookup_Some: "lookup m i = Some n \<longleftrightarrow> (\<exists>p. m_nodeMap m i = Some p \<and> m_store m p = n)"
  by (auto simp: lookup_def)

lemma member_wf_ptr:
  "member_wf m \<Longrightarrow> m_nodeMap m i = Some p \<Longrightarrow>
   p \<in> set (m_nodes m) \<and> n_ID (ns_Node (m_store m p)) = i \<and> p < m_next m"
  by (auto simp: member_wf_def table_wf_def nid_def)

lemma member_wf_lookup_ID: "member_wf m \<Longrightarrow> lookup m i = Some n \<Longrightarrow> n_ID (ns_Node n) = i"
  by (auto simp: lookup_Some dest: member_wf_ptr)

lemma member_wf_susp:
  assumes "member_wf m" and "lookup m i = Some n"
  shows "m_suspicions m i = None \<longleftrightarrow> ns_State n \<noteq> StateSuspect"
proof -
  have "susp_at i (lookup m i) (m_suspicions m i)"
    using assms(1) by (simp add: member_wf_def susp_wf_def)
  with assms(2) show ?thesis by (cases "m_suspicions m i") auto
qed

lemma member_wf_suspD:
  assumes "member_wf m" and "m_suspicions m i = Some s"
  obtains n where "lookup m i = Some n" "ns_State n = StateSuspect" "susp_matches i n s"
proof -
  have "susp_at i (lookup m i) (m_suspicions m i)"
    using assms(1) by (simp add: member_wf_def susp_wf_def)
  with assms(2) that show thesis by (cases "lookup m i") auto
qed

text \<open>Two names never share a node: updating one leaves the others alone.\<close>

lemma lookup_setNode:
  assumes "table_wf m" and "m_nodeMap m i = Some p"
  shows "lookup (setNode p n m) = (lookup m)(i \<mapsto> n)"
proof
  fix j
  have "nid m p = k" if "m_nodeMap m k = Some p" for k
    using assms(1) that by (simp add: table_wf_def)
  then have "m_nodeMap m j \<noteq> Some p" if "j \<noteq> i"
    using assms(2) that by metis
  then show "lookup (setNode p n m) j = ((lookup m)(i \<mapsto> n)) j"
    using assms(2) by (cases "m_nodeMap m j") (auto simp: lookup_def setNode_def)
qed

text \<open>
  The one way the transitions change a known node: its state, its suspicion and nothing else.
\<close>

lemma member_wf_update:
  assumes wf: "member_wf m" and p: "m_nodeMap m i = Some p"
    and same: "n_ID (ns_Node n) = i"
    and susp: "susp_at i (Some n) sc"
    and local: "i = ID m \<Longrightarrow> ns_State n = StateAlive \<or> (m_left m \<and> DeadOrLeft n)"
  shows "member_wf ((setNode p n m)\<lparr>m_suspicions := (m_suspicions m)(i := sc)\<rparr>)"
proof -
  let ?m = "(setNode p n m)\<lparr>m_suspicions := (m_suspicions m)(i := sc)\<rparr>"
  have tab: "table_wf m" using wf by (simp add: member_wf_def)
  have l: "lookup ?m = (lookup m)(i \<mapsto> n)"
    using lookup_setNode [OF tab p, of n] by (auto simp: lookup_def fun_eq_iff)
  have nid: "nid ?m q = nid m q" for q
    using member_wf_ptr [OF wf p] same by (simp add: nid_def setNode_def)
  have "table_wf ?m"
    using tab nid by (simp add: table_wf_def) (simp add: setNode_def)
  moreover have "susp_wf ?m"
    unfolding susp_wf_def l using wf susp by (simp add: member_wf_def susp_wf_def)
  moreover have "local_wf ?m"
    unfolding local_wf_def l using wf local
    by (auto simp: member_wf_def local_wf_def ID_def setNode_def split: if_splits)
  ultimately show ?thesis by (simp add: member_wf_def)
qed

text \<open>Adding a node under a new name.\<close>

lemma randIntN_less: "0 < n \<Longrightarrow> randIntN r n < n"
  by (simp add: randIntN_def)

lemma randIntN_le: "randIntN r n \<le> n"
  by (cases "n = 0") (simp_all add: randIntN_def less_imp_le)

definition addNode :: "u32 \<Rightarrow> nodeState \<Rightarrow> 'h Memberlist \<Rightarrow> 'h Memberlist" where
  "addNode rnd node m =
     (setNode (m_next m) node m)\<lparr>m_next := m_next m + 1,
        m_nodeMap := (m_nodeMap m)(n_ID (ns_Node node) \<mapsto> m_next m),
        m_nodes := swap (randIntN rnd (length (m_nodes m))) (length (m_nodes m)) (m_nodes m @ [m_next m]),
        m_numNodes := wrap32 (m_numNodes m + 1)\<rparr>"

lemma set_addNode [simp]: "set (m_nodes (addNode rnd node m)) = insert (m_next m) (set (m_nodes m))"
  and length_addNode [simp]: "length (m_nodes (addNode rnd node m)) = Suc (length (m_nodes m))"
  and mset_addNode: "mset (m_nodes (addNode rnd node m)) = add_mset (m_next m) (mset (m_nodes m))"
  using randIntN_le [of rnd "length (m_nodes m)"]
  by (simp_all add: addNode_def set_swap_lists less_Suc_eq_le)

lemma lookup_addNode:
  assumes "table_wf m" and "m_nodeMap m (n_ID (ns_Node node)) = None"
  shows "lookup (addNode rnd node m) = (lookup m)(n_ID (ns_Node node) \<mapsto> node)"
proof
  fix i
  have "p \<noteq> m_next m" if "m_nodeMap m i = Some p" for p
    using assms(1) that by (auto simp: table_wf_def)
  then show "lookup (addNode rnd node m) i = ((lookup m)(n_ID (ns_Node node) \<mapsto> node)) i"
    by (cases "m_nodeMap m i") (auto simp: lookup_def addNode_def setNode_def)
qed

lemma table_wf_add:
  assumes tab: "table_wf m" and new: "m_nodeMap m (n_ID (ns_Node node)) = None"
  shows "table_wf (addNode rnd node m)"
proof -
  let ?m = "addNode rnd node m" and ?i = "n_ID (ns_Node node)"
  have fresh: "m_next m \<notin> set (m_nodes m)" using tab by (auto simp: table_wf_def)
  have id: "nid ?m p = (if p = m_next m then ?i else nid m p)" for p
    by (simp add: nid_def addNode_def setNode_def)
  have map: "m_nodeMap ?m = (m_nodeMap m)(?i \<mapsto> m_next m)"
    and nxt: "m_next ?m = Suc (m_next m)" and num: "m_numNodes ?m = wrap32 (m_numNodes m + 1)"
    by (simp_all add: addNode_def)
  have "distinct (m_nodes ?m)"
    using mset_addNode [of rnd node m] tab fresh
    by (metis distinct.simps(2) mset.simps(2) mset_eq_imp_distinct_iff table_wf_def)
  moreover have "p < Suc (m_next m) \<and> m_nodeMap ?m (nid ?m p) = Some p" if "p \<in> set (m_nodes ?m)" for p
  proof (cases "p = m_next m")
    case False
    with that have "p \<in> set (m_nodes m)" by simp
    with tab have "p < m_next m" "m_nodeMap m (nid m p) = Some p" by (simp_all add: table_wf_def)
    with new False show ?thesis by (auto simp: id map)
  qed (simp add: id map)
  moreover have "p \<in> set (m_nodes ?m) \<and> nid ?m p = j" if "m_nodeMap ?m j = Some p" for j p
  proof (cases "j = ?i")
    case False
    with that have "m_nodeMap m j = Some p" by (simp add: map)
    with tab have "p \<in> set (m_nodes m)" "nid m p = j" by (simp_all add: table_wf_def)
    with fresh show ?thesis by (auto simp: id)
  qed (use that in \<open>simp add: id map\<close>)
  moreover have "wrap32 (m_numNodes m + 1) = wrap32 (int (length (m_nodes ?m)))"
  proof -
    have "int (length (m_nodes ?m)) = int (length (m_nodes m)) + 1" by simp
    with tab show ?thesis by (simp only: table_wf_def wrap32_add)
  qed
  ultimately show ?thesis unfolding table_wf_def nxt num by blast
qed

lemma member_wf_add:
  assumes wf: "member_wf m" and new: "m_nodeMap m (n_ID (ns_Node node)) = None"
    and alive: "ns_State node = StateAlive"
  shows "member_wf (addNode rnd node m)"
proof -
  let ?m = "addNode rnd node m" and ?i = "n_ID (ns_Node node)"
  have tab: "table_wf m" using wf by (simp add: member_wf_def)
  note l = lookup_addNode [OF tab new, of rnd]
  have susp: "m_suspicions ?m = m_suspicions m" by (simp add: addNode_def setNode_def)
  have at: "susp_at j (lookup m j) (m_suspicions m j)" for j
    using wf by (simp add: member_wf_def susp_wf_def)
  from at [of ?i] new have "m_suspicions m ?i = None"
    by (cases "m_suspicions m ?i") (simp_all add: lookup_def)
  then have "susp_wf ?m"
    using at alive by (simp add: susp_wf_def l susp)
  moreover have "ID ?m = ID m" "m_left ?m = m_left m" by (simp_all add: ID_def addNode_def setNode_def)
  then have "local_wf ?m"
    unfolding local_wf_def l using wf alive by (auto simp: member_wf_def local_wf_def)
  ultimately show ?thesis using table_wf_add [OF tab new] by (simp add: member_wf_def)
qed

end
