(* ===== verification/StateOps.thy ===== *)
theory StateOps
  imports StateInv
begin

text \<open>
  What the transitions of \<^verbatim>\<open>src/state.go\<close> do. The abstract state of the membership is the view
  \<open>lookup m\<close>, a finite map from names to nodes; \<open>alive_spec\<close>, \<open>suspect_spec\<close> and \<open>dead_spec\<close> are
  the transitions of the protocol on views, and the handlers refine them. All transitions preserve
  the invariant \<open>member_wf\<close> and move every node up in the precedence order of lives and states.
\<close>

section \<open>The transitions on views\<close>

type_synonym view = "string \<Rightarrow> nodeState option"

definition freshNode :: "time \<Rightarrow> alive \<Rightarrow> nodeState" where
  "freshNode now a =
     \<lparr>ns_Node = \<lparr>n_ID = a_ID a, n_IP = a_IP a, n_Port = a_Port a, n_Tags = a_Tags a\<rparr>,
      ns_Lives = a_Lives a, ns_State = StateAlive, ns_StateChange = now\<rparr>"

definition revived :: "time \<Rightarrow> alive \<Rightarrow> nodeState \<Rightarrow> nodeState" where
  "revived now a n =
     n\<lparr>ns_Lives := a_Lives a, ns_Node := (ns_Node n)\<lparr>n_Tags := a_Tags a\<rparr>,
       ns_State := StateAlive,
       ns_StateChange := (if ns_State n = StateAlive then ns_StateChange n else now)\<rparr>"

definition suspected :: "time \<Rightarrow> u32 \<Rightarrow> nodeState \<Rightarrow> nodeState" where
  "suspected now l n = n\<lparr>ns_Lives := l, ns_State := StateSuspect, ns_StateChange := now\<rparr>"

definition buried :: "time \<Rightarrow> dead \<Rightarrow> nodeState \<Rightarrow> nodeState" where
  "buried now d n =
     n\<lparr>ns_Lives := d_Lives d, ns_State := (if d_Left d then StateLeft else StateDead),
       ns_StateChange := now\<rparr>"

definition alive_spec :: "time \<Rightarrow> alive \<Rightarrow> view \<Rightarrow> view" where
  "alive_spec now a V =
     (case V (a_ID a) of
        None \<Rightarrow> V(a_ID a \<mapsto> freshNode now a)
      | Some n \<Rightarrow> if a_Lives a \<le> ns_Lives n then V else V(a_ID a \<mapsto> revived now a n))"

definition suspect_spec :: "time \<Rightarrow> suspect \<Rightarrow> view \<Rightarrow> view" where
  "suspect_spec now s V =
     (case V (s_ID s) of
        None \<Rightarrow> V
      | Some n \<Rightarrow> if s_Lives s < ns_Lives n \<or> ns_State n \<noteq> StateAlive then V
                  else V(s_ID s \<mapsto> suspected now (s_Lives s) n))"

definition dead_spec :: "time \<Rightarrow> dead \<Rightarrow> view \<Rightarrow> view" where
  "dead_spec now d V =
     (case V (d_ID d) of
        None \<Rightarrow> V
      | Some n \<Rightarrow> if d_Lives d < ns_Lives n \<or> DeadOrLeft n then V
                  else V(d_ID d \<mapsto> buried now d n))"

text \<open>An accusation of the local node is answered with a higher number of lives.\<close>

definition refute_spec :: "string \<Rightarrow> u32 \<Rightarrow> view \<Rightarrow> view" where
  "refute_spec i l V = (case V i of None \<Rightarrow> V | Some n \<Rightarrow> V(i \<mapsto> n\<lparr>ns_Lives := l\<rparr>))"

lemma spec_nodes_simps [simp]:
  "ns_Lives (freshNode now a) = a_Lives a" "ns_State (freshNode now a) = StateAlive"
  "n_ID (ns_Node (freshNode now a)) = a_ID a"
  "ns_Lives (revived now a n) = a_Lives a" "ns_State (revived now a n) = StateAlive"
  "n_ID (ns_Node (revived now a n)) = n_ID (ns_Node n)"
  "n_Tags (ns_Node (revived now a n)) = a_Tags a"
  "n_IP (ns_Node (revived now a n)) = n_IP (ns_Node n)"
  "n_Port (ns_Node (revived now a n)) = n_Port (ns_Node n)"
  "ns_Lives (suspected now l n) = l" "ns_State (suspected now l n) = StateSuspect"
  "ns_Node (suspected now l n) = ns_Node n"
  "ns_Lives (buried now d n) = d_Lives d" "DeadOrLeft (buried now d n)"
  "ns_Node (buried now d n) = ns_Node n" "ns_State (buried now d n) \<noteq> StateSuspect"
  "ns_State (buried now d n) \<noteq> StateAlive"
  by (simp_all add: freshNode_def revived_def suspected_def buried_def DeadOrLeft_def)

lemma DeadOrLeft_simps [simp]:
  "ns_State n = StateAlive \<Longrightarrow> \<not> DeadOrLeft n" "ns_State n = StateSuspect \<Longrightarrow> \<not> DeadOrLeft n"
  by (simp_all add: DeadOrLeft_def)

section \<open>The handlers, branch by branch\<close>

definition updNode :: "string \<Rightarrow> ptr \<Rightarrow> nodeState \<Rightarrow> suspicion option \<Rightarrow> 'h Memberlist
    \<Rightarrow> 'h Memberlist" where
  "updNode i p n sc m = (setNode p n m)\<lparr>m_suspicions := (m_suspicions m)(i := sc)\<rparr>"

text \<open>A message about the local node after it left, or from an address outside the allowed
  networks, is not admitted.\<close>

definition admits :: "'h Memberlist \<Rightarrow> alive \<Rightarrow> bool" where
  "admits m a \<longleftrightarrow> \<not> (m_left m \<and> a_ID a = ID m) \<and> IPAllowed (m_config m) (a_IP a)"

definition announce :: "bool \<Rightarrow> bool \<Rightarrow> Node \<Rightarrow> 'h Memberlist \<Rightarrow> 'h Memberlist" where
  "announce join update n m =
     (let m' = (if join then NotifyJoin n m else m) in if update then NotifyUpdate n m' else m')"

lemma aliveNode_ignored:
  "\<not> admits m a \<Longrightarrow> aliveNode E now rnd a notify m = m"
  by (auto simp: aliveNode_def admits_def hasLeft_def Let_def)

lemma aliveNode_stale:
  "lookup m (a_ID a) = Some n \<Longrightarrow> a_Lives a \<le> ns_Lives n \<Longrightarrow> aliveNode E now rnd a notify m = m"
  by (auto simp: aliveNode_def Let_def lookup_Some)

lemma aliveNode_new:
  assumes "admits m a" and "m_nodeMap m (a_ID a) = None"
  shows "aliveNode E now rnd a notify m =
    NotifyJoin (ns_Node (freshNode now a))
      (broadcast E (a_ID a) aliveMsg (P_alive a) notify (addNode rnd (freshNode now a) m))"
proof (cases "m_left m")
  case True
  with assms have "a_ID a \<noteq> ID m" "IPAllowed (m_config m) (a_IP a)" by (simp_all add: admits_def)
  with assms(2) show ?thesis by (simp add: aliveNode_def Let_def addNode_def freshNode_def)
next
  case False
  with assms have "\<not> hasLeft m" "IPAllowed (m_config m) (a_IP a)"
    by (simp_all add: admits_def hasLeft_def)
  with assms(2) show ?thesis by (simp add: aliveNode_def Let_def addNode_def freshNode_def)
qed

lemma revived_eq:
  "revived now a n =
     (let n1 = n\<lparr>ns_Lives := a_Lives a, ns_Node := (ns_Node n)\<lparr>n_Tags := a_Tags a\<rparr>\<rparr>
      in if ns_State n1 \<noteq> StateAlive then n1\<lparr>ns_State := StateAlive, ns_StateChange := now\<rparr> else n1)"
  by (cases n) (simp add: revived_def)

lemma aliveNode_old:
  assumes "admits m a" and "m_nodeMap m (a_ID a) = Some p" and "ns_Lives (m_store m p) < a_Lives a"
  shows "aliveNode E now rnd a notify m =
    announce (DeadOrLeft (m_store m p)) (n_Tags (ns_Node (m_store m p)) \<noteq> a_Tags a)
      (ns_Node (revived now a (m_store m p)))
      (broadcast E (n_ID (ns_Node (m_store m p))) aliveMsg (P_alive a) notify
        (updNode (a_ID a) p (revived now a (m_store m p)) None m))"
  (is "_ = announce ?j ?u ?N (broadcast E ?i aliveMsg (P_alive a) notify ?m)")
proof -
  let ?n = "m_store m p"
  have live: "\<not> a_Lives a \<le> ns_Lives ?n" using assms(3) by simp
  have upd: "setNode p n (m\<lparr>m_suspicions := (m_suspicions m)(a_ID a := None)\<rparr>) = updNode (a_ID a) p n None m"
    for n by (simp add: setNode_def updNode_def)
  have go: "aliveNode E now rnd a notify m =
      announce ?j ?u (ns_Node n2) (broadcast E (n_ID (ns_Node n2)) aliveMsg (P_alive a) notify
        (updNode (a_ID a) p n2 None m))"
    if "n2 = (let n1 = ?n\<lparr>ns_Lives := a_Lives a, ns_Node := (ns_Node ?n)\<lparr>n_Tags := a_Tags a\<rparr>\<rparr>
      in if ns_State n1 \<noteq> StateAlive then n1\<lparr>ns_State := StateAlive, ns_StateChange := now\<rparr> else n1)"
    for n2
  proof (cases "m_left m")
    case True
    with assms have "a_ID a \<noteq> ID m" "IPAllowed (m_config m) (a_IP a)" by (simp_all add: admits_def)
    with assms(2) live show ?thesis
      unfolding aliveNode_def announce_def that Let_def by (simp add: upd)
  next
    case False
    with assms have "\<not> hasLeft m" "IPAllowed (m_config m) (a_IP a)"
      by (simp_all add: admits_def hasLeft_def)
    with assms(2) live show ?thesis
      unfolding aliveNode_def announce_def that Let_def by (simp add: upd)
  qed
  show ?thesis using go [OF revived_eq] by simp
qed

definition refuteNo :: "u32 \<Rightarrow> u32 \<Rightarrow> u32" where
  "refuteNo lives own = (if own + 1 \<le> lives then lives + 1 else own + 1)"

definition refuted :: "'h env \<Rightarrow> ptr \<Rightarrow> u32 \<Rightarrow> 'h Memberlist \<Rightarrow> 'h Memberlist" where
  "refuted E p l m =
     (let N = ns_Node (m_store m p) in
      broadcast E (n_ID N) aliveMsg
        (P_alive \<lparr>a_Lives = l, a_ID = n_ID N, a_IP = n_IP N, a_Port = n_Port N, a_Tags = n_Tags N\<rparr>) None
        ((setNode p ((m_store m p)\<lparr>ns_Lives := l\<rparr>) m)\<lparr>m_lives := l, m_awr := Punish 1 (m_awr m)\<rparr>))"

lemma refute_eq:
  "refute E p lives m = (if lives = - 1 then None else Some (refuted E p (refuteNo lives (m_lives m)) m))"
  by (simp add: refute_def refuteLoop_max refuteLoop_eq refuted_def refuteNo_def Let_def)

lemma refuteNo_gt: "lives \<noteq> - 1 \<Longrightarrow> lives < refuteNo lives own"
  by (simp add: refuteNo_def word_less_succ not_le)

lemma suspectNode_ignored:
  "lookup m (s_ID s) = None \<Longrightarrow> suspectNode E now s m = Some m"
  "lookup m (s_ID s) = Some n \<Longrightarrow> s_Lives s < ns_Lives n \<Longrightarrow> suspectNode E now s m = Some m"
  by (auto simp: suspectNode_def lookup_def Let_def)

lemma suspectNode_dead:
  assumes "member_wf m" and "lookup m (s_ID s) = Some n" and "DeadOrLeft n"
  shows "suspectNode E now s m = Some m"
proof -
  have "m_suspicions m (s_ID s) = None" "ns_State n \<noteq> StateAlive"
    using member_wf_susp [OF assms(1,2)] assms(3) by (auto simp: DeadOrLeft_def)
  with assms(2) show ?thesis by (auto simp: suspectNode_def lookup_Some Let_def)
qed

definition firstSuspicion :: "'h env \<Rightarrow> time \<Rightarrow> suspect \<Rightarrow> 'h Memberlist \<Rightarrow> suspicion" where
  "firstSuspicion E now s m =
     (let mult = c_SuspicionMult (m_config m);
          minTimeout = minSuspicionTimeout (e_flops E) mult (GetNumNodes m) (c_ProbeInterval (m_config m))
      in newSuspicion now minTimeout
           (wrap64 (c_SuspicionMaxTimeoutMult (m_config m) * minTimeout))
           (if GetNumNodes m - 1 < mult - 1 then 1 else mult - 1) (s_From s) (s_ID s) (s_Lives s))"

lemma suspectNode_first:
  assumes "m_nodeMap m (s_ID s) = Some p" and "ns_Lives (m_store m p) \<le> s_Lives s"
    and "m_suspicions m (s_ID s) = None" and "ns_State (m_store m p) = StateAlive" and "s_ID s \<noteq> ID m"
  shows "suspectNode E now s m = Some (broadcast E (s_ID s) suspectMsg (P_suspect s) None
      (updNode (s_ID s) p (suspected now (s_Lives s) (m_store m p)) (Some (firstSuspicion E now s m)) m))"
  using assms
  by (simp add: suspectNode_def Let_def not_less updNode_def suspected_def firstSuspicion_def
      broadcast_def setNode_def)

lemma suspectNode_local:
  assumes "m_nodeMap m (s_ID s) = Some p" and "ns_Lives (m_store m p) \<le> s_Lives s"
    and "m_suspicions m (s_ID s) = None" and "ns_State (m_store m p) = StateAlive" and "s_ID s = ID m"
  shows "suspectNode E now s m = refute E p (s_Lives s) m"
  using assms by (simp add: suspectNode_def Let_def not_less [symmetric])

definition confirmed :: "'h env \<Rightarrow> time \<Rightarrow> suspect \<Rightarrow> suspicion \<Rightarrow> 'h Memberlist \<Rightarrow> 'h Memberlist" where
  "confirmed E now s sc m =
     (let (new, sc', fire) = Confirm (e_flops E) now (s_From s) sc;
          m1 = m\<lparr>m_suspicions := (m_suspicions m)(s_ID s \<mapsto> sc'),
                 m_started := (if fire then m_started m @ [(su_fnID sc', su_fnLives sc')] else m_started m)\<rparr>
      in if new then broadcast E (s_ID s) suspectMsg (P_suspect s) None m1 else m1)"

lemma suspectNode_confirm:
  assumes "m_nodeMap m (s_ID s) = Some p" and "ns_Lives (m_store m p) \<le> s_Lives s"
    and "m_suspicions m (s_ID s) = Some sc"
  shows "suspectNode E now s m = Some (confirmed E now s sc m)"
  using assms by (simp add: suspectNode_def Let_def not_less confirmed_def split: prod.splits)

lemma deadNode_ignored:
  "lookup m (d_ID d) = None \<Longrightarrow> deadNode E now d notify m = Some m"
  "lookup m (d_ID d) = Some n \<Longrightarrow> d_Lives d < ns_Lives n \<or> DeadOrLeft n \<Longrightarrow>
   deadNode E now d notify m = Some m"
  by (auto simp: deadNode_def lookup_def Let_def)

lemma deadNode_local:
  assumes "m_nodeMap m (d_ID d) = Some p" and "ns_Lives (m_store m p) \<le> d_Lives d"
    and "\<not> DeadOrLeft (m_store m p)" and "d_ID d = ID m" and "\<not> m_left m"
  shows "deadNode E now d notify m = refute E p (d_Lives d) m"
  using assms by (simp add: deadNode_def Let_def not_less [symmetric] hasLeft_def)

lemma deadNode_bury:
  assumes "m_nodeMap m (d_ID d) = Some p" and "ns_Lives (m_store m p) \<le> d_Lives d"
    and "\<not> DeadOrLeft (m_store m p)" and "d_ID d \<noteq> ID m \<or> m_left m"
  shows "deadNode E now d notify m = Some (NotifyLeave (ns_Node (m_store m p))
      (broadcast E (d_ID d) deadMsg (P_dead d) notify
        (updNode (d_ID d) p (buried now d (m_store m p)) None m)))"
proof -
  have "(d_ID d = ID m \<and> \<not> hasLeft m) = False" using assms(4) by (auto simp: hasLeft_def)
  moreover have "setNode p n (broadcast E i t x c (m\<lparr>m_suspicions := f\<rparr>))
      = broadcast E i t x c ((setNode p n m)\<lparr>m_suspicions := f\<rparr>)" for n i t x c f
    by (simp add: broadcast_def setNode_def)
  ultimately show ?thesis
    unfolding deadNode_def assms(1) option.case Let_def updNode_def
    using assms(2,3) by (simp only: if_False not_less [symmetric]) (simp add: buried_def)
qed

section \<open>Refinement of the views\<close>

lemma announce_simps [simp, frame_simps]:
  "lookup (announce j u N m) = lookup m" "member_wf (announce j u N m) = member_wf m"
  "m_config (announce j u N m) = m_config m" "m_left (announce j u N m) = m_left m"
  "m_lives (announce j u N m) = m_lives m"
  by (simp_all add: announce_def notify_defs Let_def)

lemma updNode_simps [simp, frame_simps]:
  "m_config (updNode i p n sc m) = m_config m" "m_left (updNode i p n sc m) = m_left m"
  "m_lives (updNode i p n sc m) = m_lives m"
  "m_suspicions (updNode i p n sc m) = (m_suspicions m)(i := sc)"
  by (simp_all add: updNode_def setNode_def)

lemma addNode_simps [simp, frame_simps]:
  "m_config (addNode rnd n m) = m_config m" "m_left (addNode rnd n m) = m_left m"
  "m_lives (addNode rnd n m) = m_lives m"
  by (simp_all add: addNode_def setNode_def)

lemma refuted_simps [simp, frame_simps]:
  "m_config (refuted E p l m) = m_config m" "m_left (refuted E p l m) = m_left m"
  "m_lives (refuted E p l m) = l" "m_suspicions (refuted E p l m) = m_suspicions m"
  by (simp_all add: refuted_def setNode_def Let_def)

lemma confirmed_simps [simp, frame_simps]:
  "lookup (confirmed E now s sc m) = lookup m" "m_config (confirmed E now s sc m) = m_config m"
  "m_left (confirmed E now s sc m) = m_left m" "m_lives (confirmed E now s sc m) = m_lives m"
  by (simp_all add: confirmed_def lookup_def Let_def fun_eq_iff split: prod.splits)

lemma lookup_updNode:
  "member_wf m \<Longrightarrow> m_nodeMap m i = Some p \<Longrightarrow> lookup (updNode i p n sc m) = (lookup m)(i \<mapsto> n)"
  using lookup_setNode [of m i p n] by (auto simp: updNode_def member_wf_def lookup_def fun_eq_iff)

lemma member_wf_updNode:
  "\<lbrakk>member_wf m; m_nodeMap m i = Some p; n_ID (ns_Node n) = i; susp_at i (Some n) sc;
    i = ID m \<Longrightarrow> ns_State n = StateAlive \<or> (m_left m \<and> DeadOrLeft n)\<rbrakk>
   \<Longrightarrow> member_wf (updNode i p n sc m)"
  unfolding updNode_def by (rule member_wf_update)

lemma refuted_updNode:
  assumes "m_suspicions m i = None"
  shows "lookup (refuted E p l m) = lookup (updNode i p ((m_store m p)\<lparr>ns_Lives := l\<rparr>) None m)"
    and "member_wf (refuted E p l m) = member_wf (updNode i p ((m_store m p)\<lparr>ns_Lives := l\<rparr>) None m)"
proof -
  have [simp]: "(m_suspicions m)(i := None) = m_suspicions m" using assms by (simp add: fun_eq_iff)
  show "lookup (refuted E p l m) = lookup (updNode i p ((m_store m p)\<lparr>ns_Lives := l\<rparr>) None m)"
    by (simp add: refuted_def updNode_def setNode_def Let_def) (simp add: lookup_def fun_eq_iff)
  show "member_wf (refuted E p l m) = member_wf (updNode i p ((m_store m p)\<lparr>ns_Lives := l\<rparr>) None m)"
    by (rule member_wf_cong) (simp_all add: refuted_def updNode_def setNode_def Let_def)
qed

lemma newSuspicion_matches:
  "susp_matches (s_ID s) (suspected now (s_Lives s) n) (firstSuspicion E now s m)"
  using newSuspicion_wf by (simp add: susp_matches_def firstSuspicion_def Let_def newSuspicion_def)

lemma Confirm_matches:
  "Confirm F now from sc = (new, sc', fire) \<Longrightarrow> susp_matches i n sc \<Longrightarrow> susp_matches i n sc'"
  using Confirm_frame(5,6) [of F now "from" sc new sc' fire] Confirm_wf [of sc F now "from" new sc' fire]
  by (simp add: susp_matches_def)

lemma confirmed_wf:
  assumes wf: "member_wf m" and p: "m_nodeMap m (s_ID s) = Some p" and sc: "m_suspicions m (s_ID s) = Some sc"
  shows "member_wf (confirmed E now s sc m)"
proof -
  obtain new sc' fire where C: "Confirm (e_flops E) now (s_From s) sc = (new, sc', fire)"
    by (cases "Confirm (e_flops E) now (s_From s) sc") auto
  let ?m = "updNode (s_ID s) p (m_store m p) (Some sc') m"
  have l: "lookup m (s_ID s) = Some (m_store m p)" using p by (simp add: lookup_def)
  obtain n where "lookup m (s_ID s) = Some n" "ns_State n = StateSuspect" "susp_matches (s_ID s) n sc"
    using member_wf_suspD [OF wf sc] .
  with l have n: "ns_State (m_store m p) = StateSuspect" "susp_matches (s_ID s) (m_store m p) sc" by simp_all
  have "s_ID s \<noteq> ID m"
    using wf l n(1) by (auto simp: member_wf_def local_wf_def DeadOrLeft_def)
  then have "member_wf ?m"
    using n Confirm_matches [OF C n(2)] member_wf_ptr [OF wf p]
    by (intro member_wf_updNode [OF wf p]) simp_all
  moreover have "member_wf (confirmed E now s sc m) = member_wf ?m"
    by (rule member_wf_cong) (simp_all add: confirmed_def C updNode_def setNode_def Let_def)
  ultimately show ?thesis by simp
qed

definition accused :: "'h Memberlist \<Rightarrow> string \<Rightarrow> u32 \<Rightarrow> bool" where
  "accused m i l \<longleftrightarrow>
     i = ID m \<and> (case lookup m i of None \<Rightarrow> False | Some n \<Rightarrow> ns_State n = StateAlive \<and> ns_Lives n \<le> l)"

lemma aliveNode_view_wf:
  assumes wf: "member_wf m"
  shows "lookup (aliveNode E now rnd a notify m)
           = (if admits m a then alive_spec now a (lookup m) else lookup m)"
    and "member_wf (aliveNode E now rnd a notify m)"
proof -
  let ?m = "aliveNode E now rnd a notify m"
  have tab: "table_wf m" using wf by (simp add: member_wf_def)
  have "lookup ?m = (if admits m a then alive_spec now a (lookup m) else lookup m) \<and> member_wf ?m"
  proof (cases "admits m a")
    case False
    with wf show ?thesis by (simp add: aliveNode_ignored)
  next
    case ok: True
    show ?thesis
    proof (cases "m_nodeMap m (a_ID a)")
      case None
      then have "lookup m (a_ID a) = None" by (simp add: lookup_def)
      with None ok wf show ?thesis
        by (simp add: aliveNode_new notify_defs lookup_addNode tab member_wf_add alive_spec_def)
    next
      case (Some p)
      let ?n = "m_store m p"
      have l: "lookup m (a_ID a) = Some ?n" using Some by (simp add: lookup_def)
      show ?thesis
      proof (cases "a_Lives a \<le> ns_Lives ?n")
        case True
        with wf ok l show ?thesis by (simp add: aliveNode_stale alive_spec_def)
      next
        case False
        moreover have "member_wf (updNode (a_ID a) p (revived now a ?n) None m)"
          using member_wf_ptr [OF wf Some] by (intro member_wf_updNode [OF wf Some]) simp_all
        ultimately show ?thesis
          using Some ok l wf by (simp add: aliveNode_old lookup_updNode alive_spec_def)
      qed
    qed
  qed
  then show "lookup ?m = (if admits m a then alive_spec now a (lookup m) else lookup m)"
    and "member_wf ?m" by simp_all
qed

text \<open>What \<open>refute\<close> does to a well-formed state in which the local node is alive.\<close>

lemma refuted_view_wf:
  assumes wf: "member_wf m" and p: "m_nodeMap m i = Some p" and alive: "ns_State (m_store m p) = StateAlive"
  shows "lookup (refuted E p l m) = refute_spec i l (lookup m)"
    and "member_wf (refuted E p l m)"
proof -
  have l: "lookup m i = Some (m_store m p)" using p by (simp add: lookup_def)
  have s: "m_suspicions m i = None" using member_wf_susp [OF wf l] alive by simp
  show "lookup (refuted E p l m) = refute_spec i l (lookup m)"
    using l by (simp add: refuted_updNode(1) [OF s] lookup_updNode [OF wf p] refute_spec_def)
  show "member_wf (refuted E p l m)"
    unfolding refuted_updNode(2) [OF s]
    using alive member_wf_ptr [OF wf p] by (intro member_wf_updNode [OF wf p]) simp_all
qed

lemma suspectNode_view_wf:
  assumes wf: "member_wf m"
  shows "map_option lookup (suspectNode E now s m) =
      (if accused m (s_ID s) (s_Lives s)
       then if s_Lives s = - 1 then None
            else Some (refute_spec (s_ID s) (refuteNo (s_Lives s) (m_lives m)) (lookup m))
       else Some (suspect_spec now s (lookup m)))
    \<and> pred_option member_wf (suspectNode E now s m)"
proof (cases "m_nodeMap m (s_ID s)")
  case None
  then have "lookup m (s_ID s) = None" by (simp add: lookup_def)
  with wf show ?thesis by (simp add: suspectNode_ignored accused_def suspect_spec_def)
next
  case (Some p)
  let ?n = "m_store m p"
  have l: "lookup m (s_ID s) = Some ?n" using Some by (simp add: lookup_def)
  note id = member_wf_ptr [OF wf Some] and susp = member_wf_susp [OF wf l]
  consider (stale) "s_Lives s < ns_Lives ?n" | (susp) sc where "ns_Lives ?n \<le> s_Lives s" "m_suspicions m (s_ID s) = Some sc"
    | (gone) "m_suspicions m (s_ID s) = None" "ns_State ?n \<noteq> StateAlive"
    | (live) "ns_Lives ?n \<le> s_Lives s" "m_suspicions m (s_ID s) = None" "ns_State ?n = StateAlive"
    by (meson not_less not_None_eq)
  then show ?thesis
  proof cases
    case stale
    with l wf show ?thesis by (auto simp: suspectNode_ignored accused_def suspect_spec_def)
  next
    case (susp sc)
    then have st: "ns_State ?n = StateSuspect" using member_wf_susp [OF wf l] by simp
    have "member_wf (confirmed E now s sc m)" by (rule confirmed_wf [OF wf Some susp(2)])
    with susp st l Some show ?thesis by (simp add: suspectNode_confirm accused_def suspect_spec_def)
  next
    case gone
    then have "suspectNode E now s m = Some m"
      using Some by (simp add: suspectNode_def Let_def)
    with gone l wf show ?thesis by (simp add: accused_def suspect_spec_def)
  next
    case live
    show ?thesis
    proof (cases "s_ID s = ID m")
      case True
      with live l wf Some refuted_view_wf [OF wf Some live(3)] show ?thesis
        by (simp add: suspectNode_local [OF Some live True] refute_eq accused_def)
    next
      case False
      have "member_wf (updNode (s_ID s) p (suspected now (s_Lives s) ?n) (Some (firstSuspicion E now s m)) m)"
        using id False newSuspicion_matches by (intro member_wf_updNode [OF wf Some]) simp_all
      with False live l show ?thesis
        by (simp add: suspectNode_first [OF Some live False] lookup_updNode [OF wf Some] accused_def
            suspect_spec_def not_less [symmetric])
    qed
  qed
qed

lemma deadNode_view_wf:
  assumes wf: "member_wf m"
  shows "map_option lookup (deadNode E now d notify m) =
      (if accused m (d_ID d) (d_Lives d) \<and> \<not> m_left m
       then if d_Lives d = - 1 then None
            else Some (refute_spec (d_ID d) (refuteNo (d_Lives d) (m_lives m)) (lookup m))
       else Some (dead_spec now d (lookup m)))
    \<and> pred_option member_wf (deadNode E now d notify m)"
proof (cases "m_nodeMap m (d_ID d)")
  case None
  then have "lookup m (d_ID d) = None" by (simp add: lookup_def)
  with wf show ?thesis by (simp add: deadNode_ignored accused_def dead_spec_def)
next
  case (Some p)
  let ?n = "m_store m p"
  have l: "lookup m (d_ID d) = Some ?n" using Some by (simp add: lookup_def)
  note id = member_wf_ptr [OF wf Some]
  consider (ignored) "d_Lives d < ns_Lives ?n \<or> DeadOrLeft ?n"
    | (own) "ns_Lives ?n \<le> d_Lives d" "\<not> DeadOrLeft ?n" "d_ID d = ID m" "\<not> m_left m"
    | (bury) "ns_Lives ?n \<le> d_Lives d" "\<not> DeadOrLeft ?n" "d_ID d \<noteq> ID m \<or> m_left m"
    by (meson not_less)
  then show ?thesis
  proof cases
    case ignored
    with l wf show ?thesis
      by (auto simp: deadNode_ignored accused_def dead_spec_def DeadOrLeft_def)
  next
    case own
    then have alive: "ns_State ?n = StateAlive"
      using wf l by (auto simp: member_wf_def local_wf_def)
    with own l refuted_view_wf [OF wf Some alive] show ?thesis
      by (simp add: deadNode_local [OF Some own] refute_eq accused_def)
  next
    case bury
    have "member_wf (updNode (d_ID d) p (buried now d ?n) None m)"
      using id bury by (intro member_wf_updNode [OF wf Some]) auto
    moreover have "\<not> (accused m (d_ID d) (d_Lives d) \<and> \<not> m_left m)"
      using bury by (auto simp: accused_def)
    ultimately show ?thesis
      using bury l
      by (auto simp: deadNode_bury [OF Some bury] lookup_updNode [OF wf Some] dead_spec_def notify_defs)
  qed
qed

text \<open>The timer of a suspicion: only the suspicion it belongs to, at the lives it was started for,
  lets it declare the node dead.\<close>

lemma timeoutFn_stale:
  assumes "\<not> (\<exists>n. lookup m i = Some n \<and> ns_State n = StateSuspect \<and> ns_Lives n = l)"
  shows "timeoutFn E now i l m = Some m"
  using assms by (auto simp: timeoutFn_def timeoutProceed_def lookup_def Let_def split: option.splits)

lemma timeoutFn_current:
  assumes wf: "member_wf m" and n: "lookup m i = Some n" "ns_State n = StateSuspect" "ns_Lives n = l"
  shows "map_option lookup (timeoutFn E now i l m)
     = Some ((lookup m)(i \<mapsto> buried now \<lparr>d_Lives = l, d_ID = i, d_Left = False\<rparr> n))"
proof -
  let ?d = "\<lparr>d_Lives = l, d_ID = i, d_Left = False\<rparr>"
  have "timeoutProceed i l m = Some ?d"
    using n member_wf_lookup_ID [OF wf n(1)] by (auto simp: timeoutProceed_def lookup_Some Let_def)
  then have "timeoutFn E now i l m = deadNode E now ?d None m" by (simp add: timeoutFn_def)
  moreover have "\<not> accused m i l" using n by (auto simp: accused_def)
  ultimately show ?thesis
    using deadNode_view_wf [OF wf, of E now ?d None] n by (simp add: dead_spec_def)
qed

lemma timeoutFn_wf:
  assumes "member_wf m"
  shows "pred_option member_wf (timeoutFn E now i l m)"
  using assms deadNode_view_wf [OF assms] by (simp add: timeoutFn_def split: option.split)

end
