(* ===== verification/Gossip.thy ===== *)
theory Gossip
  imports StateOps
begin

text \<open>
  Sequences of membership messages. The contracts of the operations on the membership state are
  the locales \<open>member_op\<close> (the invariant and the configuration are kept) and \<open>gossip_op\<close> (known
  nodes keep their name and address and only move up in the precedence order); the handlers of
  \<^verbatim>\<open>src/state.go\<close> are instances, and so is their union \<open>handle\<close>, whose runs are the histories of
  a node that only processes membership messages and suspicion timers.
\<close>

section \<open>Precedence\<close>

text \<open>Among messages of the same lives, an accusation overrides a life sign, and a death is final.\<close>

fun rank :: "StateType \<Rightarrow> nat" where
  "rank StateAlive = 0"
| "rank StateSuspect = 1"
| "rank StateDead = 2"
| "rank StateLeft = 2"
| "rank (StateOther _) = 0"

lemma rank_le: "rank st \<le> 2"
  by (cases st) simp_all

definition precedes :: "nodeState \<Rightarrow> nodeState \<Rightarrow> bool" where
  "precedes n n' \<longleftrightarrow> ns_Lives n < ns_Lives n'
     \<or> (ns_Lives n = ns_Lives n' \<and> rank (ns_State n) \<le> rank (ns_State n'))"

definition same_address :: "nodeState \<Rightarrow> nodeState \<Rightarrow> bool" where
  "same_address n n' \<longleftrightarrow> n_ID (ns_Node n) = n_ID (ns_Node n') \<and> n_IP (ns_Node n) = n_IP (ns_Node n')
     \<and> n_Port (ns_Node n) = n_Port (ns_Node n')"

definition view_le :: "view \<Rightarrow> view \<Rightarrow> bool" where
  "view_le V V' \<longleftrightarrow> (\<forall>i n. V i = Some n \<longrightarrow> (\<exists>n'. V' i = Some n' \<and> precedes n n' \<and> same_address n n'))"

lemma precedes_refl [simp]: "precedes n n"
  and precedes_trans: "precedes a b \<Longrightarrow> precedes b c \<Longrightarrow> precedes a c"
  by (auto simp: precedes_def)

lemma view_le_refl [simp]: "view_le V V"
  by (simp add: view_le_def same_address_def)

lemma same_address_trans: "same_address a b \<Longrightarrow> same_address b c \<Longrightarrow> same_address a c"
  by (simp add: same_address_def)

lemma view_le_trans: "view_le U V \<Longrightarrow> view_le V W \<Longrightarrow> view_le U W"
  unfolding view_le_def by (blast intro: precedes_trans same_address_trans)

lemma same_address_refl [simp]: "same_address n n"
  by (simp add: same_address_def)

lemma view_le_upd:
  assumes "\<And>n0. V i = Some n0 \<Longrightarrow> precedes n0 n \<and> same_address n0 n"
  shows "view_le V (V(i \<mapsto> n))"
  using assms by (auto simp: view_le_def)

lemma alive_spec_inflates: "view_le V (alive_spec now a V)"
  by (auto simp: alive_spec_def precedes_def same_address_def not_le split: option.split intro!: view_le_upd)

lemma suspect_spec_inflates: "view_le V (suspect_spec now s V)"
  by (auto simp: suspect_spec_def precedes_def same_address_def not_less order_le_less
      split: option.split intro!: view_le_upd)

lemma dead_spec_inflates: "view_le V (dead_spec now d V)"
proof (cases "V (d_ID d)")
  case (Some n)
  have "precedes n (buried now d n)" if "\<not> d_Lives d < ns_Lives n"
    using that rank_le by (auto simp: precedes_def buried_def not_less order_le_less)
  with Some show ?thesis
    by (auto simp: dead_spec_def same_address_def intro!: view_le_upd)
qed (simp add: dead_spec_def)

lemma refute_spec_inflates:
  "(\<And>n. V i = Some n \<Longrightarrow> ns_Lives n < l) \<Longrightarrow> view_le V (refute_spec i l V)"
  unfolding refute_spec_def
  by (auto split: option.split intro!: view_le_upd simp: precedes_def same_address_def)

section \<open>Contracts of the operations\<close>

primrec runOps :: "('i \<Rightarrow> 's \<Rightarrow> 's option) \<Rightarrow> 'i list \<Rightarrow> 's \<Rightarrow> 's option" where
  "runOps op [] m = Some m"
| "runOps op (x # xs) m = (case op x m of None \<Rightarrow> None | Some m' \<Rightarrow> runOps op xs m')"

locale member_op =
  fixes op :: "'i \<Rightarrow> 'h Memberlist \<Rightarrow> 'h Memberlist option"
  assumes keeps_wf: "member_wf m \<Longrightarrow> op x m = Some m' \<Longrightarrow> member_wf m'"
    and keeps_config: "op x m = Some m' \<Longrightarrow> m_config m' = m_config m"
begin

lemma run_wf: "member_wf m \<Longrightarrow> runOps op xs m = Some m' \<Longrightarrow> member_wf m'"
  by (induction xs arbitrary: m) (auto split: option.splits intro: keeps_wf)

lemma run_config: "runOps op xs m = Some m' \<Longrightarrow> m_config m' = m_config m"
  by (induction xs arbitrary: m) (auto split: option.splits dest: keeps_config)

end

locale gossip_op = member_op +
  assumes inflates: "member_wf m \<Longrightarrow> op x m = Some m' \<Longrightarrow> view_le (lookup m) (lookup m')"
begin

lemma run_inflates: "member_wf m \<Longrightarrow> runOps op xs m = Some m' \<Longrightarrow> view_le (lookup m) (lookup m')"
proof (induction xs arbitrary: m)
  case (Cons x xs)
  then obtain m1 where "op x m = Some m1" "runOps op xs m1 = Some m'" by (auto split: option.splits)
  with Cons have "view_le (lookup m) (lookup m1)" "view_le (lookup m1) (lookup m')"
    by (simp_all add: inflates keeps_wf)
  then show ?case by (rule view_le_trans)
qed simp

end

section \<open>The handlers meet the contracts\<close>

lemma refute_frame [frame_simps]:
  assumes "refute E p l m = Some m'"
  shows "m_config m' = m_config m" "m_left m' = m_left m" "m_suspicions m' = m_suspicions m"
  using assms by (auto simp: refute_eq split: if_splits)

lemma aliveNode_frame [simp, frame_simps]:
  "m_config (aliveNode E now rnd a notify m) = m_config m"
  "m_left (aliveNode E now rnd a notify m) = m_left m"
  "m_lives (aliveNode E now rnd a notify m) = m_lives m"
  by (simp_all add: aliveNode_def notify_defs Let_def setNode_def split: option.split)

lemma suspectNode_frame:
  assumes "suspectNode E now s m = Some m'"
  shows "m_config m' = m_config m" "m_left m' = m_left m"
  using assms
  by (auto simp: suspectNode_def Let_def setNode_def refute_frame split: option.splits if_splits prod.splits)

lemma deadNode_frame:
  assumes "deadNode E now d notify m = Some m'"
  shows "m_config m' = m_config m" "m_left m' = m_left m"
  using assms
  by (auto simp: deadNode_def notify_defs Let_def setNode_def refute_frame split: option.splits if_splits)

lemma timeoutFn_frame:
  assumes "timeoutFn E now i l m = Some m'"
  shows "m_config m' = m_config m" "m_left m' = m_left m"
  using assms by (auto simp: timeoutFn_def deadNode_frame split: option.splits)

lemma accused_lives: "accused m i l \<Longrightarrow> l \<noteq> - 1 \<Longrightarrow> lookup m i = Some n \<Longrightarrow> ns_Lives n < refuteNo l own"
  using refuteNo_gt [of l own] by (auto simp: accused_def split: option.splits)

interpretation al: gossip_op "\<lambda>(now, rnd, a, notify) m. Some (aliveNode E now rnd a notify m)"
  for E :: "'h env"
proof
  fix m m' :: "'h Memberlist" and x :: "time \<times> u32 \<times> alive \<times> chan option"
  obtain now rnd a notify where x: "x = (now, rnd, a, notify)" by (cases x)
  assume *: "(case x of (now, rnd, a, notify) \<Rightarrow> \<lambda>m. Some (aliveNode E now rnd a notify m)) m = Some m'"
  then show "m_config m' = m_config m" by (auto simp: x)
  assume "member_wf m"
  with * show "member_wf m'" "view_le (lookup m) (lookup m')"
    using alive_spec_inflates by (auto simp: x aliveNode_view_wf)
qed

interpretation su: gossip_op "\<lambda>(now, s). suspectNode E now s" for E :: "'h env"
proof
  fix m m' :: "'h Memberlist" and x :: "time \<times> suspect"
  obtain now s where x: "x = (now, s)" by (cases x)
  assume *: "(case x of (now, s) \<Rightarrow> suspectNode E now s) m = Some m'"
  then show "m_config m' = m_config m" by (auto simp: x suspectNode_frame)
  assume wf: "member_wf m"
  from * suspectNode_view_wf [OF wf, of E now s]
  show "member_wf m'" "view_le (lookup m) (lookup m')"
    by (auto simp: x suspect_spec_inflates split: if_splits intro!: refute_spec_inflates dest: accused_lives)
qed

interpretation de: gossip_op "\<lambda>(now, d, notify). deadNode E now d notify" for E :: "'h env"
proof
  fix m m' :: "'h Memberlist" and x :: "time \<times> dead \<times> chan option"
  obtain now d notify where x: "x = (now, d, notify)" by (cases x)
  assume *: "(case x of (now, d, notify) \<Rightarrow> deadNode E now d notify) m = Some m'"
  then show "m_config m' = m_config m" by (auto simp: x deadNode_frame)
  assume wf: "member_wf m"
  from * deadNode_view_wf [OF wf, of E now d notify]
  show "member_wf m'" "view_le (lookup m) (lookup m')"
    by (auto simp: x dead_spec_inflates split: if_splits intro!: refute_spec_inflates dest: accused_lives)
qed

interpretation ti: gossip_op "\<lambda>(now, i, l). timeoutFn E now i l" for E :: "'h env"
proof
  fix m m' :: "'h Memberlist" and x :: "time \<times> string \<times> u32"
  obtain now i l where x: "x = (now, i, l)" by (cases x)
  assume *: "(case x of (now, i, l) \<Rightarrow> timeoutFn E now i l) m = Some m'"
  then show "m_config m' = m_config m" by (auto simp: x timeoutFn_frame)
  assume wf: "member_wf m"
  have d: "m' = m \<or> (\<exists>d. deadNode E now d None m = Some m')"
    using * by (auto simp: x timeoutFn_def split: option.splits)
  then show "member_wf m'" using wf de.keeps_wf [of m E "(now, _, None)" m'] by auto
  show "view_le (lookup m) (lookup m')" using d wf de.inflates [of m E "(now, _, None)" m'] by auto
qed

section \<open>Histories\<close>

datatype input =
    InAlive time u32 alive "chan option"
  | InSuspect time suspect
  | InDead time dead "chan option"
  | InTimeout time string u32

fun handle :: "'h env \<Rightarrow> input \<Rightarrow> 'h Memberlist \<Rightarrow> 'h Memberlist option" where
  "handle E (InAlive now rnd a notify) m = Some (aliveNode E now rnd a notify m)"
| "handle E (InSuspect now s) m = suspectNode E now s m"
| "handle E (InDead now d notify) m = deadNode E now d notify m"
| "handle E (InTimeout now i l) m = timeoutFn E now i l m"

interpretation hi: gossip_op "handle E" for E :: "'h env"
proof
  fix m m' :: "'h Memberlist" and x :: input
  assume *: "handle E x m = Some m'"
  then show "m_config m' = m_config m"
    by (cases x) (auto simp: suspectNode_frame deadNode_frame timeoutFn_frame)
  assume wf: "member_wf m"
  have "member_wf m' \<and> view_le (lookup m) (lookup m')"
  proof (cases x)
    case (InAlive now rnd a notify)
    with * show ?thesis
      using al.keeps_wf [OF wf, of E "(now, rnd, a, notify)" m'] al.inflates [OF wf, of E "(now, rnd, a, notify)" m']
      by simp
  next
    case (InSuspect now s)
    with * show ?thesis
      using su.keeps_wf [OF wf, of E "(now, s)" m'] su.inflates [OF wf, of E "(now, s)" m'] by simp
  next
    case (InDead now d notify)
    with * show ?thesis
      using de.keeps_wf [OF wf, of E "(now, d, notify)" m'] de.inflates [OF wf, of E "(now, d, notify)" m']
      by simp
  next
    case (InTimeout now i l)
    with * show ?thesis
      using ti.keeps_wf [OF wf, of E "(now, i, l)" m'] ti.inflates [OF wf, of E "(now, i, l)" m'] by simp
  qed
  then show "member_wf m'" "view_le (lookup m) (lookup m')" by simp_all
qed

section \<open>Order of alive messages\<close>

text \<open>What a view says about a node, without the time of the last change.\<close>

definition entry :: "nodeState \<Rightarrow> Node \<times> u32 \<times> StateType" where
  "entry n = (ns_Node n, ns_Lives n, ns_State n)"

lemma alive_spec_commute:
  assumes "a_ID a = i" "a_ID b = i" "V i = Some n" "a_Lives a = a_Lives b \<longrightarrow> a_Tags a = a_Tags b"
  shows "map_option entry (alive_spec t b (alive_spec s a V) j) = map_option entry (alive_spec s a (alive_spec t b V) j)"
  using assms by (auto simp: alive_spec_def entry_def revived_def not_le split: option.splits)

end
