(* ===== verification/Send.thy ===== *)
theory Send
  imports Gossip
begin

text \<open>
  Sending datagrams: \<open>sendUdp\<close>, \<open>SendUserMsg\<close>, \<open>sendMsgPiggyback\<close> and \<open>encodeAndSendUdp\<close> of
  \<^verbatim>\<open>src/net_transport.go\<close>. A call returns its error and the new state; \<open>None\<close> is a call that does
  not return, which only the queue's loop could cause.
\<close>

definition compoundHeaderOverhead :: int where "compoundHeaderOverhead = 2"
definition lenMsgOverhead :: int where "lenMsgOverhead = 2"

definition SendUdp :: "'h env \<Rightarrow> UDPAddr \<Rightarrow> bytes \<Rightarrow> 'h Memberlist \<Rightarrow> unit outcome \<times> 'h Memberlist" where
  "SendUdp E addr msg m =
     ((case e_write E (length (m_sent m)) of None \<Rightarrow> Ok () | Some e \<Rightarrow> Err e),
      m\<lparr>m_sent := m_sent m @ [(addr, msg)]\<rparr>)"

definition sendUdp :: "'h env \<Rightarrow> UDPAddr \<Rightarrow> bytes \<Rightarrow> 'h Memberlist \<Rightarrow> unit outcome \<times> 'h Memberlist" where
  "sendUdp E addr msg m =
     (case packUdp (e_codec E) (m_config m) (m_keyring m) (e_nonce E (length (m_sent m))) msg of
        Ok packed \<Rightarrow> SendUdp E addr packed m
      | Err e \<Rightarrow> (Err e, m)
      | Panic p \<Rightarrow> (Panic p, m))"

definition SendUserMsg :: "'h env \<Rightarrow> UDPAddr \<Rightarrow> bytes \<Rightarrow> 'h Memberlist \<Rightarrow> unit outcome \<times> 'h Memberlist" where
  "SendUserMsg E addr msg m = sendUdp E addr (tag userMsg # msg) m"

text \<open>The overhead of encryption in the size computations of \<open>sendMsgPiggyback\<close> and \<open>gossip\<close>.\<close>

definition cryptoOverhead :: "'h Memberlist \<Rightarrow> int outcome" where
  "cryptoOverhead m =
     (if EncryptionEnabled (m_keyring m) then encryptOverhead (c_EncryptionVersion (m_config m)) else Ok 0)"

definition mlistBroadcasts :: "'h env \<Rightarrow> int \<Rightarrow> 'h Memberlist \<Rightarrow> (bytes list \<times> 'h Memberlist) option" where
  "mlistBroadcasts E limit m =
     (case getBroadcasts (e_flops E) (e_heap E) (m_ubroadcasts m) (GetNumNodes m) lenMsgOverhead limit
             (m_mbroadcasts m) of
        None \<Rightarrow> None
      | Some (msgs, q) \<Rightarrow> Some (msgs, m\<lparr>m_mbroadcasts := q\<rparr>))"

definition sendMsgPiggyback :: "'h env \<Rightarrow> UDPAddr \<Rightarrow> bytes \<Rightarrow> 'h Memberlist
    \<Rightarrow> (unit outcome \<times> 'h Memberlist) option" where
  "sendMsgPiggyback E addr msg m =
     (case cryptoOverhead m of
        Err e \<Rightarrow> Some (Err e, m)
      | Panic p \<Rightarrow> Some (Panic p, m)
      | Ok overhead \<Rightarrow>
          (let bytesRemaining = c_UDPBufferSize (m_config m) - int (length msg) - compoundHeaderOverhead - overhead
           in case mlistBroadcasts E bytesRemaining m of
                None \<Rightarrow> None
              | Some (piggy, m1) \<Rightarrow>
                  Some (if piggy = [] then sendUdp E addr msg m1
                        else sendUdp E addr (packCompoundMsg (msg # piggy)) m1)))"

definition encodeAndSendUdp :: "'h env \<Rightarrow> UDPAddr \<Rightarrow> msgType \<Rightarrow> payload \<Rightarrow> 'h Memberlist
    \<Rightarrow> (unit outcome \<times> 'h Memberlist) option" where
  "encodeAndSendUdp E addr mType msg m =
     (case encode (e_codec E) mType msg of
        Ok encoded \<Rightarrow> sendMsgPiggyback E addr encoded m
      | Err e \<Rightarrow> Some (Err e, m)
      | Panic p \<Rightarrow> Some (Panic p, m))"

section \<open>What sending leaves alone\<close>

text \<open>Sending changes the queue of broadcasts and the packets sent, and nothing else.\<close>

definition send_frame :: "'h Memberlist \<Rightarrow> 'h Memberlist \<Rightarrow> bool" where
  "send_frame m m' \<longleftrightarrow> (\<exists>q s. m' = m\<lparr>m_mbroadcasts := q, m_sent := s\<rparr>)"

lemma send_update_simps:
  "member_wf (m\<lparr>m_mbroadcasts := q, m_sent := s\<rparr>) = member_wf m"
  "lookup (m\<lparr>m_mbroadcasts := q, m_sent := s\<rparr>) = lookup m"
  by (rule member_wf_cong; simp) (simp add: lookup_def fun_eq_iff)

lemma send_frame_simps:
  assumes "send_frame m m'"
  shows "m_config m' = m_config m" "m_keyring m' = m_keyring m" "m_nodes m' = m_nodes m"
    "m_nodeMap m' = m_nodeMap m" "m_store m' = m_store m" "m_suspicions m' = m_suspicions m"
    "m_left m' = m_left m" "m_lives m' = m_lives m" "m_awr m' = m_awr m" "lookup m' = lookup m"
    "member_wf m' = member_wf m" "m_ubroadcasts m' = m_ubroadcasts m" "m_probeIdx m' = m_probeIdx m"
    "m_numNodes m' = m_numNodes m" "m_pingMng m' = m_pingMng m"
  using assms by (auto simp: send_frame_def send_update_simps)

lemma send_frame_refl [simp]: "send_frame m m"
  unfolding send_frame_def by (rule exI [of _ "m_mbroadcasts m"], rule exI [of _ "m_sent m"]) simp

lemma send_frame_trans: "send_frame m m1 \<Longrightarrow> send_frame m1 m2 \<Longrightarrow> send_frame m m2"
  by (fastforce simp: send_frame_def)

lemma sendUdp_frame: "sendUdp E addr msg m = (r, m') \<Longrightarrow> send_frame m m'"
proof -
  have "send_frame m (m\<lparr>m_sent := s\<rparr>)" for s
    unfolding send_frame_def by (rule exI [of _ "m_mbroadcasts m"], rule exI [of _ s]) simp
  then show "sendUdp E addr msg m = (r, m') \<Longrightarrow> send_frame m m'"
    by (auto simp: sendUdp_def SendUdp_def split: outcome.splits)
qed

lemma mlistBroadcasts_frame: "mlistBroadcasts E limit m = Some (msgs, m') \<Longrightarrow> send_frame m m' \<and> m_sent m' = m_sent m"
proof -
  have "send_frame m (m\<lparr>m_mbroadcasts := q\<rparr>)" for q
    unfolding send_frame_def by (rule exI [of _ q], rule exI [of _ "m_sent m"]) simp
  then show "mlistBroadcasts E limit m = Some (msgs, m') \<Longrightarrow> send_frame m m' \<and> m_sent m' = m_sent m"
    by (auto simp: mlistBroadcasts_def split: option.splits)
qed

lemma sendMsgPiggyback_frame: "sendMsgPiggyback E addr msg m = Some (r, m') \<Longrightarrow> send_frame m m'"
  by (auto simp: sendMsgPiggyback_def Let_def split: outcome.splits option.splits if_splits
      dest!: mlistBroadcasts_frame sendUdp_frame intro: send_frame_trans)

lemma encodeAndSendUdp_frame: "encodeAndSendUdp E addr t x m = Some (r, m') \<Longrightarrow> send_frame m m'"
  by (auto simp: encodeAndSendUdp_def split: outcome.splits dest: sendMsgPiggyback_frame)

section \<open>Piggybacked messages\<close>

locale net_env = codec_laws "e_codec E" + item_heap "e_heap E" hinv elems
  for E :: "'h env" and hinv :: "'h \<Rightarrow> bool" and elems :: "'h \<Rightarrow> TransmitCapItem set" +
  assumes nonce_length: "e_nonce E k = Ok n \<Longrightarrow> length n = 12"
    and nonce_no_panic: "e_nonce E k \<noteq> Panic p"

definition delegates_ok :: "'h Memberlist \<Rightarrow> bool" where
  "delegates_ok m \<longleftrightarrow> (case m_ubroadcasts m of None \<Rightarrow> True | Some g \<Rightarrow> delegate_ok g)"

text \<open>\<open>sends E m addr msg m'\<close>: the one packet sent carries \<open>msg\<close>, packed by the configuration of \<open>m\<close>.\<close>

definition packed_as :: "'h env \<Rightarrow> 'h Memberlist \<Rightarrow> bytes \<Rightarrow> bytes \<Rightarrow> bool" where
  "packed_as E m msg p \<longleftrightarrow> (\<exists>k. packUdp (e_codec E) (m_config m) (m_keyring m) (e_nonce E k) msg = Ok p)"

lemma sendUdp_Ok:
  "sendUdp E addr msg m = (Ok (), m') \<Longrightarrow>
   \<exists>p. m' = m\<lparr>m_sent := m_sent m @ [(addr, p)]\<rparr> \<and> packed_as E m msg p"
  by (auto simp: sendUdp_def SendUdp_def packed_as_def split: outcome.splits)

lemma packed_as_cong: "m_config m' = m_config m \<Longrightarrow> m_keyring m' = m_keyring m \<Longrightarrow> packed_as E m' = packed_as E m"
  by (simp add: packed_as_def fun_eq_iff)

lemma packCompoundMsg_space: "int (length (packCompoundMsg msgs)) = 2 + msgsSpace 2 msgs"
proof -
  have "int (sum_list (map (\<lambda>m. length m + 2) msgs)) = msgsSpace 2 msgs"
    by (induction msgs) (simp_all add: msgsSpace_def)
  then show ?thesis by (simp add: length_packCompoundMsg)
qed

lemma cryptoOverhead_Ok:
  "cryptoOverhead m = Ok ov \<Longrightarrow> ov = (if EncryptionEnabled (m_keyring m) then 29 else 0)"
  by (auto simp: cryptoOverhead_def encryptOverhead_def versionSize_def nonceSize_def tagSize_def split: if_splits)

context net_env
begin

lemma mlistBroadcasts_spec:
  assumes "queue_wf hinv elems (m_mbroadcasts m)" and "delegates_ok m"
  shows "\<exists>msgs m'. mlistBroadcasts E limit m = Some (msgs, m')
    \<and> queue_wf hinv elems (m_mbroadcasts m') \<and> (msgs = [] \<or> msgsSpace 2 msgs \<le> limit)"
proof -
  have "delegate_ok g" if "m_ubroadcasts m = Some g" for g using assms(2) that by (simp add: delegates_ok_def)
  then obtain msgs q where "getBroadcasts (e_flops E) (e_heap E) (m_ubroadcasts m) (GetNumNodes m) 2 limit
      (m_mbroadcasts m) = Some (msgs, q)" "queue_wf hinv elems q" "msgs = [] \<or> msgsSpace 2 msgs \<le> limit"
    using getBroadcasts_spec [OF assms(1), where ov = 2 and ub = "m_ubroadcasts m"] by fastforce
  then show ?thesis by (simp add: mlistBroadcasts_def lenMsgOverhead_def)
qed

lemma unpack_packed:
  assumes p: "packed_as E m msg p" and msg: "msg \<noteq> []" "hd msg \<noteq> tag compressMsg"
    and agree: "keyrings_agree (m_keyring m) kr"
  shows "unpackPacket (e_codec E) kr p (c_Label (m_config m)) = Ok msg"
proof -
  obtain k where k: "packUdp (e_codec E) (m_config m) (m_keyring m) (e_nonce E k) msg = Ok p"
    using p by (auto simp: packed_as_def)
  show ?thesis
  proof (cases "e_nonce E k")
    case (Ok n)
    then show ?thesis using k nonce_length unpackPacket_packUdp msg agree by metis
  next
    case (Err e)
    then have off: "\<not> EncryptionEnabled (m_keyring m)"
      using k by (auto simp: packUdp_def encrypt_def bind_outcome_eq_Ok Let_def split: if_splits)
    then have "packUdp (e_codec E) (m_config m) (m_keyring m) (Ok (replicate 12 0)) msg = Ok p"
      using k by (simp add: packUdp_def)
    then show ?thesis using unpackPacket_packUdp msg agree by (metis length_replicate)
  next
    case (Panic e)
    then have off: "\<not> EncryptionEnabled (m_keyring m)"
      using k by (auto simp: packUdp_def encrypt_def bind_outcome_eq_Ok Let_def split: if_splits)
    then have "packUdp (e_codec E) (m_config m) (m_keyring m) (Ok (replicate 12 0)) msg = Ok p"
      using k by (simp add: packUdp_def)
    then show ?thesis using unpackPacket_packUdp msg agree by (metis length_replicate)
  qed
qed

end

context net_env
begin

text \<open>With a supported encryption version, sending does not panic.\<close>

lemma sendUdp_no_panic:
  assumes "cryptoOverhead m = Ok ov"
  shows "fst (sendUdp E addr msg m) \<noteq> Panic p"
proof -
  have "compress (e_codec E) msg \<noteq> Panic p" for p
    by (simp add: compress_def encode_def split: option.split)
  then have "shrink (e_codec E) (m_config m) msg \<noteq> Panic p" for p
    by (cases "compress (e_codec E) msg") (auto simp: shrink_def)
  moreover have "encrypt (c_EncryptionVersion (m_config m)) key (e_nonce E k) x aad \<noteq> Panic p"
    if "EncryptionEnabled (m_keyring m)" for key k x aad p
    using assms that nonce_no_panic [of k] by (cases "e_nonce E k")
      (auto simp: cryptoOverhead_def encryptOverhead_def encrypt_def NewCipher_def split: if_splits)
  ultimately have "packUdp (e_codec E) (m_config m) (m_keyring m) (e_nonce E k) msg \<noteq> Panic p" for k p
    by (cases "shrink (e_codec E) (m_config m) msg") (auto simp: packUdp_def Let_def)
  then show ?thesis by (simp add: sendUdp_def SendUdp_def split: outcome.split option.split)
qed

text \<open>Piggybacking always returns and keeps the queue well-formed.\<close>

lemma sendMsgPiggyback_returns:
  assumes "queue_wf hinv elems (m_mbroadcasts m)" and "delegates_ok m"
  shows "\<exists>r m'. sendMsgPiggyback E addr msg m = Some (r, m') \<and> queue_wf hinv elems (m_mbroadcasts m')"
proof (cases "cryptoOverhead m")
  case (Ok ov)
  obtain piggy m1 where b: "mlistBroadcasts E
      (c_UDPBufferSize (m_config m) - int (length msg) - compoundHeaderOverhead - ov) m = Some (piggy, m1)"
    and q: "queue_wf hinv elems (m_mbroadcasts m1)"
    using mlistBroadcasts_spec [OF assms] by blast
  have "m_mbroadcasts (snd (sendUdp E addr x m1)) = m_mbroadcasts m1" for x
    by (simp add: sendUdp_def SendUdp_def split: outcome.split)
  with q have "queue_wf hinv elems (m_mbroadcasts (snd (sendUdp E addr x m1)))" for x by simp
  with Ok b show ?thesis by (auto simp: sendMsgPiggyback_def split: prod.splits) (metis prod.collapse)+
qed (use assms in \<open>simp_all add: sendMsgPiggyback_def\<close>)

text \<open>
  The one packet a successful call sends carries the message alone or in front of the broadcasts.
  The two bytes of the message's own length in the compound and the five of the checksum are not in
  the size computation: they may come on top of the configured size.
\<close>

lemma sendMsgPiggyback_sends:
  assumes "queue_wf hinv elems (m_mbroadcasts m)" and "delegates_ok m"
    and send: "sendMsgPiggyback E addr msg m = Some (Ok (), m')"
  shows "\<exists>p piggy x. m_sent m' = m_sent m @ [(addr, p)] \<and> packed_as E m x p
    \<and> x = (if piggy = [] then msg else packCompoundMsg (msg # piggy))
    \<and> (piggy = [] \<or> int (length x) + (if EncryptionEnabled (m_keyring m) then 29 else 0)
                      \<le> c_UDPBufferSize (m_config m) + 2)"
proof -
  obtain ov where ov: "cryptoOverhead m = Ok ov" using send by (cases "cryptoOverhead m") (auto simp: sendMsgPiggyback_def)
  let ?lim = "c_UDPBufferSize (m_config m) - int (length msg) - compoundHeaderOverhead - ov"
  obtain piggy m1 where b: "mlistBroadcasts E ?lim m = Some (piggy, m1)"
    and space: "piggy = [] \<or> msgsSpace 2 piggy \<le> ?lim"
    using mlistBroadcasts_spec [OF assms(1,2)] by blast
  have fr: "send_frame m m1" "m_sent m1 = m_sent m" using mlistBroadcasts_frame [OF b] by simp_all
  let ?x = "if piggy = [] then msg else packCompoundMsg (msg # piggy)"
  have "sendUdp E addr ?x m1 = (Ok (), m')" using send ov b by (auto simp: sendMsgPiggyback_def split: if_splits)
  then obtain p where p: "m_sent m' = m_sent m1 @ [(addr, p)]" "packed_as E m1 ?x p"
    using sendUdp_Ok by fastforce
  have "packed_as E m ?x p" using p(2) packed_as_cong send_frame_simps(1,2) [OF fr(1)] by metis
  moreover have "int (length (packCompoundMsg (msg # piggy))) = 4 + int (length msg) + msgsSpace 2 piggy"
    by (simp add: packCompoundMsg_space) (simp add: msgsSpace_def)
  ultimately show ?thesis
    using p(1) fr(2) space cryptoOverhead_Ok [OF ov] by (auto simp: compoundHeaderOverhead_def intro!: exI [of _ p] exI [of _ piggy])
qed

end

section \<open>A concrete environment\<close>

definition ref_env :: "TransmitCapItem list env" where
  "ref_env = \<lparr>e_heap = list_heap, e_codec = ref_codec, e_flops = exact_flops,
     e_nonce = (\<lambda>k. Ok (be32 (of_nat k) @ replicate 8 0)), e_write = (\<lambda>_. None)\<rparr>"

lemma ref_env_simps [simp]:
  "e_heap ref_env = list_heap" "e_codec ref_env = ref_codec"
  "e_flops ref_env = exact_flops" "e_write ref_env k = None"
  by (simp_all add: ref_env_def)

interpretation re: net_env ref_env list_inv set
proof (intro net_env.intro net_env_axioms.intro)
  show "codec_laws (e_codec ref_env)" using rc.codec_laws_axioms by simp
  show "item_heap (e_heap ref_env) list_inv set" using lh.item_heap_axioms by simp
  show "\<And>k n. e_nonce ref_env k = Ok n \<Longrightarrow> length n = 12" "\<And>k p. e_nonce ref_env k \<noteq> Panic p"
    by (auto simp: ref_env_def)
qed

end
