(* ===== verification/Maintenance.thy ===== *)
theory Maintenance
  imports Send
begin

text \<open>
  The periodic tasks of \<^verbatim>\<open>src/maintenance.go\<close>: gossip, the choice of random and of probed nodes,
  reaping, and the loops that schedule them. Random numbers are a stream of draws, and the clock is
  read through a function: of the iteration in \<open>gossip\<close>, of the examined node in \<open>reap\<close>, which
  examines each node once.
\<close>

section \<open>Random nodes\<close>

text \<open>\<open>pickRandomNodes\<close>: the loop at its \<open>i\<close>-th iteration; \<open>3 * n\<close> is the bound on \<open>i\<close>.\<close>

function pickNodes :: "(nat \<Rightarrow> u32) \<Rightarrow> nat \<Rightarrow> nat \<Rightarrow> int \<Rightarrow> (nat \<Rightarrow> nodeState \<Rightarrow> bool) \<Rightarrow> nodeState list
    \<Rightarrow> nodeState list \<Rightarrow> nodeState list" where
  "pickNodes rnd i bound numNodes acceptFn nodes picked =
     (if \<not> (i < bound \<and> int (length picked) < numNodes) then picked
      else let idx = randIntN (rnd i) (length nodes); node = nodes ! idx
           in if \<not> acceptFn i node then pickNodes rnd (i + 1) bound numNodes acceptFn nodes picked
              else if list_ex (\<lambda>q. n_ID (ns_Node node) = n_ID (ns_Node q)) picked
              then pickNodes rnd (i + 1) bound numNodes acceptFn nodes picked
              else pickNodes rnd (i + 1) bound numNodes acceptFn nodes (picked @ [node]))"
  by pat_completeness auto
termination
  by (relation "measure (\<lambda>(rnd, i, bound, numNodes, acceptFn, nodes, picked). bound - i)") auto

declare pickNodes.simps [simp del]

definition nodeList :: "'h Memberlist \<Rightarrow> nodeState list" where
  "nodeList m = map (m_store m) (m_nodes m)"

definition pickRandomNodes :: "(nat \<Rightarrow> u32) \<Rightarrow> int \<Rightarrow> (nat \<Rightarrow> nodeState \<Rightarrow> bool) \<Rightarrow> 'h Memberlist
    \<Rightarrow> nodeState list outcome" where
  "pickRandomNodes rnd numNodes acceptFn m =
     (if numNodes < 0 then Panic MakeSliceRange
      else Ok (pickNodes rnd 0 (3 * length (m_nodes m)) numNodes acceptFn (nodeList m) []))"

section \<open>Gossip\<close>

definition gossipTarget :: "time \<Rightarrow> 'h Memberlist \<Rightarrow> nodeState \<Rightarrow> bool" where
  "gossipTarget now m n \<longleftrightarrow>
     n_ID (ns_Node n) \<noteq> ID m
     \<and> (ns_State n \<noteq> StateDead
        \<or> (ns_State n = StateDead \<and> now - ns_StateChange n \<le> c_DeadNodeExpiredTimeout (m_config m)))"

fun sendAll :: "'h env \<Rightarrow> UDPAddr \<Rightarrow> bytes list \<Rightarrow> 'h Memberlist \<Rightarrow> 'h Memberlist outcome" where
  "sendAll E addr [] m = Ok m"
| "sendAll E addr (msg # msgs) m =
     (case sendUdp E addr msg m of
        (Panic p, _) \<Rightarrow> Panic p
      | (_, m') \<Rightarrow> sendAll E addr msgs m')"

fun gossipLoop :: "'h env \<Rightarrow> int \<Rightarrow> nodeState list \<Rightarrow> 'h Memberlist \<Rightarrow> 'h Memberlist outcome option" where
  "gossipLoop E remainingBytes [] m = Some (Ok m)"
| "gossipLoop E remainingBytes (node # nodes) m =
     (case mlistBroadcasts E remainingBytes m of
        None \<Rightarrow> None
      | Some (msgs, m1) \<Rightarrow>
          if msgs = [] then Some (Ok m1)
          else let addr = UDPAddress (ns_Node node);
                   out = (if length msgs = 1 then msgs else splitToCompoundMsgs msgs)
               in case sendAll E addr out m1 of
                    Ok m2 \<Rightarrow> gossipLoop E remainingBytes nodes m2
                  | Err e \<Rightarrow> Some (Err e)
                  | Panic p \<Rightarrow> Some (Panic p))"

definition gossip :: "'h env \<Rightarrow> (nat \<Rightarrow> time) \<Rightarrow> (nat \<Rightarrow> u32) \<Rightarrow> 'h Memberlist \<Rightarrow> 'h Memberlist outcome option" where
  "gossip E clock rnd m =
     (case pickRandomNodes rnd (c_GossipNodes (m_config m)) (\<lambda>i. gossipTarget (clock i) m) m of
        Err e \<Rightarrow> Some (Err e)
      | Panic p \<Rightarrow> Some (Panic p)
      | Ok nodes \<Rightarrow>
          (case cryptoOverhead m of
             Err e \<Rightarrow> Some (Err e)
           | Panic p \<Rightarrow> Some (Panic p)
           | Ok overhead \<Rightarrow>
               gossipLoop E (c_UDPBufferSize (m_config m) - compoundHeaderOverhead - overhead) nodes m))"

section \<open>The next node to probe\<close>

text \<open>
  The inner loop of \<open>nextProbeNode\<close> moves \<open>probeIdx\<close> to the next node that is neither the local
  one nor dead. The outer loop enters it at most twice: before and after the wrap-around.
\<close>

definition probeTarget :: "'h Memberlist \<Rightarrow> nodeState \<Rightarrow> bool" where
  "probeTarget m n \<longleftrightarrow> \<not> (n_ID (ns_Node n) = ID m \<or> DeadOrLeft n)"

function skipProbe :: "'h Memberlist \<Rightarrow> int \<Rightarrow> int" where
  "skipProbe m idx =
     (if idx < int (length (m_nodes m)) \<and> \<not> probeTarget m (nodeList m ! nat idx)
      then skipProbe m (idx + 1) else idx)"
  by pat_completeness auto
termination
  by (relation "measure (\<lambda>(m, idx). nat (int (length (m_nodes m)) - idx))") auto

declare skipProbe.simps [simp del]

definition nextProbeNode :: "'h Memberlist \<Rightarrow> nodeState outcome \<times> 'h Memberlist" where
  "nextProbeNode m =
     (let n = int (length (m_nodes m));
          idx0 = m_probeIdx m + 1;
          first = (if n \<le> idx0 then 0 else idx0);
          idx1 = skipProbe m first
      in if idx1 < n then (Ok (nodeList m ! nat idx1), m\<lparr>m_probeIdx := idx1\<rparr>)
         else if n \<le> idx0 then (Err ErrNoProbeNode, m\<lparr>m_probeIdx := idx1\<rparr>)
         else let idx2 = skipProbe m 0
              in if idx2 < n then (Ok (nodeList m ! nat idx2), m\<lparr>m_probeIdx := idx2\<rparr>)
                 else (Err ErrNoProbeNode, m\<lparr>m_probeIdx := idx2\<rparr>))"

section \<open>Reaping\<close>

definition expired :: "(ptr \<Rightarrow> time) \<Rightarrow> 'h Memberlist \<Rightarrow> ptr \<Rightarrow> bool" where
  "expired clock m p \<longleftrightarrow>
     DeadOrLeft (m_store m p) \<and> \<not> clock p - ns_StateChange (m_store m p) \<le> c_DeadNodeExpiredTimeout (m_config m)"

text \<open>The loop of \<open>swapExpiredToEnd\<close>, for a test of expiry; it returns the slice and \<open>expiredIdx\<close>.\<close>

function swapExpired :: "(ptr \<Rightarrow> bool) \<Rightarrow> nat \<Rightarrow> nat \<Rightarrow> ptr list \<Rightarrow> ptr list \<times> nat" where
  "swapExpired ex i expiredIdx nodes =
     (if i < expiredIdx then
        if \<not> ex (nodes ! i) then swapExpired ex (i + 1) expiredIdx nodes
        else swapExpired ex i (expiredIdx - 1) (swap i (expiredIdx - 1) nodes)
      else (nodes, expiredIdx))"
  by pat_completeness auto
termination
  by (relation "measure (\<lambda>(ex, i, expiredIdx, nodes). expiredIdx - i)") auto

declare swapExpired.simps [simp del]

definition swapExpiredToEnd :: "(ptr \<Rightarrow> time) \<Rightarrow> 'h Memberlist \<Rightarrow> ptr list \<times> nat" where
  "swapExpiredToEnd clock m = swapExpired (expired clock m) 0 (length (m_nodes m)) (m_nodes m)"

text \<open>\<open>shuffleNodes\<close>: the swaps of \<open>rand.Shuffle\<close>, from the end, for its draws \<open>js\<close>.\<close>

fun shuffleNodes :: "(nat \<Rightarrow> nat) \<Rightarrow> nat \<Rightarrow> 'a list \<Rightarrow> 'a list" where
  "shuffleNodes js 0 nodes = nodes"
| "shuffleNodes js (Suc i) nodes = shuffleNodes js i (swap (Suc i) (js (Suc i) mod (Suc i + 1)) nodes)"

definition reap :: "(ptr \<Rightarrow> time) \<Rightarrow> (nat \<Rightarrow> nat) \<Rightarrow> 'h Memberlist \<Rightarrow> 'h Memberlist" where
  "reap clock js m =
     (let (nodes, expiredIdx) = swapExpiredToEnd clock m;
          removed = map (nid m) (drop expiredIdx nodes);
          kept = take expiredIdx nodes
      in m\<lparr>m_nodeMap := (\<lambda>i. if i \<in> set removed then None else m_nodeMap m i),
           m_numNodes := wrap32 (int expiredIdx),
           m_nodes := shuffleNodes js (length kept - 1) kept\<rparr>)"

section \<open>Picked nodes\<close>

definition picked_ok :: "int \<Rightarrow> (nat \<Rightarrow> nodeState \<Rightarrow> bool) \<Rightarrow> nodeState list \<Rightarrow> nodeState list \<Rightarrow> bool" where
  "picked_ok numNodes acceptFn nodes picked \<longleftrightarrow>
     int (length picked) \<le> numNodes \<and> distinct (map (n_ID \<circ> ns_Node) picked)
     \<and> (\<forall>n \<in> set picked. n \<in> set nodes \<and> (\<exists>i. acceptFn i n))"

lemma pickNodes_ok:
  "\<lbrakk>picked_ok numNodes acceptFn nodes picked; 0 < bound \<Longrightarrow> nodes \<noteq> []\<rbrakk> \<Longrightarrow>
   picked_ok numNodes acceptFn nodes (pickNodes rnd i bound numNodes acceptFn nodes picked)"
proof (induction rnd i bound numNodes acceptFn nodes picked rule: pickNodes.induct)
  case (1 rnd i bound numNodes acceptFn nodes picked)
  let ?node = "nodes ! randIntN (rnd i) (length nodes)"
  show ?case
  proof (cases "i < bound \<and> int (length picked) < numNodes")
    case go: True
    then have "nodes \<noteq> []" using 1(5) by auto
    then have mem: "?node \<in> set nodes" by (simp add: randIntN_less)
    have rec: "pickNodes rnd i bound numNodes acceptFn nodes picked =
        pickNodes rnd (i + 1) bound numNodes acceptFn nodes
          (if acceptFn i ?node \<and> \<not> list_ex (\<lambda>q. n_ID (ns_Node ?node) = n_ID (ns_Node q)) picked
           then picked @ [?node] else picked)"
      using go by (subst pickNodes.simps) (simp add: Let_def)
    show ?thesis
    proof (cases "acceptFn i ?node \<and> \<not> list_ex (\<lambda>q. n_ID (ns_Node ?node) = n_ID (ns_Node q)) picked")
      case True
      then have "picked_ok numNodes acceptFn nodes (picked @ [?node])"
        using 1(4) go mem by (auto simp: picked_ok_def list_ex_iff)
      then show ?thesis unfolding rec using True go 1(3,5) by simp
    next
      case False
      then show ?thesis unfolding rec using go 1(1,2,4,5) by (cases "acceptFn i ?node") auto
    qed
  next
    case False
    then show ?thesis using 1(4) by (subst pickNodes.simps) simp
  qed
qed

lemma pickRandomNodes_ok:
  assumes "pickRandomNodes rnd numNodes acceptFn m = Ok nodes"
  shows "picked_ok numNodes acceptFn (nodeList m) nodes"
proof -
  have "picked_ok numNodes acceptFn (nodeList m) []" if "0 \<le> numNodes" using that by (simp add: picked_ok_def)
  then show ?thesis
    using assms by (auto simp: pickRandomNodes_def nodeList_def split: if_splits intro!: pickNodes_ok)
qed

section \<open>Probing visits every node\<close>

lemma skipProbe_spec:
  assumes "0 \<le> idx" and "idx \<le> int (length (m_nodes m))"
  shows "idx \<le> skipProbe m idx \<and> skipProbe m idx \<le> int (length (m_nodes m))
    \<and> (skipProbe m idx < int (length (m_nodes m)) \<longrightarrow> probeTarget m (nodeList m ! nat (skipProbe m idx)))
    \<and> (\<forall>k. idx \<le> k \<and> k < skipProbe m idx \<longrightarrow> \<not> probeTarget m (nodeList m ! nat k))"
  using assms
proof (induction m idx rule: skipProbe.induct)
  case (1 m idx)
  show ?case
  proof (cases "idx < int (length (m_nodes m)) \<and> \<not> probeTarget m (nodeList m ! nat idx)")
    case True
    then have "skipProbe m idx = skipProbe m (idx + 1)" by (subst skipProbe.simps) simp
    moreover have "\<not> probeTarget m (nodeList m ! nat k)" if "idx \<le> k" "k < skipProbe m (idx + 1)" for k
      using 1 True that by (cases "k = idx") auto
    ultimately show ?thesis using 1 True by auto
  next
    case False
    then have "skipProbe m idx = idx" by (subst skipProbe.simps) auto
    with 1 False show ?thesis by auto
  qed
qed

definition probe_wf :: "'h Memberlist \<Rightarrow> bool" where
  "probe_wf m \<longleftrightarrow> - 1 \<le> m_probeIdx m"

lemma nextProbeNode_found:
  assumes wf: "probe_wf m" and k: "k < length (m_nodes m)" "probeTarget m (nodeList m ! k)"
  shows "\<exists>idx. 0 \<le> idx \<and> idx < int (length (m_nodes m)) \<and> probeTarget m (nodeList m ! nat idx)
    \<and> nextProbeNode m = (Ok (nodeList m ! nat idx), m\<lparr>m_probeIdx := idx\<rparr>)
    \<and> (\<forall>j. m_probeIdx m < j \<and> j < idx \<longrightarrow> \<not> probeTarget m (nodeList m ! nat j))
    \<and> (idx \<le> m_probeIdx m \<longrightarrow>
         (\<forall>j. (m_probeIdx m < j \<and> j < int (length (m_nodes m)) \<or> 0 \<le> j \<and> j < idx)
            \<longrightarrow> \<not> probeTarget m (nodeList m ! nat j)))"
proof -
  let ?n = "int (length (m_nodes m))" and ?i = "m_probeIdx m + 1"
  note zero = skipProbe_spec [of 0 m]
  have found: "skipProbe m 0 < ?n"
  proof (rule ccontr)
    assume "\<not> skipProbe m 0 < ?n"
    then have "\<forall>j. 0 \<le> j \<and> j < ?n \<longrightarrow> \<not> probeTarget m (nodeList m ! nat j)" using zero by auto
    with k show False by (elim allE [of _ "int k"]) simp
  qed
  show ?thesis
  proof (cases "?n \<le> ?i")
    case True
    with found have "nextProbeNode m = (Ok (nodeList m ! nat (skipProbe m 0)), m\<lparr>m_probeIdx := skipProbe m 0\<rparr>)"
      by (simp add: nextProbeNode_def Let_def)
    with zero found True show ?thesis by (intro exI [of _ "skipProbe m 0"]) auto
  next
    case False
    with wf have i: "0 \<le> ?i" "?i \<le> ?n" by (auto simp: probe_wf_def)
    note sp = skipProbe_spec [OF i]
    show ?thesis
    proof (cases "skipProbe m ?i < ?n")
      case True
      with False have "nextProbeNode m = (Ok (nodeList m ! nat (skipProbe m ?i)), m\<lparr>m_probeIdx := skipProbe m ?i\<rparr>)"
        by (simp add: nextProbeNode_def Let_def)
      with sp True i show ?thesis by (intro exI [of _ "skipProbe m ?i"]) auto
    next
      case none: False
      with False found have "nextProbeNode m = (Ok (nodeList m ! nat (skipProbe m 0)), m\<lparr>m_probeIdx := skipProbe m 0\<rparr>)"
        by (simp add: nextProbeNode_def Let_def)
      with zero sp none found i show ?thesis by (intro exI [of _ "skipProbe m 0"]) auto
    qed
  qed
qed

lemma nextProbeNode_none:
  assumes "probe_wf m" and "\<And>n. n \<in> set (nodeList m) \<Longrightarrow> \<not> probeTarget m n"
  shows "fst (nextProbeNode m) = Err ErrNoProbeNode"
proof -
  have "\<not> probeTarget m (nodeList m ! nat k)" if "0 \<le> k" "k < int (length (m_nodes m))" for k
    using assms(2) that by (simp add: nodeList_def)
  then have "\<not> skipProbe m i < int (length (m_nodes m))" if "0 \<le> i" "i \<le> int (length (m_nodes m))" for i
    using skipProbe_spec [OF that] that by fastforce
  then show ?thesis using assms(1) by (auto simp: nextProbeNode_def Let_def probe_wf_def)
qed

text \<open>How many calls it takes from index \<open>i\<close> to index \<open>j\<close> of \<open>n\<close> at most.\<close>

definition probeDist :: "int \<Rightarrow> int \<Rightarrow> int \<Rightarrow> int" where
  "probeDist n i j = (if i < j then j - i else if i < n then j - i + n else j + 1)"

primrec probes :: "nat \<Rightarrow> 'h Memberlist \<Rightarrow> nodeState outcome list" where
  "probes 0 m = []"
| "probes (Suc k) m = (let (r, m') = nextProbeNode m in r # probes k m')"

lemma probeIdx_simps [simp]:
  "m_nodes (m\<lparr>m_probeIdx := i\<rparr>) = m_nodes m" "nodeList (m\<lparr>m_probeIdx := i\<rparr>) = nodeList m"
  "probeTarget (m\<lparr>m_probeIdx := i\<rparr>) = probeTarget m" "probe_wf (m\<lparr>m_probeIdx := i\<rparr>) = (- 1 \<le> i)"
  by (simp_all add: nodeList_def probeTarget_def probe_wf_def ID_def fun_eq_iff)

lemma probes_reach:
  assumes "probe_wf m" and "j < length (m_nodes m)" and "probeTarget m (nodeList m ! j)"
    and "probeDist (int (length (m_nodes m))) (m_probeIdx m) (int j) \<le> int d"
  shows "Ok (nodeList m ! j) \<in> set (probes d m)"
  using assms
proof (induction d arbitrary: m)
  case 0
  then show ?case by (auto simp: probeDist_def probe_wf_def split: if_splits)
next
  case (Suc d)
  let ?n = "int (length (m_nodes m))" and ?i = "m_probeIdx m"
  obtain idx where idx: "0 \<le> idx" "idx < ?n"
      "nextProbeNode m = (Ok (nodeList m ! nat idx), m\<lparr>m_probeIdx := idx\<rparr>)"
    and fwd: "\<And>k. ?i < k \<Longrightarrow> k < idx \<Longrightarrow> \<not> probeTarget m (nodeList m ! nat k)"
    and wrap: "\<And>k. idx \<le> ?i \<Longrightarrow> ?i < k \<and> k < ?n \<or> 0 \<le> k \<and> k < idx \<Longrightarrow> \<not> probeTarget m (nodeList m ! nat k)"
    using nextProbeNode_found [OF Suc.prems(1-3)] by blast
  show ?case
  proof (cases "idx = int j")
    case True
    with idx show ?thesis by simp
  next
    case False
    have fj: "\<not> (?i < int j \<and> int j < idx)" using fwd [of "int j"] Suc.prems(3) by auto
    have "\<not> (?i < int j \<and> int j < ?n \<or> 0 \<le> int j \<and> int j < idx)" if "idx \<le> ?i"
      using wrap [OF that, of "int j"] Suc.prems(3) by auto
    then have "idx \<le> ?i \<longrightarrow> int j \<le> ?i \<and> idx < int j" using Suc.prems(2) False by auto
    with fj have "probeDist ?n idx (int j) < probeDist ?n ?i (int j)"
      using idx(1,2) False Suc.prems(2) by (auto simp: probeDist_def)
    with Suc.prems(4) have "probeDist ?n idx (int j) \<le> int d" by simp
    then have "Ok (nodeList m ! j) \<in> set (probes d (m\<lparr>m_probeIdx := idx\<rparr>))"
      using Suc.IH [of "m\<lparr>m_probeIdx := idx\<rparr>"] Suc.prems idx(1) by simp
    with idx(3) show ?thesis by simp
  qed
qed

lemma probes_complete:
  assumes "probe_wf m" and "n \<in> set (nodeList m)" and "probeTarget m n"
  shows "Ok n \<in> set (probes (length (m_nodes m)) m)"
proof -
  obtain j where j: "j < length (m_nodes m)" "nodeList m ! j = n"
    using assms(2) by (auto simp: nodeList_def in_set_conv_nth)
  then have "probeDist (int (length (m_nodes m))) (m_probeIdx m) (int j) \<le> int (length (m_nodes m))"
    using assms(1) by (auto simp: probeDist_def probe_wf_def)
  with probes_reach [OF assms(1) j(1)] j(2) assms(3) show ?thesis by simp
qed

section \<open>Reaping removes exactly the expired nodes\<close>

lemma swapExpired_spec:
  assumes "i \<le> e" and "e \<le> length nodes"
    and "\<forall>k < i. \<not> ex (nodes ! k)" and "\<forall>k. e \<le> k \<and> k < length nodes \<longrightarrow> ex (nodes ! k)"
    and "swapExpired ex i e nodes = (nodes', e')"
  shows "mset nodes' = mset nodes \<and> e' \<le> length nodes
    \<and> (\<forall>k < e'. \<not> ex (nodes' ! k)) \<and> (\<forall>k. e' \<le> k \<and> k < length nodes \<longrightarrow> ex (nodes' ! k))"
  using assms
proof (induction ex i e nodes rule: swapExpired.induct)
  case (1 ex i e nodes)
  show ?case
  proof (cases "i < e")
    case False
    with 1(3-7) show ?thesis by (simp add: swapExpired.simps)
  next
    case ie: True
    show ?thesis
    proof (cases "ex (nodes ! i)")
      case False
      then have "\<forall>k < i + 1. \<not> ex (nodes ! k)" using 1(5) by (auto simp: less_Suc_eq)
      moreover have "swapExpired ex (i + 1) e nodes = (nodes', e')"
        using 1(7) ie False by (subst (asm) swapExpired.simps) simp
      ultimately show ?thesis using 1(1) [OF ie False] ie 1(4,6) by simp
    next
      case True
      let ?s = "swap i (e - 1) nodes"
      have len: "i < length nodes" "e - 1 < length nodes" using ie 1(4) by auto
      have "\<forall>k < i. \<not> ex (?s ! k)" using 1(5) ie len by (auto simp: nth_swap)
      moreover have "\<forall>k. e - 1 \<le> k \<and> k < length ?s \<longrightarrow> ex (?s ! k)"
        using 1(6) True ie len by (auto simp: nth_swap)
      moreover have "swapExpired ex i (e - 1) ?s = (nodes', e')"
        using 1(7) ie True by (subst (asm) swapExpired.simps) simp
      ultimately show ?thesis using 1(2) [OF ie] True ie 1(4) len by simp
    qed
  qed
qed

lemma swapExpiredToEnd_spec:
  assumes "swapExpiredToEnd clock m = (nodes, e)"
  shows "mset nodes = mset (m_nodes m)" and "e \<le> length nodes"
    and "set (take e nodes) = {p \<in> set (m_nodes m). \<not> expired clock m p}"
    and "set (drop e nodes) = {p \<in> set (m_nodes m). expired clock m p}"
proof -
  have sp: "mset nodes = mset (m_nodes m) \<and> e \<le> length (m_nodes m)
    \<and> (\<forall>k < e. \<not> expired clock m (nodes ! k))
    \<and> (\<forall>k. e \<le> k \<and> k < length (m_nodes m) \<longrightarrow> expired clock m (nodes ! k))"
    using assms by (intro swapExpired_spec [of 0 "length (m_nodes m)"]) (auto simp: swapExpiredToEnd_def)
  then show ms: "mset nodes = mset (m_nodes m)" by simp
  then have len: "length nodes = length (m_nodes m)" and st: "set nodes = set (m_nodes m)"
    by (metis size_mset, metis set_mset_mset)
  show e: "e \<le> length nodes" using sp len by simp
  have T: "p \<in> set (take e nodes) \<Longrightarrow> \<not> expired clock m p" for p
    using sp e by (auto simp: in_set_conv_nth)
  have D: "p \<in> set (drop e nodes) \<Longrightarrow> expired clock m p" for p
    using sp e len by (auto simp: in_set_conv_nth)
  have U: "set (m_nodes m) = set (take e nodes) \<union> set (drop e nodes)"
    using st by (metis append_take_drop_id set_append)
  show "set (take e nodes) = {p \<in> set (m_nodes m). \<not> expired clock m p}" using T D U by blast
  show "set (drop e nodes) = {p \<in> set (m_nodes m). expired clock m p}" using T D U by blast
qed

lemma mset_shuffleNodes: "i < length xs \<or> i = 0 \<Longrightarrow> mset (shuffleNodes js i xs) = mset xs"
proof (induction i arbitrary: xs)
  case (Suc i)
  have "js (Suc i) mod (Suc i + 1) < Suc i + 1" by (rule mod_less_divisor) simp
  with Suc.prems have "js (Suc i) mod (Suc i + 1) < length xs" by linarith
  with Suc show ?case by simp
qed simp

lemma reap_nodes:
  assumes "table_wf m"
  shows "set (m_nodes (reap clock js m)) = {p \<in> set (m_nodes m). \<not> expired clock m p}"
    and "distinct (m_nodes (reap clock js m))"
    and "m_numNodes (reap clock js m) = wrap32 (int (length (m_nodes (reap clock js m))))"
proof -
  obtain nodes e where s: "swapExpiredToEnd clock m = (nodes, e)" by (cases "swapExpiredToEnd clock m")
  note sp = swapExpiredToEnd_spec [OF s]
  have ms: "mset (m_nodes (reap clock js m)) = mset (take e nodes)"
  proof -
    have "length (take e nodes) - 1 < length (take e nodes) \<or> length (take e nodes) - 1 = 0" by linarith
    from mset_shuffleNodes [OF this, of js] show ?thesis by (simp add: reap_def s Let_def)
  qed
  then show "set (m_nodes (reap clock js m)) = {p \<in> set (m_nodes m). \<not> expired clock m p}"
    using sp(3) by (metis set_mset_mset)
  have "distinct nodes" using sp(1) assms by (metis mset_eq_imp_distinct_iff table_wf_def)
  then show "distinct (m_nodes (reap clock js m))" using ms by (metis distinct_take mset_eq_imp_distinct_iff)
  have "length (m_nodes (reap clock js m)) = e" using ms sp(2) by (metis length_take min.absorb2 size_mset)
  then show "m_numNodes (reap clock js m) = wrap32 (int (length (m_nodes (reap clock js m))))"
    by (simp add: reap_def s)
qed

lemma reap_fields [simp, frame_simps]:
  "m_store (reap clock js m) = m_store m" "m_suspicions (reap clock js m) = m_suspicions m"
  "m_config (reap clock js m) = m_config m" "m_left (reap clock js m) = m_left m"
  "m_next (reap clock js m) = m_next m" "nid (reap clock js m) = nid m"
  by (simp_all add: reap_def Let_def nid_def fun_eq_iff split: prod.split)

lemma reap_nodeMap:
  assumes "table_wf m"
  shows "m_nodeMap (reap clock js m) i =
    (case m_nodeMap m i of None \<Rightarrow> None | Some p \<Rightarrow> if expired clock m p then None else Some p)"
proof -
  obtain nodes e where s: "swapExpiredToEnd clock m = (nodes, e)" by (cases "swapExpiredToEnd clock m")
  have gone: "set (map (nid m) (drop e nodes)) = nid m ` {p \<in> set (m_nodes m). expired clock m p}"
    using swapExpiredToEnd_spec(4) [OF s] by simp
  have map: "m_nodeMap (reap clock js m) i =
      (if i \<in> nid m ` {p \<in> set (m_nodes m). expired clock m p} then None else m_nodeMap m i)"
    unfolding gone [symmetric] by (simp add: reap_def s)
  show ?thesis
  proof (cases "m_nodeMap m i")
    case None
    with map show ?thesis by simp
  next
    case (Some p)
    then have p: "p \<in> set (m_nodes m)" "nid m p = i" using assms by (simp_all add: table_wf_def)
    have "q = p" if "q \<in> set (m_nodes m)" "nid m q = i" for q
    proof -
      have "m_nodeMap m (nid m q) = Some q" using assms that(1) by (simp add: table_wf_def)
      with that(2) Some show ?thesis by simp
    qed
    then have "i \<in> nid m ` {p \<in> set (m_nodes m). expired clock m p} \<longleftrightarrow> expired clock m p"
      unfolding image_iff Bex_def using p by blast
    with map Some show ?thesis by simp
  qed
qed

lemma lookup_reap:
  "table_wf m \<Longrightarrow> lookup (reap clock js m) i =
    (case m_nodeMap m i of None \<Rightarrow> None | Some p \<Rightarrow> if expired clock m p then None else Some (m_store m p))"
  by (simp add: lookup_def reap_nodeMap split: option.split)

lemma table_wf_reap:
  assumes "table_wf m"
  shows "table_wf (reap clock js m)"
proof -
  have "p < m_next m \<and> m_nodeMap (reap clock js m) (nid m p) = Some p"
    if "p \<in> set (m_nodes (reap clock js m))" for p
    using that assms by (auto simp: reap_nodes(1) reap_nodeMap table_wf_def)
  moreover have "p \<in> set (m_nodes (reap clock js m)) \<and> nid m p = i"
    if "m_nodeMap (reap clock js m) i = Some p" for i p
  proof -
    have "m_nodeMap m i = Some p" "\<not> expired clock m p"
      using that assms by (auto simp: reap_nodeMap split: option.splits if_splits)
    then show ?thesis using assms by (simp add: reap_nodes(1)) (simp add: table_wf_def)
  qed
  ultimately show ?thesis
    using reap_nodes(2,3) [OF assms, of clock js] unfolding table_wf_def [of "reap clock js m"] by simp
qed

lemma member_wf_reap:
  assumes wf: "member_wf m"
  shows "member_wf (reap clock js m)"
proof -
  have tab: "table_wf m" using wf by (simp add: member_wf_def)
  have "susp_at i (lookup (reap clock js m) i) (m_suspicions m i)" for i
  proof (cases "m_nodeMap m i")
    case None
    with wf show ?thesis by (simp add: lookup_reap [OF tab] member_wf_def susp_wf_def) (metis lookup_def option.simps(8))
  next
    case (Some p)
    then have l: "lookup m i = Some (m_store m p)" by (simp add: lookup_def)
    have at: "susp_at i (lookup m i) (m_suspicions m i)" using wf by (simp add: member_wf_def susp_wf_def)
    show ?thesis
    proof (cases "expired clock m p")
      case True
      then have "m_suspicions m i = None"
        using member_wf_susp [OF wf l] by (auto simp: expired_def DeadOrLeft_def)
      with Some True show ?thesis by (simp add: lookup_reap [OF tab])
    qed (use Some at l in \<open>simp add: lookup_reap [OF tab]\<close>)
  qed
  moreover have "lookup (reap clock js m) (ID m) = Some n \<Longrightarrow> lookup m (ID m) = Some n" for n
    unfolding lookup_reap [OF tab] by (auto simp: lookup_def split: option.splits if_splits)
  moreover have "ID (reap clock js m) = ID m" by (simp add: ID_def)
  ultimately show ?thesis
    using wf table_wf_reap [OF tab] by (simp add: member_wf_def susp_wf_def local_wf_def)
qed

interpretation ra: member_op "\<lambda>(clock, js) m. Some (reap clock js m)"
  by unfold_locales (auto simp: member_wf_reap)

section \<open>Gossip stays within the packet size\<close>

text \<open>The packets \<open>ps\<close>, packed by the configuration of \<open>m\<close>, carry messages that satisfy \<open>P\<close>.\<close>

definition carry :: "'h env \<Rightarrow> 'h Memberlist \<Rightarrow> (UDPAddr \<Rightarrow> bytes \<Rightarrow> bool) \<Rightarrow> (UDPAddr \<times> bytes) list \<Rightarrow> bool" where
  "carry E m P ps \<longleftrightarrow> (\<forall>(a, p) \<in> set ps. \<exists>x. packed_as E m x p \<and> P a x)"

lemma carry_simps [simp]:
  "carry E m P []" "carry E m P (ps @ qs) \<longleftrightarrow> carry E m P ps \<and> carry E m P qs"
  "carry E m P [(a, p)] \<longleftrightarrow> (\<exists>x. packed_as E m x p \<and> P a x)"
  by (simp_all add: carry_def ball_Un)

lemma carry_cong: "m_config m' = m_config m \<Longrightarrow> m_keyring m' = m_keyring m \<Longrightarrow> carry E m' P ps = carry E m P ps"
  by (simp add: carry_def packed_as_def)

lemma carry_mono: "carry E m P ps \<Longrightarrow> (\<And>a x. P a x \<Longrightarrow> Q a x) \<Longrightarrow> carry E m Q ps"
  by (fastforce simp: carry_def)

lemma cryptoOverhead_frame: "send_frame m m' \<Longrightarrow> cryptoOverhead m' = cryptoOverhead m"
  by (simp add: cryptoOverhead_def send_frame_simps)

lemma sendUdp_sent:
  assumes "sendUdp E addr msg m = (r, m')"
  shows "m_mbroadcasts m' = m_mbroadcasts m
    \<and> (\<exists>ps. m_sent m' = m_sent m @ ps \<and> carry E m (\<lambda>a x. a = addr \<and> x = msg) ps)"
proof (cases "packUdp (e_codec E) (m_config m) (m_keyring m) (e_nonce E (length (m_sent m))) msg")
  case (Ok p)
  then have "packed_as E m msg p" by (auto simp: packed_as_def)
  with Ok assms show ?thesis by (auto simp: sendUdp_def SendUdp_def intro!: exI [of _ "[(addr, p)]"])
qed (use assms in \<open>auto simp: sendUdp_def intro!: exI [of _ "[]"]\<close>)

context net_env
begin

lemma sendAll_spec:
  assumes "cryptoOverhead m = Ok ov"
  shows "\<exists>m' ps. sendAll E addr msgs m = Ok m' \<and> send_frame m m' \<and> m_mbroadcasts m' = m_mbroadcasts m
    \<and> m_sent m' = m_sent m @ ps \<and> carry E m (\<lambda>a x. a = addr \<and> x \<in> set msgs) ps"
  using assms
proof (induction msgs arbitrary: m)
  case Nil
  then show ?case by (auto intro!: exI [of _ "[]"])
next
  case (Cons msg msgs)
  obtain r m1 where s: "sendUdp E addr msg m = (r, m1)" by (cases "sendUdp E addr msg m")
  note fr = sendUdp_frame [OF s]
  from sendUdp_sent [OF s] obtain ps where ps: "m_mbroadcasts m1 = m_mbroadcasts m" "m_sent m1 = m_sent m @ ps"
    "carry E m (\<lambda>a x. a = addr \<and> x = msg) ps" by blast
  have "cryptoOverhead m1 = Ok ov" using Cons.prems cryptoOverhead_frame [OF fr] by simp
  from Cons.IH [OF this] obtain m' qs where m': "sendAll E addr msgs m1 = Ok m'" "send_frame m1 m'"
    "m_mbroadcasts m' = m_mbroadcasts m1" "m_sent m' = m_sent m1 @ qs"
    "carry E m1 (\<lambda>a x. a = addr \<and> x \<in> set msgs) qs" by blast
  have "r \<noteq> Panic p" for p using sendUdp_no_panic [OF Cons.prems, of addr msg p] s by simp
  then have "sendAll E addr (msg # msgs) m = Ok m'" using s m'(1) by (cases r) auto
  moreover have "carry E m (\<lambda>a x. a = addr \<and> x \<in> set msgs) qs"
    using m'(5) carry_cong send_frame_simps(1,2) [OF fr] by metis
  then have "carry E m (\<lambda>a x. a = addr \<and> x \<in> set (msg # msgs)) (ps @ qs)"
    using ps(3) by (auto elim: carry_mono)
  ultimately show ?case
    using m' ps send_frame_trans [OF fr m'(2)] by (intro exI [of _ m'] exI [of _ "ps @ qs"]) simp
qed

text \<open>One compound of some of the messages is no longer than all of them together.\<close>

lemma compound_space:
  assumes "c \<in> set (splitToCompoundMsgs msgs)"
  shows "int (length c) \<le> 2 + msgsSpace 2 msgs"
proof -
  obtain part where part: "part \<in> set (chunks msgs)" "c = packCompoundMsg part"
    using assms by (auto simp: splitToCompoundMsgs_chunks)
  then obtain l r where "chunks msgs = l @ part # r" by (meson split_list)
  then have "msgs = concat l @ part @ concat r" using concat_chunks [of msgs] by simp
  moreover have "0 \<le> msgsSpace 2 xs" for xs by (induction xs) (simp_all add: msgsSpace_def)
  ultimately show ?thesis by (simp add: part(2) packCompoundMsg_space)
qed

end

context net_env
begin

lemma gossipLoop_spec:
  assumes "cryptoOverhead m = Ok ov" and "queue_wf hinv elems (m_mbroadcasts m)" and "delegates_ok m"
  shows "\<exists>m' ps. gossipLoop E (sz - 2) nodes m = Some (Ok m') \<and> send_frame m m'
    \<and> queue_wf hinv elems (m_mbroadcasts m') \<and> m_sent m' = m_sent m @ ps
    \<and> carry E m (\<lambda>a x. a \<in> (UDPAddress \<circ> ns_Node) ` set nodes \<and> int (length x) \<le> sz) ps"
  using assms
proof (induction nodes arbitrary: m)
  case Nil
  then show ?case by (auto intro!: exI [of _ "[]"])
next
  case (Cons node nodes)
  obtain msgs m1 where b: "mlistBroadcasts E (sz - 2) m = Some (msgs, m1)"
    "queue_wf hinv elems (m_mbroadcasts m1)" and space: "msgs = [] \<or> msgsSpace 2 msgs \<le> sz - 2"
    using mlistBroadcasts_spec [OF Cons.prems(2,3)] by blast
  have fr1: "send_frame m m1" "m_sent m1 = m_sent m" using mlistBroadcasts_frame [OF b(1)] by simp_all
  show ?case
  proof (cases "msgs = []")
    case True
    with b fr1 show ?thesis by (auto intro!: exI [of _ "[]"])
  next
    case False
    let ?addr = "UDPAddress (ns_Node node)"
    let ?out = "if length msgs = 1 then msgs else splitToCompoundMsgs msgs"
    have small: "int (length x) \<le> sz" if "x \<in> set ?out" for x
    proof (cases "length msgs = 1")
      case True
      then show ?thesis using that space False by (auto simp: length_Suc_conv msgsSpace_def)
    next
      case False
      then show ?thesis using that space compound_space [of x msgs] \<open>msgs \<noteq> []\<close> by auto
    qed
    have "cryptoOverhead m1 = Ok ov" using Cons.prems(1) cryptoOverhead_frame [OF fr1(1)] by simp
    from sendAll_spec [OF this] obtain m2 ps where s: "sendAll E ?addr ?out m1 = Ok m2" "send_frame m1 m2"
      "m_mbroadcasts m2 = m_mbroadcasts m1" "m_sent m2 = m_sent m1 @ ps"
      "carry E m1 (\<lambda>a x. a = ?addr \<and> x \<in> set ?out) ps" by blast
    have fr2: "send_frame m m2" using fr1(1) s(2) by (rule send_frame_trans)
    have "\<exists>m' qs. gossipLoop E (sz - 2) nodes m2 = Some (Ok m') \<and> send_frame m2 m'
      \<and> queue_wf hinv elems (m_mbroadcasts m') \<and> m_sent m' = m_sent m2 @ qs
      \<and> carry E m2 (\<lambda>a x. a \<in> (UDPAddress \<circ> ns_Node) ` set nodes \<and> int (length x) \<le> sz) qs"
    proof (rule Cons.IH)
      show "cryptoOverhead m2 = Ok ov" using Cons.prems(1) cryptoOverhead_frame [OF fr2] by simp
      show "queue_wf hinv elems (m_mbroadcasts m2)" using b(2) s(3) by simp
      show "delegates_ok m2" using Cons.prems(3) by (simp add: delegates_ok_def send_frame_simps [OF fr2])
    qed
    then obtain m' qs where m': "gossipLoop E (sz - 2) nodes m2 = Some (Ok m')" "send_frame m2 m'"
      "queue_wf hinv elems (m_mbroadcasts m')" "m_sent m' = m_sent m2 @ qs"
      "carry E m2 (\<lambda>a x. a \<in> (UDPAddress \<circ> ns_Node) ` set nodes \<and> int (length x) \<le> sz) qs" by blast
    let ?P = "\<lambda>a x. a \<in> (UDPAddress \<circ> ns_Node) ` set (node # nodes) \<and> int (length x) \<le> sz"
    have "carry E m ?P ps"
      using s(5) small carry_cong [OF send_frame_simps(1,2) [OF fr1(1)]] by (auto elim: carry_mono)
    moreover have "carry E m ?P qs"
      using m'(5) carry_cong [OF send_frame_simps(1,2) [OF fr2]] by (auto elim: carry_mono)
    ultimately show ?thesis
      using b(1) False s(1,4) m' fr1(2) send_frame_trans [OF fr2 m'(2)]
      by (intro exI [of _ m'] exI [of _ "ps @ qs"]) (simp add: Let_def)
  qed
qed

lemma gossip_spec:
  assumes "queue_wf hinv elems (m_mbroadcasts m)" and "delegates_ok m"
    and "0 \<le> c_GossipNodes (m_config m)" and ov: "cryptoOverhead m = Ok ov"
  shows "\<exists>m' ps. gossip E clock rnd m = Some (Ok m') \<and> send_frame m m'
    \<and> queue_wf hinv elems (m_mbroadcasts m') \<and> m_sent m' = m_sent m @ ps
    \<and> carry E m (\<lambda>a x. (\<exists>n \<in> set (nodeList m). a = UDPAddress (ns_Node n) \<and> (\<exists>i. gossipTarget (clock i) m n))
        \<and> int (length x) + ov \<le> c_UDPBufferSize (m_config m)) ps"
proof -
  obtain nodes where nodes: "pickRandomNodes rnd (c_GossipNodes (m_config m)) (\<lambda>i. gossipTarget (clock i) m) m = Ok nodes"
    using assms(3) by (auto simp: pickRandomNodes_def)
  note ok = pickRandomNodes_ok [OF nodes]
  have "gossip E clock rnd m = gossipLoop E (c_UDPBufferSize (m_config m) - ov - 2) nodes m"
    by (simp add: gossip_def nodes ov compoundHeaderOverhead_def algebra_simps)
  moreover obtain m' ps where "gossipLoop E (c_UDPBufferSize (m_config m) - ov - 2) nodes m = Some (Ok m')"
    "send_frame m m'" "queue_wf hinv elems (m_mbroadcasts m')" "m_sent m' = m_sent m @ ps"
    "carry E m (\<lambda>a x. a \<in> (UDPAddress \<circ> ns_Node) ` set nodes
      \<and> int (length x) \<le> c_UDPBufferSize (m_config m) - ov) ps"
    using gossipLoop_spec [OF ov assms(1,2)] by blast
  ultimately show ?thesis
    using ok by (intro exI [of _ m'] exI [of _ ps]) (auto simp: picked_ok_def elim!: carry_mono)
qed

end

end
