(* ===== verification/Probe.thy ===== *)
theory Probe
  imports Maintenance
begin

text \<open>
  Failure detection: \<open>Ping\<close>, \<open>IndirectPing\<close> and \<open>TcpPing\<close> of \<^verbatim>\<open>src/ping.go\<close>, \<open>sendTcp\<close> and
  \<open>GetAdvertiseAddr\<close> of \<^verbatim>\<open>src/net_transport.go\<close>, and \<open>probeNode\<close>, \<open>probe\<close> and the schedulers of
  \<^verbatim>\<open>src/maintenance.go\<close>.

  What the goroutines receive while they wait is given by the record \<open>probe_io\<close>: the ack on the
  ping's channel, if one came before the timeout, whether an indirect ack came, the count of nacks
  read at the timeout, the connection that dialling gave, and the order in which the results become
  ready. The goroutine of the indirect ping runs before the one of the TCP ping; they share the
  sequence number only.
\<close>

section \<open>Streams\<close>

text \<open>A connection: the bytes written by a call to \<open>Write\<close>, or its error, and the bytes to be read.\<close>

record tcp_conn =
  tc_write :: "bytes \<Rightarrow> nat outcome"
  tc_reply :: bytes

definition sendTcp :: "'h env \<Rightarrow> bytes outcome \<Rightarrow> tcp_conn \<Rightarrow> bytes \<Rightarrow> string \<Rightarrow> 'h Memberlist \<Rightarrow> unit outcome" where
  "sendTcp E rnd conn msg streamLabel m =
     bind_outcome (packTcp (e_codec E) (m_config m) (m_keyring m) rnd msg streamLabel) (\<lambda>packed.
     bind_outcome (tc_write conn packed) (\<lambda>n.
       if n \<noteq> length packed then Err (ErrShortWrite n (length packed)) else Ok ()))"

definition GetAdvertiseAddr :: "'h Memberlist \<Rightarrow> (IP \<times> u16) outcome" where
  "GetAdvertiseAddr m =
     (case ParseIP (c_AdvertiseAddr (m_config m)) of
        None \<Rightarrow> Err ErrAdvertiseAddr
      | Some ip \<Rightarrow> Ok (ip, of_int (c_AdvertisePort (m_config m))))"

section \<open>Pings\<close>

definition buddyPingMsg :: "codec \<Rightarrow> ping \<Rightarrow> suspect \<Rightarrow> bytes outcome" where
  "buddyPingMsg C p s =
     bind_outcome (encode C pingMsg (P_ping p)) (\<lambda>b1.
     bind_outcome (encode C suspectMsg (P_suspect s)) (\<lambda>b2.
       Ok (packCompoundMsg [b1, b2])))"

record indirectPingResult =
  ir_success :: bool
  ir_nNacks :: int
  ir_numNode :: int

datatype ready = IndirectReady | TcpReady | WaitExpired

record probe_io =
  io_ackCh :: chan
  io_sent :: time
  io_reply :: "timedAck option"
  io_rnd :: "nat \<Rightarrow> u32"
  io_iackCh :: chan
  io_cell :: nat
  io_acked :: bool
  io_nNacks :: int
  io_dial :: "tcp_conn outcome"
  io_nonce :: "bytes outcome"
  io_order :: "ready list"
  io_now :: time

text \<open>
  \<open>Ping\<close> returns whether the node answered. With a ping delegate (\<open>usrPing\<close>), it also reports the
  round-trip time and the payload.
\<close>

definition Ping :: "'h env \<Rightarrow> probe_io \<Rightarrow> bool \<Rightarrow> nodeState \<Rightarrow> 'h Memberlist
    \<Rightarrow> ((bool \<times> (duration \<times> bytes) option) outcome \<times> 'h Memberlist) option" where
  "Ping E io usrPing node m =
     (case GetAdvertiseAddr m of
        Panic p \<Rightarrow> Some (Panic p, m)
      | Err e \<Rightarrow> Some (Ok (False, None), m)
      | Ok (localIp, localPort) \<Rightarrow>
          (let (seqNo, mng1) = nextSeqNo (m_pingMng m);
               p = \<lparr>p_SeqNo = seqNo, p_ID = n_ID (ns_Node node), p_SourceIP = localIp, p_SourcePort = localPort\<rparr>;
               m1 = m\<lparr>m_pingMng := setAckHandler seqNo (io_ackCh io) mng1\<rparr>;
               addr = UDPAddress (ns_Node node);
               sending =
                 (if ns_State node = StateAlive then encodeAndSendUdp E addr pingMsg (P_ping p) m1
                  else case buddyPingMsg (e_codec E) p
                         \<lparr>s_Lives = ns_Lives node, s_ID = n_ID (ns_Node node), s_From = ID m\<rparr> of
                      Ok msg \<Rightarrow> Some (sendUdp E addr msg m1)
                    | Err e \<Rightarrow> Some (Err e, m1)
                    | Panic q \<Rightarrow> Some (Panic q, m1))
           in case sending of
                None \<Rightarrow> None
              | Some (Panic q, m2) \<Rightarrow> Some (Panic q, m2)
              | Some (Err e, m2) \<Rightarrow> Some (Ok (False, None), m2)
              | Some (Ok _, m2) \<Rightarrow>
                  Some (Ok (case io_reply io of
                       None \<Rightarrow> (False, None)
                     | Some a \<Rightarrow> (True, if usrPing then Some (ta_timestamp a - io_sent io, ta_payload a) else None)),
                     m2)))"

fun sendPeers :: "'h env \<Rightarrow> indirectPing \<Rightarrow> nodeState list \<Rightarrow> 'h Memberlist \<Rightarrow> (unit outcome \<times> 'h Memberlist) option" where
  "sendPeers E ind [] m = Some (Ok (), m)"
| "sendPeers E ind (peer # peers) m =
     (case encodeAndSendUdp E (UDPAddress (ns_Node peer)) indirectPingMsg (P_indirectPing ind) m of
        None \<Rightarrow> None
      | Some (Ok _, m') \<Rightarrow> sendPeers E ind peers m'
      | Some (r, m') \<Rightarrow> Some (r, m'))"

definition noResult :: indirectPingResult where
  "noResult = \<lparr>ir_success = False, ir_nNacks = 0, ir_numNode = 0\<rparr>"

definition IndirectPing :: "'h env \<Rightarrow> probe_io \<Rightarrow> nodeState \<Rightarrow> 'h Memberlist
    \<Rightarrow> (indirectPingResult outcome \<times> 'h Memberlist) option" where
  "IndirectPing E io node m =
     (case GetAdvertiseAddr m of
        Panic p \<Rightarrow> Some (Panic p, m)
      | Err e \<Rightarrow> Some (Ok noResult, m)
      | Ok (localIp, localPort) \<Rightarrow>
          (case pickRandomNodes (io_rnd io) (c_NumIndirectChecks (m_config m))
                  (\<lambda>i n. n_ID (ns_Node n) \<noteq> ID m \<and> n_ID (ns_Node n) \<noteq> n_ID (ns_Node node)
                         \<and> ns_State n = StateAlive) m of
             Panic p \<Rightarrow> Some (Panic p, m)
           | Err e \<Rightarrow> Some (Err e, m)
           | Ok peers \<Rightarrow>
               if peers = [] then Some (Ok noResult, m)
               else
                 let (seqNo, mng1) = nextSeqNo (m_pingMng m);
                     ind = \<lparr>i_SeqNo = seqNo, i_ID = n_ID (ns_Node node), i_IP = n_IP (ns_Node node),
                            i_Port = n_Port (ns_Node node), i_SourceIP = localIp, i_SourcePort = localPort\<rparr>;
                     m1 = m\<lparr>m_pingMng := setIndirectAckHandler seqNo (io_iackCh io) (io_cell io) mng1\<rparr>
                 in case sendPeers E ind peers m1 of
                      None \<Rightarrow> None
                    | Some (Panic p, m2) \<Rightarrow> Some (Panic p, m2)
                    | Some (Err e, m2) \<Rightarrow> Some (Ok noResult, m2)
                    | Some (Ok _, m2) \<Rightarrow>
                        Some (Ok (if io_acked io then \<lparr>ir_success = True, ir_nNacks = 0, ir_numNode = 0\<rparr>
                                  else \<lparr>ir_success = False, ir_nNacks = io_nNacks io, ir_numNode = int (length peers)\<rparr>), m2)))"

definition TcpPing :: "'h env \<Rightarrow> probe_io \<Rightarrow> nodeState \<Rightarrow> 'h Memberlist \<Rightarrow> bool outcome \<times> 'h Memberlist" where
  "TcpPing E io node m =
     (case GetAdvertiseAddr m of
        Panic p \<Rightarrow> (Panic p, m)
      | Err e \<Rightarrow> (Ok False, m)
      | Ok (localIp, localPort) \<Rightarrow>
          (let (seqNo, mng1) = nextSeqNo (m_pingMng m);
               m1 = m\<lparr>m_pingMng := mng1\<rparr>;
               p = \<lparr>p_SeqNo = seqNo, p_ID = n_ID (ns_Node node), p_SourceIP = localIp, p_SourcePort = localPort\<rparr>;
               label = c_Label (m_config m);
               answer =
                 bind_outcome (io_dial io) (\<lambda>conn.
                 bind_outcome (encode (e_codec E) pingMsg (P_ping p)) (\<lambda>encoded.
                 bind_outcome (sendTcp E (io_nonce io) conn encoded label m1) (\<lambda>_.
                 bind_outcome (unpackStream (e_codec E) (m_keyring m1) (tc_reply conn) label) (\<lambda>(mtype, r).
                   if mtype \<noteq> tag ackMsg then Err (ErrMsgType mtype)
                   else bind_outcome (decode (dec_ack (e_codec E)) r) (\<lambda>a. Ok (k_SeqNo a = seqNo))))))
           in ((case answer of Ok b \<Rightarrow> Ok b | Err e \<Rightarrow> Ok False | Panic q \<Rightarrow> Panic q), m1)))"

section \<open>Probing a node\<close>

text \<open>The loop that waits for the first success; \<open>res\<close> is the last result of the indirect ping.\<close>

fun waitProbe :: "indirectPingResult \<Rightarrow> bool \<Rightarrow> ready list \<Rightarrow> indirectPingResult \<Rightarrow> bool \<times> indirectPingResult" where
  "waitProbe ind tcp [] res = (False, res)"
| "waitProbe ind tcp (IndirectReady # rs) res =
     (if ir_success ind then (True, ind) else waitProbe ind tcp rs ind)"
| "waitProbe ind tcp (TcpReady # rs) res = (if tcp then (True, res) else waitProbe ind tcp rs res)"
| "waitProbe ind tcp (WaitExpired # rs) res = (False, res)"

definition punish :: "int \<Rightarrow> 'h Memberlist \<Rightarrow> 'h Memberlist" where
  "punish delta m = m\<lparr>m_awr := Punish delta (m_awr m)\<rparr>"

definition probeNode :: "'h env \<Rightarrow> probe_io \<Rightarrow> bool \<Rightarrow> nodeState \<Rightarrow> 'h Memberlist
    \<Rightarrow> 'h Memberlist outcome option" where
  "probeNode E io usrPing node m =
     (case Ping E io usrPing node m of
        None \<Rightarrow> None
      | Some (Panic p, m1) \<Rightarrow> Some (Panic p)
      | Some (Err e, m1) \<Rightarrow> Some (Err e)
      | Some (Ok (True, _), m1) \<Rightarrow> Some (Ok (punish (- 1) m1))
      | Some (Ok (False, _), m1) \<Rightarrow>
          (case IndirectPing E io node m1 of
             None \<Rightarrow> None
           | Some (Panic p, m2) \<Rightarrow> Some (Panic p)
           | Some (Err e, m2) \<Rightarrow> Some (Err e)
           | Some (Ok ind, m2) \<Rightarrow>
               (case TcpPing E io node m2 of
                  (Panic p, m3) \<Rightarrow> Some (Panic p)
                | (Err e, m3) \<Rightarrow> Some (Err e)
                | (Ok tcp, m3) \<Rightarrow>
                    (let (success, res) = waitProbe ind tcp (io_order io) noResult
                     in if success then Some (Ok (punish (- 1) m3))
                        else
                          let missedNacks = ir_numNode res - ir_nNacks res;
                              m4 = punish missedNacks m3;
                              s = \<lparr>s_Lives = ns_Lives node, s_ID = n_ID (ns_Node node), s_From = ID m\<rparr>
                          in map_option Ok (suspectNode E (io_now io) s m4)))))"

definition probe :: "'h env \<Rightarrow> probe_io \<Rightarrow> bool \<Rightarrow> 'h Memberlist \<Rightarrow> 'h Memberlist outcome option" where
  "probe E io usrPing m =
     (case nextProbeNode m of
        (Ok node, m1) \<Rightarrow> probeNode E io usrPing node m1
      | (Err e, m1) \<Rightarrow> Some (Ok m1)
      | (Panic p, m1) \<Rightarrow> Some (Panic p))"

section \<open>What a probe may change\<close>

definition probe_frame :: "'h Memberlist \<Rightarrow> 'h Memberlist \<Rightarrow> bool" where
  "probe_frame m m' \<longleftrightarrow> (\<exists>q s g a. m' = m\<lparr>m_mbroadcasts := q, m_sent := s, m_pingMng := g, m_awr := a\<rparr>)"

lemma probe_update_simps:
  "member_wf (m\<lparr>m_mbroadcasts := q, m_sent := s, m_pingMng := g, m_awr := a\<rparr>) = member_wf m"
  "lookup (m\<lparr>m_mbroadcasts := q, m_sent := s, m_pingMng := g, m_awr := a\<rparr>) = lookup m"
  by (rule member_wf_cong; simp) (simp add: lookup_def fun_eq_iff)

lemma probe_frame_simps:
  assumes "probe_frame m m'"
  shows "m_config m' = m_config m" "m_keyring m' = m_keyring m" "m_nodes m' = m_nodes m"
    "m_nodeMap m' = m_nodeMap m" "m_store m' = m_store m" "m_suspicions m' = m_suspicions m"
    "m_left m' = m_left m" "m_lives m' = m_lives m" "lookup m' = lookup m"
    "member_wf m' = member_wf m" "m_ubroadcasts m' = m_ubroadcasts m" "m_probeIdx m' = m_probeIdx m"
    "m_numNodes m' = m_numNodes m" "ID m' = ID m"
  using assms by (auto simp: probe_frame_def probe_update_simps ID_def)

lemma probe_frame_trans: "probe_frame m m1 \<Longrightarrow> probe_frame m1 m2 \<Longrightarrow> probe_frame m m2"
  by (fastforce simp: probe_frame_def)

lemma probe_frame_intros [intro]:
  "probe_frame m m" "send_frame m m1 \<Longrightarrow> probe_frame m m1" "probe_frame m (m\<lparr>m_pingMng := g\<rparr>)"
  "probe_frame m (punish d m)"
proof -
  have upd: "probe_frame m (m\<lparr>m_mbroadcasts := q, m_sent := s, m_pingMng := g, m_awr := a\<rparr>)" for q s g a
    unfolding probe_frame_def by blast
  show "probe_frame m m" using upd [where q = "m_mbroadcasts m" and s = "m_sent m" and g = "m_pingMng m" and a = "m_awr m"] by simp
  show "probe_frame m (m\<lparr>m_pingMng := g\<rparr>)" using upd [where q = "m_mbroadcasts m" and s = "m_sent m" and g = g and a = "m_awr m"] by simp
  show "probe_frame m (punish d m)"
    using upd [where q = "m_mbroadcasts m" and s = "m_sent m" and g = "m_pingMng m" and a = "Punish d (m_awr m)"]
    by (simp add: punish_def)
  show "send_frame m m1 \<Longrightarrow> probe_frame m m1"
    using upd [where g = "m_pingMng m" and a = "m_awr m"] by (auto simp: send_frame_def)
qed

lemma probe_frame_send: "send_frame (m\<lparr>m_pingMng := g\<rparr>) m' \<Longrightarrow> probe_frame m m'"
  by (rule probe_frame_trans [OF probe_frame_intros(3) probe_frame_intros(2)])

lemma Ping_frame: "Ping E io u node m = Some (r, m') \<Longrightarrow> probe_frame m m'"
  by (auto simp: Ping_def Let_def split: outcome.splits prod.splits option.splits if_splits
      dest!: encodeAndSendUdp_frame sendUdp_frame intro: probe_frame_send)

lemma sendPeers_frame: "sendPeers E ind peers m = Some (r, m') \<Longrightarrow> send_frame m m'"
proof (induction peers arbitrary: m)
  case (Cons peer peers)
  then obtain r1 m1 where s: "encodeAndSendUdp E (UDPAddress (ns_Node peer)) indirectPingMsg (P_indirectPing ind) m
      = Some (r1, m1)" by (auto split: option.splits)
  note fr = encodeAndSendUdp_frame [OF s]
  show ?case
  proof (cases r1)
    case (Ok x)
    with Cons.prems s have "sendPeers E ind peers m1 = Some (r, m')" by simp
    then show ?thesis by (rule send_frame_trans [OF fr Cons.IH])
  qed (use Cons.prems s fr in auto)
qed simp

lemma IndirectPing_frame: "IndirectPing E io node m = Some (r, m') \<Longrightarrow> probe_frame m m'"
  by (auto simp: IndirectPing_def Let_def split: outcome.splits prod.splits option.splits if_splits
      dest!: sendPeers_frame intro: probe_frame_send)

lemma TcpPing_frame: "TcpPing E io node m = (r, m') \<Longrightarrow> probe_frame m m'"
  by (auto simp: TcpPing_def Let_def split: outcome.splits prod.splits)

section \<open>The outcome of a probe\<close>

abbreviation probeSuspect :: "nodeState \<Rightarrow> 'h Memberlist \<Rightarrow> suspect" where
  "probeSuspect node m \<equiv> \<lparr>s_Lives = ns_Lives node, s_ID = n_ID (ns_Node node), s_From = ID m\<rparr>"

lemma probe_suspects:
  assumes wf: "member_wf m" and other: "n_ID (ns_Node node) \<noteq> ID m" and fr: "probe_frame m m4"
  shows "\<exists>m'. suspectNode E now (probeSuspect node m) m4 = Some m' \<and> member_wf m'
    \<and> lookup m' = suspect_spec now (probeSuspect node m) (lookup m)"
proof -
  have "member_wf m4" "\<not> accused m4 (n_ID (ns_Node node)) l" for l
    using wf other probe_frame_simps [OF fr] by (auto simp: accused_def)
  then show ?thesis
    using suspectNode_view_wf [of m4 E now "probeSuspect node m"] probe_frame_simps(9) [OF fr] by auto
qed

lemma probeNode_view:
  assumes wf: "member_wf m" and other: "n_ID (ns_Node node) \<noteq> ID m"
    and probe: "probeNode E io u node m = Some (Ok m')"
  shows "member_wf m' \<and> (lookup m' = lookup m
    \<or> lookup m' = suspect_spec (io_now io) (probeSuspect node m) (lookup m))"
proof -
  obtain r m1 where p: "Ping E io u node m = Some (Ok r, m1)"
    using probe by (auto simp: probeNode_def split: option.splits outcome.splits)
  note f1 = Ping_frame [OF p]
  show ?thesis
  proof (cases "fst r")
    case True
    with probe p have "m' = punish (- 1) m1" by (cases r) (auto simp: probeNode_def)
    with f1 have "probe_frame m m'" by (auto intro: probe_frame_trans)
    with wf show ?thesis by (simp add: probe_frame_simps)
  next
    case False
    then obtain ind m2 where i: "IndirectPing E io node m1 = Some (Ok ind, m2)"
      using probe p by (cases r) (auto simp: probeNode_def split: option.splits outcome.splits)
    obtain tcp m3 where t: "TcpPing E io node m2 = (Ok tcp, m3)"
      using probe p i False by (cases r) (auto simp: probeNode_def split: prod.splits outcome.splits)
    have f3: "probe_frame m m3"
      using f1 IndirectPing_frame [OF i] TcpPing_frame [OF t] by (blast intro: probe_frame_trans)
    obtain success res where w: "waitProbe ind tcp (io_order io) noResult = (success, res)" by fastforce
    let ?m4 = "punish (ir_numNode res - ir_nNacks res) m3"
    have f4: "probe_frame m ?m4" using f3 by (blast intro: probe_frame_trans)
    have "(if success then Some (Ok (punish (- 1) m3))
           else map_option Ok (suspectNode E (io_now io) (probeSuspect node m) ?m4)) = Some (Ok m')"
      using probe p i t w False by (cases r) (auto simp: probeNode_def Let_def)
    then consider "m' = punish (- 1) m3" | "suspectNode E (io_now io) (probeSuspect node m) ?m4 = Some m'"
      by (cases success) auto
    then show ?thesis
    proof cases
      case 1
      then have "probe_frame m m'" using f3 by (blast intro: probe_frame_trans)
      with wf show ?thesis by (simp add: probe_frame_simps)
    next
      case 2
      with probe_suspects [OF wf other f4, of E "io_now io"] show ?thesis by auto
    qed
  qed
qed

lemma waitProbe_silent: "\<not> ir_success ind \<Longrightarrow> \<not> fst (waitProbe ind False rs res)"
  by (induction ind "False" rs res rule: waitProbe.induct) auto

text \<open>A state from which packets can be sent: the queue and the delegate are sound and the encryption
  version, if used, is supported.\<close>

definition sendable :: "('h \<Rightarrow> bool) \<Rightarrow> ('h \<Rightarrow> TransmitCapItem set) \<Rightarrow> 'h Memberlist \<Rightarrow> bool" where
  "sendable hinv elems m \<longleftrightarrow> queue_wf hinv elems (m_mbroadcasts m) \<and> delegates_ok m
     \<and> (EncryptionEnabled (m_keyring m) \<longrightarrow> c_EncryptionVersion (m_config m) = 0)"

lemma sendable_crypto: "sendable hinv elems m \<Longrightarrow> \<exists>ov. cryptoOverhead m = Ok ov"
  by (simp add: sendable_def cryptoOverhead_def encryptOverhead_def)

lemma sendable_pingMng [simp]: "sendable hinv elems (m\<lparr>m_pingMng := g\<rparr>) = sendable hinv elems m"
  by (simp add: sendable_def delegates_ok_def)

context net_env
begin

lemma sendUdp_sendable:
  assumes "sendable hinv elems m"
  shows "\<exists>r m'. sendUdp E addr msg m = (r, m') \<and> sendable hinv elems m' \<and> (\<forall>p. r \<noteq> Panic p)"
proof -
  obtain r m' where s: "sendUdp E addr msg m = (r, m')" by fastforce
  obtain ov where "cryptoOverhead m = Ok ov" using sendable_crypto [OF assms] ..
  with sendUdp_no_panic [of m ov addr msg] s have "r \<noteq> Panic p" for p by auto
  moreover have "sendable hinv elems m'"
    using assms sendUdp_sent [OF s] sendUdp_frame [OF s]
    by (simp add: sendable_def delegates_ok_def send_frame_simps)
  ultimately show ?thesis using s by blast
qed

lemma sendMsgPiggyback_sendable:
  assumes "sendable hinv elems m"
  shows "\<exists>r m'. sendMsgPiggyback E addr msg m = Some (r, m') \<and> sendable hinv elems m' \<and> (\<forall>p. r \<noteq> Panic p)"
proof -
  obtain ov where ov: "cryptoOverhead m = Ok ov" using sendable_crypto [OF assms] ..
  let ?lim = "c_UDPBufferSize (m_config m) - int (length msg) - compoundHeaderOverhead - ov"
  obtain piggy m1 where b: "mlistBroadcasts E ?lim m = Some (piggy, m1)" "queue_wf hinv elems (m_mbroadcasts m1)"
    using mlistBroadcasts_spec [of m ?lim] assms by (auto simp: sendable_def)
  have "send_frame m m1" using mlistBroadcasts_frame [OF b(1)] by simp
  then have "sendable hinv elems m1" using assms b(2) by (simp add: sendable_def delegates_ok_def send_frame_simps)
  from sendUdp_sendable [OF this, of addr "if piggy = [] then msg else packCompoundMsg (msg # piggy)"]
  show ?thesis using ov b(1) by (auto simp: sendMsgPiggyback_def)
qed

lemma encodeAndSendUdp_sendable:
  assumes "sendable hinv elems m"
  shows "\<exists>r m'. encodeAndSendUdp E addr t x m = Some (r, m') \<and> sendable hinv elems m' \<and> (\<forall>p. r \<noteq> Panic p)"
  using sendMsgPiggyback_sendable [OF assms] assms
  by (auto simp: encodeAndSendUdp_def encode_def split: option.split)

end

context net_env
begin

lemma Ping_sendable:
  assumes "sendable hinv elems m"
  shows "\<exists>r m'. Ping E io u node m = Some (Ok r, m') \<and> sendable hinv elems m' \<and> (io_reply io = None \<longrightarrow> r = (False, None))"
proof (cases "GetAdvertiseAddr m")
  case (Ok a)
  obtain ip port where a: "a = (ip, port)" by fastforce
  let ?seq = "pm_seqNo (m_pingMng m) + 1"
  let ?p = "\<lparr>p_SeqNo = ?seq, p_ID = n_ID (ns_Node node), p_SourceIP = ip, p_SourcePort = port\<rparr>"
  let ?m1 = "m\<lparr>m_pingMng := setAckHandler ?seq (io_ackCh io) ((m_pingMng m)\<lparr>pm_seqNo := ?seq\<rparr>)\<rparr>"
  let ?addr = "UDPAddress (ns_Node node)"
  have m1: "sendable hinv elems ?m1" using assms by simp
  show ?thesis
  proof (cases "ns_State node = StateAlive")
    case True
    from encodeAndSendUdp_sendable [OF m1] obtain r m' where
      s: "encodeAndSendUdp E ?addr pingMsg (P_ping ?p) ?m1 = Some (r, m')" "sendable hinv elems m'" "\<forall>q. r \<noteq> Panic q"
      by blast
    then show ?thesis using Ok a True by (cases r) (auto simp: Ping_def nextSeqNo_def Let_def)
  next
    case False
    show ?thesis
    proof (cases "buddyPingMsg (e_codec E) ?p (probeSuspect node m)")
      case msg: (Ok msg)
      from sendUdp_sendable [OF m1] obtain r m' where
        s: "sendUdp E ?addr msg ?m1 = (r, m')" "sendable hinv elems m'" "\<forall>q. r \<noteq> Panic q" by blast
      then show ?thesis using Ok a msg False by (cases r) (auto simp: Ping_def nextSeqNo_def Let_def)
    next
      case (Err e)
      then show ?thesis using Ok a False m1 by (simp add: Ping_def nextSeqNo_def Let_def)
    next
      case (Panic q)
      then show ?thesis by (auto simp: buddyPingMsg_def encode_def split: option.splits)
    qed
  qed
next
  case (Err e)
  then show ?thesis using assms by (simp add: Ping_def)
next
  case (Panic e)
  then show ?thesis by (simp add: GetAdvertiseAddr_def split: option.splits)
qed

lemma Ping_silent:
  assumes "sendable hinv elems m" and "io_reply io = None"
  shows "\<exists>m'. Ping E io u node m = Some (Ok (False, None), m') \<and> sendable hinv elems m'"
  using Ping_sendable [OF assms(1)] assms(2) by blast

lemma sendPeers_sendable:
  "sendable hinv elems m \<Longrightarrow>
   \<exists>r m'. sendPeers E ind peers m = Some (r, m') \<and> sendable hinv elems m' \<and> (\<forall>p. r \<noteq> Panic p)"
proof (induction peers arbitrary: m)
  case (Cons peer peers)
  from encodeAndSendUdp_sendable [OF Cons.prems] obtain r1 m1 where
    s: "encodeAndSendUdp E (UDPAddress (ns_Node peer)) indirectPingMsg (P_indirectPing ind) m = Some (r1, m1)"
      "sendable hinv elems m1" "\<forall>p. r1 \<noteq> Panic p" by blast
  with Cons.IH [OF s(2)] show ?case by (cases r1) auto
qed simp

lemma IndirectPing_silent:
  assumes "sendable hinv elems m" and "\<not> io_acked io" and "0 \<le> c_NumIndirectChecks (m_config m)"
  shows "\<exists>ind m'. IndirectPing E io node m = Some (Ok ind, m') \<and> \<not> ir_success ind"
proof (cases "GetAdvertiseAddr m")
  case (Ok a)
  obtain ip port where a: "a = (ip, port)" by fastforce
  obtain peers where peers: "pickRandomNodes (io_rnd io) (c_NumIndirectChecks (m_config m))
      (\<lambda>i n. n_ID (ns_Node n) \<noteq> ID m \<and> n_ID (ns_Node n) \<noteq> n_ID (ns_Node node) \<and> ns_State n = StateAlive) m = Ok peers"
    using assms(3) by (auto simp: pickRandomNodes_def)
  let ?seq = "pm_seqNo (m_pingMng m) + 1"
  let ?ind = "\<lparr>i_SeqNo = ?seq, i_ID = n_ID (ns_Node node), i_IP = n_IP (ns_Node node),
    i_Port = n_Port (ns_Node node), i_SourceIP = ip, i_SourcePort = port\<rparr>"
  let ?m1 = "m\<lparr>m_pingMng := setIndirectAckHandler ?seq (io_iackCh io) (io_cell io) ((m_pingMng m)\<lparr>pm_seqNo := ?seq\<rparr>)\<rparr>"
  have "sendable hinv elems ?m1" using assms(1) by simp
  from sendPeers_sendable [OF this] obtain r m' where
    s: "sendPeers E ?ind peers ?m1 = Some (r, m')" "\<forall>p. r \<noteq> Panic p" by blast
  show ?thesis
  proof (cases "peers = []")
    case True
    with Ok a peers show ?thesis by (simp add: IndirectPing_def noResult_def)
  next
    case False
    with Ok a peers s assms(2) show ?thesis
      by (cases r) (auto simp: IndirectPing_def nextSeqNo_def Let_def noResult_def)
  qed
next
  case (Err e)
  then show ?thesis by (simp add: IndirectPing_def noResult_def)
next
  case (Panic e)
  then show ?thesis by (simp add: GetAdvertiseAddr_def split: option.splits)
qed

text \<open>A node that does not answer in any way is suspected.\<close>

lemma probeNode_silent:
  assumes wf: "member_wf m" and snd: "sendable hinv elems m" and other: "n_ID (ns_Node node) \<noteq> ID m"
    and checks: "0 \<le> c_NumIndirectChecks (m_config m)"
    and silent: "io_reply io = None" "\<not> io_acked io" "io_dial io = Err e"
  shows "\<exists>m'. probeNode E io u node m = Some (Ok m')
    \<and> lookup m' = suspect_spec (io_now io) (probeSuspect node m) (lookup m)"
proof -
  obtain m1 where p: "Ping E io u node m = Some (Ok (False, None), m1)" "sendable hinv elems m1"
    using Ping_silent [OF snd silent(1)] by blast
  note f1 = Ping_frame [OF p(1)]
  obtain ind m2 where i: "IndirectPing E io node m1 = Some (Ok ind, m2)" "\<not> ir_success ind"
    using IndirectPing_silent [OF p(2) silent(2)] checks probe_frame_simps(1) [OF f1] by metis
  obtain m3 where t: "TcpPing E io node m2 = (Ok False, m3)"
    using silent(3) by (cases "GetAdvertiseAddr m2") (auto simp: TcpPing_def GetAdvertiseAddr_def Let_def nextSeqNo_def split: option.splits)
  obtain res where w: "waitProbe ind False (io_order io) noResult = (False, res)"
    using waitProbe_silent [OF i(2), of "io_order io" noResult] by (cases "waitProbe ind False (io_order io) noResult") auto
  let ?m4 = "punish (ir_numNode res - ir_nNacks res) m3"
  have f4: "probe_frame m ?m4"
    using f1 IndirectPing_frame [OF i(1)] TcpPing_frame [OF t] by (blast intro: probe_frame_trans)
  have "probeNode E io u node m = map_option Ok (suspectNode E (io_now io) (probeSuspect node m) ?m4)"
    using p i t w by (simp add: probeNode_def Let_def)
  with probe_suspects [OF wf other f4, of E "io_now io"] show ?thesis by auto
qed

end

section \<open>Scheduling\<close>

datatype task = ProbeTask | GossipTask | ReapTask | PushPullTask

text \<open>\<open>schedule\<close>: the goroutines it starts, with their intervals.\<close>

definition schedule :: "Config \<Rightarrow> (task \<times> duration) list" where
  "schedule c =
     (if c_ProbeInterval c > 0 then [(ProbeTask, c_ProbeInterval c)] else [])
     @ (if c_GossipInterval c > 0 \<and> c_GossipNodes c > 0 then [(GossipTask, c_GossipInterval c)] else [])
     @ (if c_ReapInterval c > 0 then [(ReapTask, c_ReapInterval c)] else [])
     @ (if c_PushPullInterval c > 0 then [(PushPullTask, c_PushPullInterval c)] else [])"

text \<open>The random wait before the first tick; \<open>r\<close> is what \<open>rand.Int63()\<close> gave.\<close>

definition jitter :: "int \<Rightarrow> duration \<Rightarrow> duration" where
  "jitter r interval = wrap64 ((r mod 2 ^ 64) mod (interval mod 2 ^ 64))"

text \<open>
  The loops of \<open>scheduleFunc\<close> and \<open>scheduleFuncWithScale\<close> over what their select receives: a tick
  runs the task, a stop ends the loop. The scaled loop also returns the intervals it waited.
\<close>

datatype tick = Tick | Stop

fun scheduleFunc :: "('s \<Rightarrow> 's) \<Rightarrow> tick list \<Rightarrow> 's \<Rightarrow> 's" where
  "scheduleFunc f [] s = s"
| "scheduleFunc f (Tick # ts) s = scheduleFunc f ts (f s)"
| "scheduleFunc f (Stop # ts) s = s"

fun scheduleFuncWithScale :: "duration \<Rightarrow> (duration \<Rightarrow> int \<Rightarrow> duration) \<Rightarrow> ('h Memberlist \<Rightarrow> 'h Memberlist)
    \<Rightarrow> tick list \<Rightarrow> 'h Memberlist \<Rightarrow> 'h Memberlist \<times> duration list" where
  "scheduleFuncWithScale interval scaleFunc f [] m = (m, [scaleFunc interval (GetNumNodes m)])"
| "scheduleFuncWithScale interval scaleFunc f (Tick # ts) m =
     (let (m', ws) = scheduleFuncWithScale interval scaleFunc f ts (f m)
      in (m', scaleFunc interval (GetNumNodes m) # ws))"
| "scheduleFuncWithScale interval scaleFunc f (Stop # ts) m = (m, [scaleFunc interval (GetNumNodes m)])"

lemma schedule_positive: "(t, i) \<in> set (schedule c) \<Longrightarrow> 0 < i"
  by (auto simp: schedule_def split: if_splits)

lemma jitter_bounds:
  assumes "0 \<le> r" "r < 2 ^ 63" "0 < interval" "interval < 2 ^ 63"
  shows "0 \<le> jitter r interval" and "jitter r interval < interval"
proof -
  have "r mod 2 ^ 64 = r" "interval mod 2 ^ 64 = interval" using assms by simp_all
  moreover have b: "0 \<le> r mod interval" "r mod interval < interval" using assms by simp_all
  moreover have "wrap64 (r mod interval) = r mod interval"
    using b order.strict_trans [OF b(2) assms(4)] by (intro wrap64_id) linarith+
  ultimately show "0 \<le> jitter r interval" "jitter r interval < interval" by (simp_all add: jitter_def)
qed

end
