(* ===== verification/PushPull.thy ===== *)
theory PushPull
  imports Probe
begin

text \<open>
  The exchange of full states of \<^verbatim>\<open>src/pushpull.go\<close>. A decoder that reads from a stream returns
  the struct and the rest of the stream. The user's state delegate is a parameter: \<open>usr\<close> is what
  its \<open>LocalState\<close> returned, if there is a delegate, and the state to be passed to its \<open>Merge\<close> is
  part of the result.
\<close>

section \<open>Encoding and reading states\<close>

definition localState :: "'h Memberlist \<Rightarrow> stateToMerge list" where
  "localState m =
     map (\<lambda>n. \<lparr>r_Lives = ns_Lives n, r_ID = n_ID (ns_Node n), r_IP = n_IP (ns_Node n),
               r_Port = n_Port (ns_Node n), r_Tags = n_Tags (ns_Node n), r_State = ns_State n\<rparr>)
       (nodeList m)"

fun encodeStates :: "codec \<Rightarrow> stateToMerge list \<Rightarrow> bytes outcome" where
  "encodeStates C [] = Ok []"
| "encodeStates C (n # ns) =
     (case enc C (P_state n) of
        None \<Rightarrow> Err ErrCodec
      | Some b \<Rightarrow> bind_outcome (encodeStates C ns) (\<lambda>bs. Ok (b @ bs)))"

definition encodePushPullMsg :: "codec \<Rightarrow> stateToMerge list \<Rightarrow> bytes \<Rightarrow> bytes outcome" where
  "encodePushPullMsg C localNodes usrState =
     (let header = \<lparr>h_Nodes = int (length localNodes), h_UserStateLen = int (length usrState)\<rparr>
      in case enc C (P_header header) of
           None \<Rightarrow> Err ErrCodec
         | Some h \<Rightarrow> bind_outcome (encodeStates C localNodes) (\<lambda>bs.
             Ok ([tag pushPullMsg] @ h @ bs @ (if length usrState \<noteq> 0 then usrState else []))))"

fun readStates :: "codec \<Rightarrow> nat \<Rightarrow> bytes \<Rightarrow> (stateToMerge list \<times> bytes) outcome" where
  "readStates C 0 r = Ok ([], r)"
| "readStates C (Suc n) r =
     (case dec_state C r of
        None \<Rightarrow> Err ErrCodec
      | Some (s, r') \<Rightarrow> bind_outcome (readStates C n r') (\<lambda>(ss, r''). Ok (s # ss, r'')))"

definition readRemoteState :: "codec \<Rightarrow> bytes \<Rightarrow> (stateToMerge list \<times> bytes) outcome" where
  "readRemoteState C r =
     (case dec_header C r of
        None \<Rightarrow> Err ErrCodec
      | Some (header, r1) \<Rightarrow>
          if h_Nodes header < 0 then Panic MakeSliceRange
          else bind_outcome (readStates C (nat (h_Nodes header)) r1) (\<lambda>(remoteNodes, r2).
            if h_UserStateLen header = 0 then Ok (remoteNodes, [])
            else if h_UserStateLen header < 0 then Panic MakeSliceRange
            else if int (length r2) < h_UserStateLen header then Err ErrEOF
            else Ok (remoteNodes, take (nat (h_UserStateLen header)) r2)))"

section \<open>Merging\<close>

text \<open>\<open>mergeState\<close>; entry \<open>k\<close> of the list is merged with the clock and the random number at \<open>k\<close>.\<close>

fun mergeState :: "'h env \<Rightarrow> (nat \<Rightarrow> time) \<Rightarrow> (nat \<Rightarrow> u32) \<Rightarrow> nat \<Rightarrow> stateToMerge list \<Rightarrow> 'h Memberlist
    \<Rightarrow> 'h Memberlist option" where
  "mergeState E clock rnd k [] m = Some m"
| "mergeState E clock rnd k (r # rs) m =
     (case (case r_State r of
              StateAlive \<Rightarrow>
                Some (aliveNode E (clock k) (rnd k)
                  \<lparr>a_Lives = r_Lives r, a_ID = r_ID r, a_IP = r_IP r, a_Port = r_Port r, a_Tags = r_Tags r\<rparr> None m)
            | StateLeft \<Rightarrow> deadNode E (clock k) \<lparr>d_Lives = r_Lives r, d_ID = r_ID r, d_Left = True\<rparr> None m
            | StateDead \<Rightarrow> suspectNode E (clock k) \<lparr>s_Lives = r_Lives r, s_ID = r_ID r, s_From = ID m\<rparr> m
            | StateSuspect \<Rightarrow> suspectNode E (clock k) \<lparr>s_Lives = r_Lives r, s_ID = r_ID r, s_From = ID m\<rparr> m
            | StateOther _ \<Rightarrow> Some m) of
        None \<Rightarrow> None
      | Some m' \<Rightarrow> mergeState E clock rnd (k + 1) rs m')"

section \<open>The exchange\<close>

definition sendLocalState :: "'h env \<Rightarrow> bytes outcome \<Rightarrow> bytes option \<Rightarrow> tcp_conn \<Rightarrow> string \<Rightarrow> 'h Memberlist
    \<Rightarrow> unit outcome" where
  "sendLocalState E nonce usr conn streamLabel m =
     bind_outcome (encodePushPullMsg (e_codec E) (localState m) (case usr of None \<Rightarrow> [] | Some u \<Rightarrow> u)) (\<lambda>msg.
       sendTcp E nonce conn msg streamLabel m)"

definition sendAndReceiveState :: "'h env \<Rightarrow> bytes outcome \<Rightarrow> bytes option \<Rightarrow> tcp_conn outcome \<Rightarrow> 'h Memberlist
    \<Rightarrow> (stateToMerge list \<times> bytes) outcome" where
  "sendAndReceiveState E nonce usr dial m =
     bind_outcome dial (\<lambda>conn.
     bind_outcome (sendLocalState E nonce usr conn (c_Label (m_config m)) m) (\<lambda>_.
     bind_outcome (unpackStream (e_codec E) (m_keyring m) (tc_reply conn) (c_Label (m_config m))) (\<lambda>(mtype, r).
       if mtype = tag errMsg
       then bind_outcome (decode (dec_errResp (e_codec E)) r) (\<lambda>resp. Err (ErrRemote (e_Error resp)))
       else if mtype \<noteq> tag pushPullMsg then Err (ErrMsgType mtype)
       else readRemoteState (e_codec E) r)))"

text \<open>\<open>pushPullWithNode\<close>; on success, the state passed to the user's \<open>Merge\<close>, if there is a delegate.\<close>

definition pushPullWithNode :: "'h env \<Rightarrow> (nat \<Rightarrow> time) \<Rightarrow> (nat \<Rightarrow> u32) \<Rightarrow> bytes outcome \<Rightarrow> bytes option
    \<Rightarrow> tcp_conn outcome \<Rightarrow> 'h Memberlist \<Rightarrow> (bytes option outcome \<times> 'h Memberlist) option" where
  "pushPullWithNode E clock rnd nonce usr dial m =
     (case sendAndReceiveState E nonce usr dial m of
        Err e \<Rightarrow> Some (Err e, m)
      | Panic p \<Rightarrow> Some (Panic p, m)
      | Ok (remoteNodes, remoteUserState) \<Rightarrow>
          (case mergeState E clock rnd 0 remoteNodes m of
             None \<Rightarrow> None
           | Some m' \<Rightarrow> Some (Ok (case usr of None \<Rightarrow> None | Some _ \<Rightarrow> Some remoteUserState), m')))"

definition pushPull :: "'h env \<Rightarrow> (nat \<Rightarrow> u32) \<Rightarrow> (nat \<Rightarrow> time) \<Rightarrow> (nat \<Rightarrow> u32) \<Rightarrow> bytes outcome \<Rightarrow> bytes option
    \<Rightarrow> (UDPAddr \<Rightarrow> tcp_conn outcome) \<Rightarrow> 'h Memberlist \<Rightarrow> 'h Memberlist outcome option" where
  "pushPull E pick clock rnd nonce usr dial m =
     (case pickRandomNodes pick 1 (\<lambda>i n. n_ID (ns_Node n) \<noteq> ID m \<and> ns_State n = StateAlive) m of
        Err e \<Rightarrow> Some (Err e)
      | Panic p \<Rightarrow> Some (Panic p)
      | Ok nodes \<Rightarrow>
          (case nodes of
             [] \<Rightarrow> Some (Ok m)
           | node # _ \<Rightarrow>
               (case pushPullWithNode E clock rnd nonce usr (dial (UDPAddress (ns_Node node))) m of
                  None \<Rightarrow> None
                | Some (Panic p, m') \<Rightarrow> Some (Panic p)
                | Some (_, m') \<Rightarrow> Some (Ok m'))))"

section \<open>The state round-trips\<close>

context codec_laws
begin

lemma readStates_encodeStates:
  "encodeStates C ns = Ok b \<Longrightarrow> readStates C (length ns) (b @ rest) = Ok (ns, rest)"
proof (induction ns arbitrary: b)
  case (Cons n ns)
  then obtain b1 b2 where b: "enc C (P_state n) = Some b1" "encodeStates C ns = Ok b2" "b = b1 @ b2"
    by (auto simp: bind_outcome_eq_Ok split: option.splits)
  with Cons.IH [OF b(2)] state [OF b(1), of "b2 @ rest"] show ?case by simp
qed simp

lemma readRemoteState_encodePushPullMsg:
  assumes "encodePushPullMsg C ns usr = Ok msg"
  shows "\<exists>body. msg = tag pushPullMsg # body \<and> readRemoteState C (body @ rest) = Ok (ns, usr)"
proof -
  let ?h = "\<lparr>h_Nodes = int (length ns), h_UserStateLen = int (length usr)\<rparr>"
  obtain h b where h: "enc C (P_header ?h) = Some h" and b: "encodeStates C ns = Ok b"
    and msg: "msg = tag pushPullMsg # h @ b @ usr"
    using assms by (auto simp: encodePushPullMsg_def bind_outcome_eq_Ok split: option.splits if_splits)
  have "readRemoteState C ((h @ b @ usr) @ rest) = Ok (ns, usr)"
    using header [OF h, of "b @ usr @ rest"] readStates_encodeStates [OF b, of "usr @ rest"]
    by (simp add: readRemoteState_def)
  with msg show ?thesis by simp
qed

end

section \<open>Merging is a history of membership messages\<close>

fun mergeInput :: "string \<Rightarrow> time \<Rightarrow> u32 \<Rightarrow> stateToMerge \<Rightarrow> input option" where
  "mergeInput self now rnd r =
     (case r_State r of
        StateAlive \<Rightarrow> Some (InAlive now rnd
          \<lparr>a_Lives = r_Lives r, a_ID = r_ID r, a_IP = r_IP r, a_Port = r_Port r, a_Tags = r_Tags r\<rparr> None)
      | StateLeft \<Rightarrow> Some (InDead now \<lparr>d_Lives = r_Lives r, d_ID = r_ID r, d_Left = True\<rparr> None)
      | StateDead \<Rightarrow> Some (InSuspect now \<lparr>s_Lives = r_Lives r, s_ID = r_ID r, s_From = self\<rparr>)
      | StateSuspect \<Rightarrow> Some (InSuspect now \<lparr>s_Lives = r_Lives r, s_ID = r_ID r, s_From = self\<rparr>)
      | StateOther _ \<Rightarrow> None)"

declare mergeInput.simps [simp del]

fun mergeInputs :: "string \<Rightarrow> (nat \<Rightarrow> time) \<Rightarrow> (nat \<Rightarrow> u32) \<Rightarrow> nat \<Rightarrow> stateToMerge list \<Rightarrow> input list" where
  "mergeInputs self clock rnd k [] = []"
| "mergeInputs self clock rnd k (r # rs) =
     (case mergeInput self (clock k) (rnd k) r of None \<Rightarrow> [] | Some i \<Rightarrow> [i])
     @ mergeInputs self clock rnd (k + 1) rs"

lemma runOps_append: "runOps op (xs @ ys) m = (case runOps op xs m of None \<Rightarrow> None | Some m' \<Rightarrow> runOps op ys m')"
  by (induction xs arbitrary: m) (simp_all split: option.split)

lemma handle_ID: "handle E i m = Some m' \<Longrightarrow> ID m' = ID m"
  using hi.keeps_config [of E i m m'] by (simp add: ID_def)

lemma mergeState_history:
  "mergeState E clock rnd k rs m = runOps (handle E) (mergeInputs (ID m) clock rnd k rs) m"
proof (induction rs arbitrary: k m)
  case (Cons r rs)
  show ?case
  proof (cases "mergeInput (ID m) (clock k) (rnd k) r")
    case None
    with Cons show ?thesis by (simp add: mergeInput.simps split: StateType.splits)
  next
    case (Some i)
    have "mergeState E clock rnd k (r # rs) m
        = (case handle E i m of None \<Rightarrow> None | Some m' \<Rightarrow> mergeState E clock rnd (k + 1) rs m')"
      using Some by (auto simp: mergeInput.simps split: StateType.splits)
    also have "\<dots> = runOps (handle E) (mergeInputs (ID m) clock rnd k (r # rs)) m"
      using Some Cons.IH by (auto dest: handle_ID split: option.split)
    finally show ?thesis .
  qed
qed simp

text \<open>A message blocks the node only if it accuses the local node at the largest number of lives.\<close>

fun maxAccusation :: "'h Memberlist \<Rightarrow> input \<Rightarrow> bool" where
  "maxAccusation m (InSuspect now s) \<longleftrightarrow> s_Lives s = - 1 \<and> accused m (s_ID s) (s_Lives s)"
| "maxAccusation m (InDead now d notify) \<longleftrightarrow> d_Lives d = - 1 \<and> accused m (d_ID d) (d_Lives d) \<and> \<not> m_left m"
| "maxAccusation m _ \<longleftrightarrow> False"

lemma handle_blocks:
  assumes wf: "member_wf m"
  shows "handle E i m = None \<longleftrightarrow> maxAccusation m i"
proof (cases i)
  case (InSuspect now s)
  with suspectNode_view_wf [OF wf, of E now s] show ?thesis by (cases "suspectNode E now s m") (auto split: if_splits)
next
  case (InDead now d notify)
  with deadNode_view_wf [OF wf, of E now d notify] show ?thesis
    by (cases "deadNode E now d notify m") (auto split: if_splits)
next
  case (InTimeout now j l)
  show ?thesis
  proof (cases "\<exists>n. lookup m j = Some n \<and> ns_State n = StateSuspect \<and> ns_Lives n = l")
    case True
    then obtain n where "lookup m j = Some n" "ns_State n = StateSuspect" "ns_Lives n = l" by blast
    from timeoutFn_current [OF wf this, of E now] InTimeout show ?thesis by auto
  qed (simp add: InTimeout timeoutFn_stale)
qed simp

text \<open>A message that is not about the local node, or not at the largest number of lives, is harmless.\<close>

fun harmless :: "string \<Rightarrow> input \<Rightarrow> bool" where
  "harmless self (InSuspect now s) \<longleftrightarrow> s_ID s \<noteq> self \<or> s_Lives s \<noteq> - 1"
| "harmless self (InDead now d notify) \<longleftrightarrow> d_ID d \<noteq> self \<or> d_Lives d \<noteq> - 1"
| "harmless self _ \<longleftrightarrow> True"

lemma harmless_not_max: "harmless (ID m) i \<Longrightarrow> \<not> maxAccusation m i"
  by (cases i) (auto simp: accused_def)

lemma run_returns:
  assumes "member_wf m" and "\<forall>i \<in> set is. harmless (ID m) i"
  shows "\<exists>m'. runOps (handle E) is m = Some m'"
  using assms
proof (induction "is" arbitrary: m)
  case (Cons i "is")
  have "\<not> maxAccusation m i" using Cons.prems(2) by (intro harmless_not_max) simp
  then obtain m1 where m1: "handle E i m = Some m1" using handle_blocks [OF Cons.prems(1), of E i] by auto
  have "member_wf m1" using Cons.prems(1) m1 by (rule hi.keeps_wf)
  moreover have "ID m1 = ID m" using m1 by (rule handle_ID)
  ultimately show ?case using Cons m1 by auto
qed simp

lemma mergeInputs_harmless:
  assumes "\<forall>r \<in> set rs. r_ID r \<noteq> self \<or> r_Lives r \<noteq> - 1"
  shows "\<forall>i \<in> set (mergeInputs self clock rnd k rs). harmless self i"
  using assms
proof (induction rs arbitrary: k)
  case (Cons r rs)
  have "harmless self i" if "mergeInput self (clock k) (rnd k) r = Some i" for i
    using that Cons.prems by (auto simp: mergeInput.simps split: StateType.splits)
  with Cons show ?case by (cases "mergeInput self (clock k) (rnd k) r") simp_all
qed simp

lemma mergeState_returns:
  assumes "member_wf m" and "\<forall>r \<in> set rs. r_ID r \<noteq> ID m \<or> r_Lives r \<noteq> - 1"
  shows "\<exists>m'. mergeState E clock rnd k rs m = Some m'"
  unfolding mergeState_history using assms by (intro run_returns) (simp_all add: mergeInputs_harmless)

section \<open>Merging spreads what is alive\<close>

lemma alive_spec_lives: "\<exists>n. alive_spec now a V (a_ID a) = Some n \<and> a_Lives a \<le> ns_Lives n"
  by (cases "V (a_ID a)") (auto simp: alive_spec_def)

lemma precedes_lives: "precedes n n' \<Longrightarrow> ns_Lives n \<le> ns_Lives n'"
  by (auto simp: precedes_def)

lemma mergeInputs_split:
  "rs = pre @ r # post \<Longrightarrow> mergeInput self (clock (k + length pre)) (rnd (k + length pre)) r = Some i \<Longrightarrow>
   \<exists>xs ys. mergeInputs self clock rnd k rs = xs @ i # ys"
proof (induction pre arbitrary: k rs)
  case (Cons p pre)
  from Cons.IH [of "pre @ r # post" "k + 1"] Cons.prems obtain xs ys where
    "mergeInputs self clock rnd (k + 1) (pre @ r # post) = xs @ i # ys" by auto
  then have "mergeInputs self clock rnd k rs =
      ((case mergeInput self (clock k) (rnd k) p of None \<Rightarrow> [] | Some i \<Rightarrow> [i]) @ xs) @ i # ys"
    using Cons.prems(1) by simp
  then show ?case by blast
qed auto

lemma mergeState_spreads:
  assumes wf: "member_wf m" and merge: "mergeState E clock rnd k rs m = Some m'"
    and r: "r \<in> set rs" "r_State r = StateAlive" "IPAllowed (m_config m) (r_IP r)" "r_ID r \<noteq> ID m"
  shows "\<exists>n. lookup m' (r_ID r) = Some n \<and> r_Lives r \<le> ns_Lives n"
proof -
  obtain pre post where rs: "rs = pre @ r # post" using r(1) by (meson split_list)
  let ?k = "k + length pre"
  let ?a = "\<lparr>a_Lives = r_Lives r, a_ID = r_ID r, a_IP = r_IP r, a_Port = r_Port r, a_Tags = r_Tags r\<rparr>"
  obtain xs ys where "mergeInputs (ID m) clock rnd k rs = xs @ InAlive (clock ?k) (rnd ?k) ?a None # ys"
    using mergeInputs_split [OF rs, of "ID m" clock k rnd] r(2) by (auto simp: mergeInput.simps)
  then obtain m1 where m1: "runOps (handle E) xs m = Some m1"
    and m': "runOps (handle E) ys (aliveNode E (clock ?k) (rnd ?k) ?a None m1) = Some m'"
    using merge by (auto simp: mergeState_history runOps_append split: option.splits)
  have wf1: "member_wf m1" and cfg: "m_config m1 = m_config m"
    using hi.run_wf [OF wf m1] hi.run_config [OF m1] by simp_all
  have "admits m1 ?a" using r(3,4) cfg by (simp add: admits_def ID_def)
  then obtain n where n: "lookup (aliveNode E (clock ?k) (rnd ?k) ?a None m1) (r_ID r) = Some n" "r_Lives r \<le> ns_Lives n"
    using alive_spec_lives [of "clock ?k" ?a "lookup m1"] by (auto simp: aliveNode_view_wf [OF wf1])
  have "view_le (lookup (aliveNode E (clock ?k) (rnd ?k) ?a None m1)) (lookup m')"
    using aliveNode_view_wf(2) [OF wf1] m' by (rule hi.run_inflates)
  then obtain n' where "lookup m' (r_ID r) = Some n'" "precedes n n'" using n(1) by (auto simp: view_le_def)
  with n(2) precedes_lives show ?thesis by (meson order_trans)
qed

lemma localState_lookup:
  assumes "member_wf m" and "lookup m i = Some n"
  shows "\<exists>r \<in> set (localState m). r_ID r = i \<and> r_Lives r = ns_Lives n \<and> r_State r = ns_State n
    \<and> r_IP r = n_IP (ns_Node n)"
proof -
  obtain p where p: "m_nodeMap m i = Some p" "m_store m p = n" using assms(2) by (auto simp: lookup_Some)
  then have "p \<in> set (m_nodes m)" "n_ID (ns_Node n) = i" using member_wf_ptr [OF assms(1) p(1)] by simp_all
  with p(2) show ?thesis by (auto simp: localState_def nodeList_def)
qed

lemma localState_from_lookup:
  assumes "member_wf m" and "r \<in> set (localState m)"
  shows "\<exists>n. lookup m (r_ID r) = Some n \<and> r_Lives r = ns_Lives n \<and> r_State r = ns_State n"
proof -
  obtain p where p: "p \<in> set (m_nodes m)" "r_ID r = nid m p" "r_Lives r = ns_Lives (m_store m p)"
    "r_State r = ns_State (m_store m p)"
    using assms(2) by (auto simp: localState_def nodeList_def nid_def)
  then have "m_nodeMap m (r_ID r) = Some p" using assms(1) by (simp add: member_wf_def table_wf_def)
  with p show ?thesis by (simp add: lookup_def)
qed

text \<open>
  \<open>answers E mB usrB nonce conn\<close>: the peer \<open>mB\<close> writes its own state to the connection, as its
  \<open>sendLocalState\<close> does, and takes all that is written to it.
\<close>

definition answers :: "'h env \<Rightarrow> 'h Memberlist \<Rightarrow> bytes \<Rightarrow> bytes \<Rightarrow> tcp_conn \<Rightarrow> bool" where
  "answers E mB usrB nonce conn \<longleftrightarrow>
     (\<forall>x. tc_write conn x = Ok (length x)) \<and> length nonce = 12
     \<and> (\<exists>msg p rest. encodePushPullMsg (e_codec E) (localState mB) usrB = Ok msg
          \<and> int (length msg) + 29 \<le> maxPushSize
          \<and> packTcp (e_codec E) (m_config mB) (m_keyring mB) (Ok nonce) msg (c_Label (m_config mB)) = Ok p
          \<and> tc_reply conn = p @ rest)"

context net_env
begin

lemma sendAndReceiveState_answered:
  assumes ans: "answers E mB usrB nonceB conn" and label: "c_Label (m_config mB) = c_Label (m_config m)"
    and agree: "keyrings_agree (m_keyring mB) (m_keyring m)"
    and send: "sendLocalState E nonce usr conn (c_Label (m_config m)) m = Ok ()"
  shows "sendAndReceiveState E nonce usr (Ok conn) m = Ok (localState mB, usrB)"
proof -
  obtain msg p rest where a: "encodePushPullMsg (e_codec E) (localState mB) usrB = Ok msg"
      "int (length msg) + 29 \<le> maxPushSize"
      "packTcp (e_codec E) (m_config mB) (m_keyring mB) (Ok nonceB) msg (c_Label (m_config mB)) = Ok p"
      "tc_reply conn = p @ rest" and n: "length nonceB = 12"
    using ans by (auto simp: answers_def)
  obtain body where body: "msg = tag pushPullMsg # body"
    "\<And>r. readRemoteState (e_codec E) (body @ r) = Ok (localState mB, usrB)"
    using readRemoteState_encodePushPullMsg [OF a(1)] by (metis list.inject)
  have "\<exists>r. unpackStream (e_codec E) (m_keyring m) (p @ rest) (c_Label (m_config mB)) = Ok (tag pushPullMsg, body @ r)"
    using a(3) n agree a(2) unfolding body(1) by (intro unpackStream_packTcp) simp_all
  then show ?thesis using send body(2) a(4) label by (auto simp: sendAndReceiveState_def)
qed

text \<open>After a push/pull with a peer, every node the peer holds alive is known with at least its lives.\<close>

lemma pushPullWithNode_spreads:
  assumes wf: "member_wf m" "member_wf mB"
    and ans: "answers E mB usrB nonceB conn" and label: "c_Label (m_config mB) = c_Label (m_config m)"
    and agree: "keyrings_agree (m_keyring mB) (m_keyring m)"
    and send: "sendLocalState E nonce usr conn (c_Label (m_config m)) m = Ok ()"
    and own: "\<And>n. lookup mB (ID m) = Some n \<Longrightarrow> ns_Lives n \<noteq> - 1"
  shows "\<exists>u m'. pushPullWithNode E clock rnd nonce usr (Ok conn) m = Some (Ok u, m') \<and> member_wf m'
    \<and> (\<forall>i n. lookup mB i = Some n \<and> ns_State n = StateAlive \<and> i \<noteq> ID m \<and> IPAllowed (m_config m) (n_IP (ns_Node n))
         \<longrightarrow> (\<exists>n'. lookup m' i = Some n' \<and> ns_Lives n \<le> ns_Lives n'))"
proof -
  have "\<forall>r \<in> set (localState mB). r_ID r \<noteq> ID m \<or> r_Lives r \<noteq> - 1"
    using localState_from_lookup [OF wf(2)] own by metis
  then obtain m' where m': "mergeState E clock rnd 0 (localState mB) m = Some m'"
    using mergeState_returns [OF wf(1)] by blast
  then have "member_wf m'" unfolding mergeState_history by (rule hi.run_wf [OF wf(1)])
  moreover have "\<exists>n'. lookup m' i = Some n' \<and> ns_Lives n \<le> ns_Lives n'"
    if n: "lookup mB i = Some n" "ns_State n = StateAlive" "i \<noteq> ID m" "IPAllowed (m_config m) (n_IP (ns_Node n))" for i n
    using localState_lookup [OF wf(2) n(1)] mergeState_spreads [OF wf(1) m'] n(2-4) by metis
  ultimately show ?thesis
    using m' sendAndReceiveState_answered [OF ans label agree send] by (simp add: pushPullWithNode_def)
qed

end

text \<open>Reading the entries of a state fails only with an error.\<close>

lemma readStates_no_panic: "readStates C n r \<noteq> Panic p"
  by (induction n arbitrary: r p) (auto split: option.splits simp: bind_outcome_eq_Panic)

end
