(* ===== verification/Handlers.thy ===== *)
theory Handlers
  imports PushPull
begin

text \<open>
  The handlers of incoming packets and of long-running messages of \<^verbatim>\<open>src/net_handlers.go\<close>. The result of a handler
  is the new state; errors that the code only logs leave no other trace. \<open>None\<close> is a handler that
  never returns, because it waits for the mutex of the long-run queue or hangs in a refutation, and
  \<open>Panic\<close> one that panics.

  The goroutine a request for an indirect ping starts is run in place; \<open>hio_ping\<close> gives what it
  receives, by the sequence number its ping draws. \<open>hio_payload\<close> is what the ping delegate returns,
  if there is one.
\<close>

record handler_io =
  hio_payload :: "bytes option"
  hio_ping :: "u32 \<Rightarrow> probe_io"

section \<open>Packets\<close>

definition sentTo :: "(unit outcome \<times> 'h Memberlist) option \<Rightarrow> 'h Memberlist outcome option" where
  "sentTo r = (case r of None \<Rightarrow> None | Some (Panic p, m) \<Rightarrow> Some (Panic p) | Some (_, m) \<Rightarrow> Some (Ok m))"

definition handlePing :: "'h env \<Rightarrow> handler_io \<Rightarrow> bytes \<Rightarrow> UDPAddr \<Rightarrow> 'h Memberlist \<Rightarrow> 'h Memberlist outcome option" where
  "handlePing E hio buf from m =
     (case decode (dec_ping (e_codec E)) buf of
        Ok p \<Rightarrow>
          if p_ID p \<noteq> '''' \<and> p_ID p \<noteq> ID m then Some (Ok m)
          else
            let a = \<lparr>k_SeqNo = p_SeqNo p, k_Payload = (case hio_payload hio of None \<Rightarrow> [] | Some b \<Rightarrow> b)\<rparr>;
                addr = (if length (p_SourceIP p) > 0 \<and> p_SourcePort p > 0
                        then \<lparr>ua_IP = p_SourceIP p, ua_Port = int (unat (p_SourcePort p))\<rparr> else from)
            in sentTo (encodeAndSendUdp E addr ackMsg (P_ack a) m)
      | _ \<Rightarrow> Some (Ok m))"

definition handleAck :: "'h env \<Rightarrow> bytes \<Rightarrow> time \<Rightarrow> 'h Memberlist \<Rightarrow> 'h Memberlist outcome option" where
  "handleAck E buf timestamp m =
     (case decode (dec_ack (e_codec E)) buf of
        Ok a \<Rightarrow> Some (Ok (m\<lparr>m_pingMng := invokeAckHandler a timestamp (m_pingMng m)\<rparr>))
      | _ \<Rightarrow> Some (Ok m))"

definition handleIndirectPing :: "'h env \<Rightarrow> handler_io \<Rightarrow> bytes \<Rightarrow> UDPAddr \<Rightarrow> 'h Memberlist
    \<Rightarrow> 'h Memberlist outcome option" where
  "handleIndirectPing E hio msg from m =
     (case decode (dec_indirectPing (e_codec E)) msg of
        Ok ind \<Rightarrow>
          (let addr = (if length (i_SourceIP ind) > 0 \<and> i_SourcePort ind > 0
                       then \<lparr>ua_IP = i_SourceIP ind, ua_Port = int (unat (i_SourcePort ind))\<rparr> else from);
               node = \<lparr>ns_Node = \<lparr>n_ID = i_ID ind, n_IP = i_IP ind, n_Port = i_Port ind, n_Tags = []\<rparr>,
                       ns_Lives = 0, ns_State = StateAlive, ns_StateChange = 0\<rparr>;
               io = hio_ping hio (fst (nextSeqNo (m_pingMng m)))
           in case Ping E io (hio_payload hio \<noteq> None) node m of
                None \<Rightarrow> None
              | Some (Panic p, m1) \<Rightarrow> Some (Panic p)
              | Some (Err e, m1) \<Rightarrow> Some (Err e)
              | Some (Ok (ok, _), m1) \<Rightarrow>
                  sentTo (encodeAndSendUdp E addr indirectAckMsg
                    (P_indirectAck \<lparr>ia_SeqNo = i_SeqNo ind, ia_Success = ok\<rparr>) m1))
      | _ \<Rightarrow> Some (Ok m))"

definition handleIndirectAck :: "'h env \<Rightarrow> bytes \<Rightarrow> 'h Memberlist \<Rightarrow> 'h Memberlist outcome option" where
  "handleIndirectAck E msg m =
     (case decode (dec_indirectAck (e_codec E)) msg of
        Ok a \<Rightarrow> Some (Ok (m\<lparr>m_pingMng := invokeIndirectAckHandler a (m_pingMng m)\<rparr>))
      | _ \<Rightarrow> Some (Ok m))"

definition queueMsg :: "msgType \<Rightarrow> bytes \<Rightarrow> UDPAddr \<Rightarrow> 'h Memberlist \<Rightarrow> 'h Memberlist outcome option" where
  "queueMsg t msg from m =
     (case queueLongRunMsg t msg from (m_longRunMng m) of
        None \<Rightarrow> None
      | Some (_, mng) \<Rightarrow> Some (Ok (m\<lparr>m_longRunMng := mng\<rparr>)))"

text \<open>The parts of a compound and their two-byte lengths all come from the compound's bytes.\<close>

definition msgWeight :: "bytes \<Rightarrow> nat" where
  "msgWeight msg = 2 * length msg + 1"

lemma splitMsgs_weight:
  "splitMsgs ls msg = (trunc, ms) \<Longrightarrow> length ms \<le> length ls \<and> sum_list (map length ms) \<le> length msg"
  by (induction ls msg arbitrary: trunc ms rule: splitMsgs.induct)
     (fastforce simp: Let_def split: if_splits prod.splits)+

lemma length_readLens_le: "length (readLens n bs) \<le> n"
  by (induction n bs rule: readLens.induct) auto

lemma unpackCompoundMsg_weight:
  assumes "unpackCompoundMsg msg = Ok (trunc, ms)"
  shows "sum_list (map (\<lambda>m. Suc (msgWeight m)) ms) < 2 * length msg"
proof -
  obtain b rest where msg: "msg = b # rest" "\<not> length rest < unat b * 2"
    and s: "splitMsgs (readLens (unat b) rest) (drop (unat b * 2) rest) = (trunc, ms)"
    using assms by (auto simp: unpackCompoundMsg_def Let_def split: list.splits if_splits)
  from splitMsgs_weight [OF s] length_readLens_le [of "unat b" rest]
  have "length ms \<le> unat b" "sum_list (map length ms) \<le> length rest - unat b * 2" by simp_all
  moreover have "sum_list (map (\<lambda>m. Suc (msgWeight m)) ms) = 2 * sum_list (map length ms) + 2 * length ms"
    by (induction ms) (simp_all add: msgWeight_def)
  ultimately show ?thesis using msg by simp
qed

text \<open>
  \<open>handleUdpMsg\<close> and \<open>handleCompound\<close>, whose loop over the parts of the compound is \<open>handleMsgs\<close>.
\<close>

function (sequential)
  handleUdpMsg :: "'h env \<Rightarrow> handler_io \<Rightarrow> UDPAddr \<Rightarrow> time \<Rightarrow> bytes \<Rightarrow> 'h Memberlist \<Rightarrow> 'h Memberlist outcome option"
  and handleCompound :: "'h env \<Rightarrow> handler_io \<Rightarrow> UDPAddr \<Rightarrow> time \<Rightarrow> bytes \<Rightarrow> 'h Memberlist \<Rightarrow> 'h Memberlist outcome option"
  and handleMsgs :: "'h env \<Rightarrow> handler_io \<Rightarrow> UDPAddr \<Rightarrow> time \<Rightarrow> bytes list \<Rightarrow> 'h Memberlist \<Rightarrow> 'h Memberlist outcome option"
where
  "handleUdpMsg E hio from ts [] m = Some (Ok m)"
| "handleUdpMsg E hio from ts (b # msg) m =
     (case toMsgType b of
        None \<Rightarrow> Some (Ok m)
      | Some mType \<Rightarrow>
          if isLongRunMsg mType then queueMsg mType msg from m
          else if mType = compoundMsg then handleCompound E hio from ts msg m
          else if mType = pingMsg then handlePing E hio msg from m
          else if mType = ackMsg then handleAck E msg ts m
          else if mType = indirectPingMsg then handleIndirectPing E hio msg from m
          else if mType = indirectAckMsg then handleIndirectAck E msg m
          else Some (Ok m))"
| "handleCompound E hio from ts msg m =
     (case unpackCompoundMsg msg of
        Ok (trunc, msgs) \<Rightarrow> handleMsgs E hio from ts msgs m
      | _ \<Rightarrow> Some (Ok m))"
| "handleMsgs E hio from ts [] m = Some (Ok m)"
| "handleMsgs E hio from ts (msg # msgs) m =
     (case handleUdpMsg E hio from ts msg m of
        None \<Rightarrow> None
      | Some (Ok m') \<Rightarrow> handleMsgs E hio from ts msgs m'
      | Some r \<Rightarrow> Some r)"
  by pat_completeness auto

termination
proof (relation "measure (\<lambda>x. case x of
      Inl (E, hio, from, ts, msg, m) \<Rightarrow> msgWeight msg
    | Inr (Inl (E, hio, from, ts, msg, m)) \<Rightarrow> 2 * length msg
    | Inr (Inr (E, hio, from, ts, msgs, m)) \<Rightarrow> sum_list (map (\<lambda>m. Suc (msgWeight m)) msgs))")
qed (auto simp: msgWeight_def dest!: unpackCompoundMsg_weight [unfolded msgWeight_def])

definition handlePacket :: "'h env \<Rightarrow> handler_io \<Rightarrow> bytes \<Rightarrow> UDPAddr \<Rightarrow> time \<Rightarrow> 'h Memberlist
    \<Rightarrow> 'h Memberlist outcome option" where
  "handlePacket E hio buf from timestamp m =
     (case unpackPacket (e_codec E) (m_keyring m) buf (c_Label (m_config m)) of
        Ok msg \<Rightarrow> handleUdpMsg E hio from timestamp msg m
      | Err e \<Rightarrow> Some (Ok m)
      | Panic p \<Rightarrow> Some (Panic p))"

section \<open>Compounds\<close>

lemma handleUdpMsg_compound:
  assumes "length msgs \<le> 255" and "\<forall>k \<in> set msgs. length k < 65536"
  shows "handleUdpMsg E hio from ts (packCompoundMsg msgs) m = handleMsgs E hio from ts msgs m"
proof -
  have "packCompoundMsg msgs = tag compoundMsg # tl (packCompoundMsg msgs)" by (simp add: packCompoundMsg_frame)
  moreover have "handleUdpMsg E hio from ts (tag compoundMsg # tl (packCompoundMsg msgs)) m = handleMsgs E hio from ts msgs m"
    using unpack_pack_compound [OF assms] by (simp add: isLongRunMsg_def del: tag_simps)
  ultimately show ?thesis by metis
qed

lemma handleMsgs_single: "handleMsgs E hio from ts [msg] m = handleUdpMsg E hio from ts msg m"
  by (auto split: option.splits outcome.splits)

lemma compound_part: "k \<in> set msgs \<Longrightarrow> length k + 4 \<le> length (packCompoundMsg msgs)"
  using member_le_sum_list [of "length k + 2" "map (\<lambda>m. length m + 2) msgs"]
  unfolding length_packCompoundMsg by force

section \<open>Long-running messages\<close>

definition handleAlive :: "'h env \<Rightarrow> time \<Rightarrow> u32 \<Rightarrow> bytes \<Rightarrow> UDPAddr \<Rightarrow> 'h Memberlist \<Rightarrow> 'h Memberlist" where
  "handleAlive E now rnd msg from m =
     (if \<not> IPAllowed (m_config m) (ua_IP from) then m
      else case decode (dec_alive (e_codec E)) msg of
             Ok a \<Rightarrow> aliveNode E now rnd a None m
           | _ \<Rightarrow> m)"

definition handleSuspect :: "'h env \<Rightarrow> time \<Rightarrow> bytes \<Rightarrow> 'h Memberlist \<Rightarrow> 'h Memberlist option" where
  "handleSuspect E now msg m =
     (case decode (dec_suspect (e_codec E)) msg of Ok s \<Rightarrow> suspectNode E now s m | _ \<Rightarrow> Some m)"

definition handleUser :: "bytes \<Rightarrow> 'h Memberlist \<Rightarrow> 'h Memberlist" where
  "handleUser msg m = m\<lparr>m_usrMsgCh := map_option (\<lambda>ch. ch @ [msg]) (m_usrMsgCh m)\<rparr>"

definition handleDead :: "'h env \<Rightarrow> time \<Rightarrow> bytes \<Rightarrow> 'h Memberlist \<Rightarrow> 'h Memberlist option" where
  "handleDead E now msg m =
     (case decode (dec_dead (e_codec E)) msg of Ok d \<Rightarrow> deadNode E now d None m | _ \<Rightarrow> Some m)"

definition handleLongRunMsg :: "'h env \<Rightarrow> time \<Rightarrow> u32 \<Rightarrow> longRunMsg \<Rightarrow> 'h Memberlist \<Rightarrow> 'h Memberlist option" where
  "handleLongRunMsg E now rnd x m =
     (if lm_type x = suspectMsg then handleSuspect E now (lm_msg x) m
      else if lm_type x = aliveMsg then Some (handleAlive E now rnd (lm_msg x) (lm_from x) m)
      else if lm_type x = deadMsg then handleDead E now (lm_msg x) m
      else if lm_type x = userMsg then Some (handleUser (lm_msg x) m)
      else Some m)"

text \<open>
  The inner loop of \<open>runLongRunMsgHandler\<close>, which empties the queues after a wake-up. The \<open>k\<close>-th
  message is handled at time \<open>clock k\<close> with the random number \<open>rnd k\<close>.
\<close>

partial_function (option) drainLongRun :: "'h env \<Rightarrow> (nat \<Rightarrow> time) \<Rightarrow> (nat \<Rightarrow> u32) \<Rightarrow> nat \<Rightarrow> 'h Memberlist
    \<Rightarrow> 'h Memberlist option" where
  "drainLongRun E clock rnd k m =
     (case getNextMsg (m_longRunMng m) of
        None \<Rightarrow> None
      | Some (Ok x, mng) \<Rightarrow>
          (case handleLongRunMsg E (clock k) (rnd k) x (m\<lparr>m_longRunMng := mng\<rparr>) of
             None \<Rightarrow> None
           | Some m' \<Rightarrow> drainLongRun E clock rnd (k + 1) m')
      | Some (Err e, mng) \<Rightarrow> Some (m\<lparr>m_longRunMng := mng\<rparr>)
      | Some (Panic p, mng) \<Rightarrow> None)"

section \<open>The handler loop\<close>

text \<open>The membership input a long-running message stands for, if it stands for one.\<close>

definition longRunInput :: "'h env \<Rightarrow> Config \<Rightarrow> time \<Rightarrow> u32 \<Rightarrow> longRunMsg \<Rightarrow> input option" where
  "longRunInput E cfg now rnd x =
     (if lm_type x = suspectMsg
      then (case decode (dec_suspect (e_codec E)) (lm_msg x) of Ok s \<Rightarrow> Some (InSuspect now s) | _ \<Rightarrow> None)
      else if lm_type x = aliveMsg \<and> IPAllowed cfg (ua_IP (lm_from x))
      then (case decode (dec_alive (e_codec E)) (lm_msg x) of Ok a \<Rightarrow> Some (InAlive now rnd a None) | _ \<Rightarrow> None)
      else if lm_type x = deadMsg
      then (case decode (dec_dead (e_codec E)) (lm_msg x) of Ok d \<Rightarrow> Some (InDead now d None) | _ \<Rightarrow> None)
      else None)"

lemma handleLongRunMsg_eq:
  "handleLongRunMsg E now rnd x m =
     (case longRunInput E (m_config m) now rnd x of
        Some i \<Rightarrow> handle E i m
      | None \<Rightarrow> Some (if lm_type x = userMsg then handleUser (lm_msg x) m else m))"
  by (auto simp: handleLongRunMsg_def longRunInput_def handleAlive_def handleSuspect_def handleDead_def
      split: outcome.splits)

lemma handleUser_simps [simp, frame_simps]:
  "lookup (handleUser msg m) = lookup m" "m_config (handleUser msg m) = m_config m"
  "m_longRunMng (handleUser msg m) = m_longRunMng m" "member_wf (handleUser msg m) = member_wf m"
proof -
  show "member_wf (handleUser msg m) = member_wf m" by (rule member_wf_cong) (simp_all add: handleUser_def)
qed (simp_all add: handleUser_def lookup_def fun_eq_iff)

interpretation lr: gossip_op "\<lambda>(now, rnd, x). handleLongRunMsg E now rnd x" for E :: "'h env"
proof (unfold_locales; clarify)
  fix m m' :: "'h Memberlist" and now :: time and rnd :: u32 and x :: longRunMsg
  assume *: "handleLongRunMsg E now rnd x m = Some m'"
  show "m_config m' = m_config m"
    using * hi.keeps_config by (auto simp: handleLongRunMsg_eq split: option.splits)
  assume "member_wf m"
  with * show "member_wf m'" "view_le (lookup m) (lookup m')"
    using hi.keeps_wf hi.inflates by (fastforce simp: handleLongRunMsg_eq split: option.splits)+
qed

lemma aliveNode_longRun [simp, frame_simps]: "m_longRunMng (aliveNode E now rnd a c m) = m_longRunMng m"
  by (simp add: aliveNode_def Let_def notify_defs setNode_def split: option.splits)

lemma refute_longRun: "refute E p l m = Some m' \<Longrightarrow> m_longRunMng m' = m_longRunMng m"
  by (auto simp: refute_def Let_def setNode_def split: option.splits)

lemma suspectNode_longRun: "suspectNode E now s m = Some m' \<Longrightarrow> m_longRunMng m' = m_longRunMng m"
  by (auto simp: suspectNode_def Let_def setNode_def split: option.splits if_splits prod.splits dest!: refute_longRun)

lemma deadNode_longRun: "deadNode E now d c m = Some m' \<Longrightarrow> m_longRunMng m' = m_longRunMng m"
  by (auto simp: deadNode_def Let_def setNode_def notify_defs split: option.splits if_splits dest!: refute_longRun)

lemma handleLongRunMsg_longRun: "handleLongRunMsg E now rnd x m = Some m' \<Longrightarrow> m_longRunMng m' = m_longRunMng m"
  by (auto simp: handleLongRunMsg_def handleAlive_def handleSuspect_def handleDead_def
      split: if_splits outcome.splits dest: suspectNode_longRun deadNode_longRun)

text \<open>
  Without further producers the loop empties the queues and returns, unless a waiting message accuses
  the local node with the largest number of lives.
\<close>

definition calm :: "'h env \<Rightarrow> 'h Memberlist \<Rightarrow> bool" where
  "calm E m \<longleftrightarrow> (\<forall>x \<in># waiting (m_longRunMng m). \<forall>now rnd.
     pred_option (harmless (ID m)) (longRunInput E (m_config m) now rnd x))"

definition emptied :: "longRunMsgManager \<Rightarrow> longRunMsgManager" where
  "emptied mng = mng\<lparr>lm_high := [], lm_low := []\<rparr>"

lemma handleLongRunMsg_returns:
  assumes "member_wf m" and "pred_option (harmless (ID m)) (longRunInput E (m_config m) now rnd x)"
  shows "\<exists>m'. handleLongRunMsg E now rnd x m = Some m'"
  using assms handle_blocks [OF assms(1)] harmless_not_max
  by (cases "longRunInput E (m_config m) now rnd x") (fastforce simp: handleLongRunMsg_eq)+

lemma getNextMsg_cases:
  assumes "\<not> lm_locked mng"
  obtains (none) "waiting mng = {#}" "getNextMsg mng = Some (Err ErrNoLongRunMsg, mng)" "emptied mng = mng"
  | (some) x mng' where "getNextMsg mng = Some (Ok x, mng')" "waiting mng = add_mset x (waiting mng')"
      "\<not> lm_locked mng'" "emptied mng' = emptied mng"
proof (cases "lm_high mng = [] \<and> lm_low mng = []")
  case True
  then show ?thesis using assms none by (simp add: getNextMsg_def waiting_def emptied_def)
next
  case False
  then obtain x mng' where g: "getNextMsg mng = Some (Ok x, mng')" using assms
    by (cases "lm_high mng = []") (auto simp: getNextMsg_def)
  then have "\<not> lm_locked mng' \<and> emptied mng' = emptied mng" using assms by (auto simp: getNextMsg_def emptied_def split: if_splits)
  with some [OF g getNextMsg_waiting [OF g]] show ?thesis by blast
qed

lemma withMng_simps [simp]:
  "member_wf (m\<lparr>m_longRunMng := q\<rparr>) = member_wf m" "lookup (m\<lparr>m_longRunMng := q\<rparr>) = lookup m"
  "ID (m\<lparr>m_longRunMng := q\<rparr>) = ID m"
  by (rule member_wf_cong; simp) (simp_all add: lookup_def ID_def fun_eq_iff)

lemma drainLongRun_returns:
  assumes "member_wf m" and "\<not> lm_locked (m_longRunMng m)" and "calm E m"
  shows "\<exists>m'. drainLongRun E clock rnd k m = Some m' \<and> member_wf m' \<and> view_le (lookup m) (lookup m')
    \<and> m_longRunMng m' = emptied (m_longRunMng m)"
  using assms
proof (induction "size (waiting (m_longRunMng m))" arbitrary: m k)
  case 0
  then show ?case
    by (cases rule: getNextMsg_cases [OF 0(3)]) (subst drainLongRun.simps, simp)+
next
  case (Suc n)
  from Suc.prems(2) show ?case
  proof (cases rule: getNextMsg_cases)
    case none
    with Suc.hyps(2) show ?thesis by simp
  next
    case (some x mng)
    let ?m = "m\<lparr>m_longRunMng := mng\<rparr>"
    have wf: "member_wf ?m" using Suc.prems(1) by simp
    have calm: "pred_option (harmless (ID ?m)) (longRunInput E (m_config ?m) (clock k) (rnd k) x)"
      using Suc.prems(3) some(2) by (simp add: calm_def)
    obtain m1 where m1: "handleLongRunMsg E (clock k) (rnd k) x ?m = Some m1"
      using handleLongRunMsg_returns [OF wf calm] by blast
    have f: "m_longRunMng m1 = mng" "m_config m1 = m_config m" "member_wf m1" "view_le (lookup m) (lookup m1)"
      using handleLongRunMsg_longRun [OF m1] lr.keeps_config [of E "(clock k, rnd k, x)" ?m m1] m1
        lr.keeps_wf [OF wf, of E "(clock k, rnd k, x)" m1] lr.inflates [OF wf, of E "(clock k, rnd k, x)" m1] by simp_all
    have "ID m1 = ID m" using f(2) by (simp add: ID_def)
    then have "calm E m1" using Suc.prems(3) some(2) f(1,2) unfolding calm_def by simp
    obtain m' where m': "drainLongRun E clock rnd (k + 1) m1 = Some m'" "member_wf m'"
        "view_le (lookup m1) (lookup m')" "m_longRunMng m' = emptied mng"
      using Suc.hyps(1) [of m1 "k + 1"] Suc.hyps(2) some(2,3) f(1,3) \<open>calm E m1\<close> by auto
    then have "drainLongRun E clock rnd k m = Some m'"
      using some(1) m1 by (subst drainLongRun.simps) simp
    with m' f(4) some(4) show ?thesis using view_le_trans by auto
  qed
qed

lemma drainLongRun_single:
  assumes "m_longRunMng m = mng\<lparr>lm_high := hs, lm_low := ls\<rparr>" and "hs @ ls = [x]" and "\<not> lm_locked (m_longRunMng m)"
  shows "drainLongRun E clock rnd k m = handleLongRunMsg E (clock k) (rnd k) x (m\<lparr>m_longRunMng := emptied (m_longRunMng m)\<rparr>)"
proof -
  let ?q = "emptied (m_longRunMng m)" let ?m = "m\<lparr>m_longRunMng := ?q\<rparr>"
  have g: "getNextMsg (m_longRunMng m) = Some (Ok x, ?q)"
    using assms by (auto simp: getNextMsg_def emptied_def append_eq_Cons_conv)
  show ?thesis
  proof (cases "handleLongRunMsg E (clock k) (rnd k) x ?m")
    case None
    with g show ?thesis by (subst drainLongRun.simps) simp
  next
    case (Some m1)
    have q: "m_longRunMng m1 = ?q" using handleLongRunMsg_longRun [OF Some] by simp
    have "getNextMsg ?q = Some (Err ErrNoLongRunMsg, ?q)" using assms(3) by (simp add: getNextMsg_def emptied_def)
    then have "drainLongRun E clock rnd (k + 1) m1 = Some (m1\<lparr>m_longRunMng := ?q\<rparr>)"
      using q by (subst drainLongRun.simps) simp
    moreover have "m1\<lparr>m_longRunMng := ?q\<rparr> = m1" using q by simp
    ultimately show ?thesis using g Some by (subst drainLongRun.simps) simp
  qed
qed

end
