(* ===== verification/Streams.thy ===== *)
theory Streams
  imports Handlers
begin

text \<open>
  The handlers of incoming TCP connections of \<^verbatim>\<open>src/net_handlers.go\<close>, and what they make of the
  requests of \<open>TcpPing\<close> and \<open>pushPullWithNode\<close>.
\<close>

section \<open>The handlers\<close>

text \<open>
  A connection from a peer: \<open>tc_reply\<close> of the connection is what the peer sent. The other fields are
  the nonce drawn for the answer, what \<open>LocalState\<close> of the user's delegate returns, if there is one,
  the clock and the random numbers of the merge, the texts of errors, and whether the decoder's error
  is \<open>io.EOF\<close>. A handler returns the state, the bytes it wrote to the connection, and the state passed
  to the user's \<open>Merge\<close>.
\<close>

record stream_io =
  sio_conn :: tcp_conn
  sio_nonce :: "bytes outcome"
  sio_usr :: "bytes option"
  sio_clock :: "nat \<Rightarrow> time"
  sio_rnd :: "nat \<Rightarrow> u32"
  sio_errText :: "error \<Rightarrow> string"
  sio_codecEOF :: bool

definition tcpWritten :: "'h env \<Rightarrow> bytes outcome \<Rightarrow> tcp_conn \<Rightarrow> bytes \<Rightarrow> string \<Rightarrow> 'h Memberlist \<Rightarrow> bytes" where
  "tcpWritten E nonce conn msg label m =
     (case packTcp (e_codec E) (m_config m) (m_keyring m) nonce msg label of
        Ok packed \<Rightarrow> (case tc_write conn packed of Ok n \<Rightarrow> take n packed | _ \<Rightarrow> [])
      | _ \<Rightarrow> [])"

definition handlePingTcp :: "'h env \<Rightarrow> stream_io \<Rightarrow> bytes \<Rightarrow> string \<Rightarrow> 'h Memberlist \<Rightarrow> bytes outcome" where
  "handlePingTcp E sio r streamLabel m =
     (case decode (dec_ping (e_codec E)) r of
        Ok p \<Rightarrow>
          if p_ID p \<noteq> '''' \<and> p_ID p \<noteq> ID m then Ok []
          else (case encode (e_codec E) ackMsg (P_ack \<lparr>k_SeqNo = p_SeqNo p, k_Payload = []\<rparr>) of
                  Ok out \<Rightarrow>
                    (case sendTcp E (sio_nonce sio) (sio_conn sio) out streamLabel m of
                       Panic q \<Rightarrow> Panic q
                     | _ \<Rightarrow> Ok (tcpWritten E (sio_nonce sio) (sio_conn sio) out streamLabel m))
                | _ \<Rightarrow> Ok [])
      | _ \<Rightarrow> Ok [])"

definition localStateWritten :: "'h env \<Rightarrow> stream_io \<Rightarrow> string \<Rightarrow> 'h Memberlist \<Rightarrow> bytes" where
  "localStateWritten E sio label m =
     (case encodePushPullMsg (e_codec E) (localState m) (case sio_usr sio of None \<Rightarrow> [] | Some u \<Rightarrow> u) of
        Ok msg \<Rightarrow> tcpWritten E (sio_nonce sio) (sio_conn sio) msg label m
      | _ \<Rightarrow> [])"

definition handlePushPull :: "'h env \<Rightarrow> stream_io \<Rightarrow> bytes \<Rightarrow> string \<Rightarrow> 'h Memberlist
    \<Rightarrow> ('h Memberlist \<times> bytes \<times> bytes option) outcome option" where
  "handlePushPull E sio r streamLabel m0 =
     (let nPP = m_numPushPull m0 + 1;
          m = m0\<lparr>m_numPushPull := nPP\<rparr>;
          finished = (\<lambda>m'. m'\<lparr>m_numPushPull := m_numPushPull m' - 1\<rparr>)
      in if of_int (c_MaxPushPulls (m_config m)) \<le> nPP then Some (Ok (finished m, [], None))
         else case readRemoteState (e_codec E) r of
                Err e \<Rightarrow> Some (Ok (finished m, [], None))
              | Panic p \<Rightarrow> Some (Panic p)
              | Ok (remoteNodes, remoteUserState) \<Rightarrow>
                  (let written = localStateWritten E sio streamLabel m in
                   case sendLocalState E (sio_nonce sio) (sio_usr sio) (sio_conn sio) streamLabel m of
                     Panic p \<Rightarrow> Some (Panic p)
                   | Err e \<Rightarrow> Some (Ok (finished m, written, None))
                   | Ok _ \<Rightarrow>
                       (case mergeState E (sio_clock sio) (sio_rnd sio) 0 remoteNodes m of
                          None \<Rightarrow> None
                        | Some m' \<Rightarrow> Some (Ok (finished m', written,
                            (case sio_usr sio of None \<Rightarrow> None | Some _ \<Rightarrow> Some remoteUserState))))))"

definition isEOF :: "stream_io \<Rightarrow> error \<Rightarrow> bool" where
  "isEOF sio e \<longleftrightarrow> e = ErrEOF \<or> (e = ErrCodec \<and> sio_codecEOF sio)"

definition handleTcpConn :: "'h env \<Rightarrow> stream_io \<Rightarrow> 'h Memberlist
    \<Rightarrow> ('h Memberlist \<times> bytes \<times> bytes option) outcome option" where
  "handleTcpConn E sio m =
     (let streamLabel = c_Label (m_config m) in
      case unpackStream (e_codec E) (m_keyring m) (tc_reply (sio_conn sio)) streamLabel of
        Panic p \<Rightarrow> Some (Panic p)
      | Err e \<Rightarrow>
          if isEOF sio e then Some (Ok (m, [], None))
          else (case encode (e_codec E) errMsg (P_errResp \<lparr>e_Error = sio_errText sio e\<rparr>) of
                  Ok respMsg \<Rightarrow>
                    (case sendTcp E (sio_nonce sio) (sio_conn sio) respMsg streamLabel m of
                       Panic p \<Rightarrow> Some (Panic p)
                     | _ \<Rightarrow> Some (Ok (m, tcpWritten E (sio_nonce sio) (sio_conn sio) respMsg streamLabel m, None)))
                | _ \<Rightarrow> Some (Ok (m, [], None)))
      | Ok (mType, r) \<Rightarrow>
          if mType = tag pushPullMsg then handlePushPull E sio r streamLabel m
          else if mType = tag pingMsg
          then (case handlePingTcp E sio r streamLabel m of
                  Ok written \<Rightarrow> Some (Ok (m, written, None))
                | Err e \<Rightarrow> Some (Ok (m, [], None))
                | Panic p \<Rightarrow> Some (Panic p))
          else Some (Ok (m, [], None)))"

end
