(* ===== verification/Delivery.thy ===== *)
theory Delivery
  imports Streams
begin

text \<open>
  What one node sends and another makes of it: packets with their piggybacked messages, messages about
  members, user messages, and the exchange of states over a connection. The two nodes share the
  environment; their keyrings agree and their labels are equal.
\<close>

section \<open>Packets with piggybacked messages\<close>

context net_env
begin

text \<open>What was sent with \<open>sendMsgPiggyback\<close> is handled as the message and what rode along.\<close>

lemma handlePacket_sent:
  assumes q: "queue_wf hinv elems (m_mbroadcasts m)" "delegates_ok m"
    and agree: "keyrings_agree (m_keyring m) (m_keyring mB)" "c_Label (m_config mB) = c_Label (m_config m)"
    and send: "sendMsgPiggyback E addr msg m = Some (Ok (), m')"
    and msg: "msg \<noteq> []" "hd msg \<noteq> tag compressMsg" and buf: "c_UDPBufferSize (m_config m) < 65536"
  shows "\<exists>p piggy. m_sent m' = m_sent m @ [(addr, p)] \<and>
    (length piggy < 255 \<longrightarrow> handlePacket E hio p from ts mB = handleMsgs E hio from ts (msg # piggy) mB)"
proof -
  obtain p piggy x where p: "m_sent m' = m_sent m @ [(addr, p)]" "packed_as E m x p"
    and x: "x = (if piggy = [] then msg else packCompoundMsg (msg # piggy))"
    and len: "piggy = [] \<or> int (length x) + (if EncryptionEnabled (m_keyring m) then 29 else 0)
        \<le> c_UDPBufferSize (m_config m) + 2"
    using sendMsgPiggyback_sends [OF q send] by blast
  have "x \<noteq> []" "hd x \<noteq> tag compressMsg" using x msg by (auto simp: packCompoundMsg_frame)
  then have u: "unpackPacket (e_codec E) (m_keyring mB) p (c_Label (m_config mB)) = Ok x"
    using unpack_packed [OF p(2) _ _ agree(1)] agree(2) by simp
  have "handleUdpMsg E hio from ts x mB = handleMsgs E hio from ts (msg # piggy) mB" if few: "length piggy < 255"
  proof (cases "piggy = []")
    case True
    with x have "x = msg" by simp
    with True show ?thesis by (simp only: handleMsgs_single)
  next
    case False
    then have "length (packCompoundMsg (msg # piggy)) < 65538" using x len buf by (auto split: if_splits)
    then have "\<forall>k \<in> set (msg # piggy). length k < 65536" using compound_part by fastforce
    with few have "handleUdpMsg E hio from ts (packCompoundMsg (msg # piggy)) mB = handleMsgs E hio from ts (msg # piggy) mB"
      by (intro handleUdpMsg_compound) simp_all
    with x False show ?thesis by simp
  qed
  with u p(1) show ?thesis by (auto simp: handlePacket_def)
qed

end

section \<open>From one node to another\<close>

text \<open>The messages about members, and what receiving one amounts to.\<close>

fun memberMsg :: "msgType \<Rightarrow> payload \<Rightarrow> bool" where
  "memberMsg aliveMsg (P_alive a) = True"
| "memberMsg suspectMsg (P_suspect s) = True"
| "memberMsg deadMsg (P_dead d) = True"
| "memberMsg _ _ = False"

fun receive :: "'h env \<Rightarrow> time \<Rightarrow> u32 \<Rightarrow> UDPAddr \<Rightarrow> payload \<Rightarrow> 'h Memberlist \<Rightarrow> 'h Memberlist option" where
  "receive E now rnd from (P_alive a) m =
     Some (if IPAllowed (m_config m) (ua_IP from) then aliveNode E now rnd a None m else m)"
| "receive E now rnd from (P_suspect s) m = suspectNode E now s m"
| "receive E now rnd from (P_dead d) m = deadNode E now d None m"
| "receive E now rnd from _ m = Some m"

text \<open>A node whose queues are empty, with room for a message.\<close>

definition idle :: "'h Memberlist \<Rightarrow> bool" where
  "idle m \<longleftrightarrow> \<not> lm_locked (m_longRunMng m) \<and> lm_high (m_longRunMng m) = [] \<and> lm_low (m_longRunMng m) = []
     \<and> 0 < lm_maxQueueDepth (m_longRunMng m)"

lemma idle_handles:
  assumes "idle m" and "isLongRunMsg t"
  shows "\<exists>m1. handleUdpMsg E hio from ts (tag t # body) m = Some (Ok m1)
    \<and> drainLongRun E clock rnd k m1 = handleLongRunMsg E (clock k) (rnd k) \<lparr>lm_type = t, lm_msg = body, lm_from = from\<rparr> m"
proof -
  let ?x = "\<lparr>lm_type = t, lm_msg = body, lm_from = from\<rparr>"
  let ?q = "if t = aliveMsg then (m_longRunMng m)\<lparr>lm_high := [?x]\<rparr> else (m_longRunMng m)\<lparr>lm_low := [?x]\<rparr>"
  let ?m1 = "m\<lparr>m_longRunMng := ?q\<rparr>"
  have "queueMsg t body from m = Some (Ok ?m1)"
    using assms(1) by (simp add: queueMsg_def queueLongRunMsg_def idle_def Let_def)
  then have h: "handleUdpMsg E hio from ts (tag t # body) m = Some (Ok ?m1)"
    using assms(2) by (simp del: tag_simps)
  have e: "m\<lparr>m_longRunMng := emptied ?q\<rparr> = m" using assms(1) by (simp add: emptied_def idle_def)
  have "drainLongRun E clock rnd k ?m1 = handleLongRunMsg E (clock k) (rnd k) ?x (?m1\<lparr>m_longRunMng := emptied (m_longRunMng ?m1)\<rparr>)"
    by (rule drainLongRun_single [where mng = "m_longRunMng m" and hs = "if t = aliveMsg then [?x] else []"
          and ls = "if t = aliveMsg then [] else [?x]"]) (use assms(1) in \<open>simp_all add: idle_def\<close>)
  with h e show ?thesis by (intro exI [of _ ?m1]) simp
qed

context net_env
begin

lemma handlePacket_sendUdp:
  assumes send: "sendUdp E addr (tag t # body) m = (Ok (), m')" and t: "isLongRunMsg t"
    and agree: "keyrings_agree (m_keyring m) (m_keyring mB)" "c_Label (m_config mB) = c_Label (m_config m)"
    and idle: "idle mB"
  shows "\<exists>p mB1. m_sent m' = m_sent m @ [(addr, p)] \<and> handlePacket E hio p from ts mB = Some (Ok mB1)
    \<and> drainLongRun E clock rnd k mB1 = handleLongRunMsg E (clock k) (rnd k) \<lparr>lm_type = t, lm_msg = body, lm_from = from\<rparr> mB"
proof -
  obtain p where p: "m' = m\<lparr>m_sent := m_sent m @ [(addr, p)]\<rparr>" "packed_as E m (tag t # body) p"
    using sendUdp_Ok [OF send] by blast
  have "tag t \<noteq> tag compressMsg" using t by (auto simp: isLongRunMsg_def)
  then have "unpackPacket (e_codec E) (m_keyring mB) p (c_Label (m_config m)) = Ok (tag t # body)"
    by (intro unpack_packed [OF p(2) _ _ agree(1)]) simp_all
  with idle_handles [OF idle t, of E hio "from" ts body clock rnd k] agree(2) p(1) show ?thesis
    by (auto simp: handlePacket_def simp del: tag_simps)
qed

lemma message_received:
  assumes x: "memberMsg t x" "encode (e_codec E) t x = Ok msg" and send: "sendUdp E addr msg m = (Ok (), m')"
    and agree: "keyrings_agree (m_keyring m) (m_keyring mB)" "c_Label (m_config mB) = c_Label (m_config m)"
    and idle: "idle mB"
  shows "\<exists>p mB1. m_sent m' = m_sent m @ [(addr, p)] \<and> handlePacket E hio p from ts mB = Some (Ok mB1)
    \<and> drainLongRun E clock rnd k mB1 = receive E (clock k) (rnd k) from x mB"
proof -
  obtain body where msg: "msg = tag t # body" using x(2) by (auto simp: encode_Ok)
  have t: "isLongRunMsg t" using x(1) by (cases "(t, x)" rule: memberMsg.cases) (simp_all add: isLongRunMsg_def)
  have "handleLongRunMsg E now r \<lparr>lm_type = t, lm_msg = body, lm_from = from\<rparr> mB = receive E now r from x mB" for now r
    using x(1)
  proof (cases "(t, x)" rule: memberMsg.cases)
    case (1 a)
    with x(2) msg decode_alive have "decode (dec_alive (e_codec E)) body = Ok a" by fastforce
    with 1 show ?thesis by (simp add: handleLongRunMsg_def handleAlive_def)
  next
    case (2 s)
    with x(2) msg decode_suspect have "decode (dec_suspect (e_codec E)) body = Ok s" by fastforce
    with 2 show ?thesis by (simp add: handleLongRunMsg_def handleSuspect_def)
  next
    case (3 d)
    with x(2) msg decode_dead have "decode (dec_dead (e_codec E)) body = Ok d" by fastforce
    with 3 show ?thesis by (simp add: handleLongRunMsg_def handleDead_def)
  qed simp_all
  with handlePacket_sendUdp [OF send [unfolded msg] t agree idle, of hio "from" ts clock rnd k] show ?thesis by simp
qed

lemma user_message_received:
  assumes send: "SendUserMsg E addr msg m = (Ok (), m')"
    and agree: "keyrings_agree (m_keyring m) (m_keyring mB)" "c_Label (m_config mB) = c_Label (m_config m)"
    and idle: "idle mB" and ch: "m_usrMsgCh mB = Some ms"
  shows "\<exists>p mB1 mB2. m_sent m' = m_sent m @ [(addr, p)] \<and> handlePacket E hio p from ts mB = Some (Ok mB1)
    \<and> drainLongRun E clock rnd k mB1 = Some mB2 \<and> m_usrMsgCh mB2 = Some (ms @ [msg])"
proof -
  have "isLongRunMsg userMsg" by (simp add: isLongRunMsg_def)
  from handlePacket_sendUdp [OF send [unfolded SendUserMsg_def] this agree idle, of hio "from" ts clock rnd k] ch
  show ?thesis by (auto simp: handleLongRunMsg_def handleUser_def)
qed

end

section \<open>The exchange of states\<close>

text \<open>A connection that takes everything written to it.\<close>

definition open_conn :: "tcp_conn \<Rightarrow> bool" where
  "open_conn conn \<longleftrightarrow> (\<forall>x. tc_write conn x = Ok (length x))"

text \<open>The packed message with which a node tells its state.\<close>

definition tells :: "'h env \<Rightarrow> bytes \<Rightarrow> bytes option \<Rightarrow> 'h Memberlist \<Rightarrow> bytes \<Rightarrow> bool" where
  "tells E nonce usr m p \<longleftrightarrow> length nonce = 12 \<and>
     (\<exists>msg. encodePushPullMsg (e_codec E) (localState m) (case usr of None \<Rightarrow> [] | Some u \<Rightarrow> u) = Ok msg
        \<and> int (length msg) + 29 \<le> maxPushSize
        \<and> packTcp (e_codec E) (m_config m) (m_keyring m) (Ok nonce) msg (c_Label (m_config m)) = Ok p)"

definition knowsAlive :: "'h Memberlist \<Rightarrow> 'h Memberlist \<Rightarrow> bool" where
  "knowsAlive m' m \<longleftrightarrow> (\<forall>i n. lookup m i = Some n \<and> ns_State n = StateAlive \<and> i \<noteq> ID m'
     \<and> IPAllowed (m_config m') (n_IP (ns_Node n)) \<longrightarrow> (\<exists>n'. lookup m' i = Some n' \<and> ns_Lives n \<le> ns_Lives n'))"

lemma tells_send:
  assumes "tells E nonce usr m p" and "open_conn conn"
  shows "sendLocalState E (Ok nonce) usr conn (c_Label (m_config m)) m = Ok ()"
  using assms by (auto simp: tells_def open_conn_def sendLocalState_def sendTcp_def)

lemma tells_written:
  assumes "tells E nonce (sio_usr sio) m p" and "sio_nonce sio = Ok nonce" and "open_conn (sio_conn sio)"
  shows "localStateWritten E sio (c_Label (m_config m)) m = p"
  using assms by (auto simp: tells_def open_conn_def localStateWritten_def tcpWritten_def)

lemma tells_count [simp]: "tells E nonce usr (m\<lparr>m_numPushPull := k\<rparr>) p = tells E nonce usr m p"
  by (simp add: tells_def localState_def nodeList_def)

lemma count_simps [simp]:
  "member_wf (m\<lparr>m_numPushPull := k\<rparr>) = member_wf m" "lookup (m\<lparr>m_numPushPull := k\<rparr>) = lookup m"
  "ID (m\<lparr>m_numPushPull := k\<rparr>) = ID m"
  by (rule member_wf_cong; simp) (simp_all add: lookup_def ID_def fun_eq_iff)

lemma merge_localState:
  assumes wf: "member_wf m" "member_wf mB" and own: "\<And>n. lookup mB (ID m) = Some n \<Longrightarrow> ns_Lives n \<noteq> - 1"
  shows "\<exists>m'. mergeState E clock rnd k (localState mB) m = Some m' \<and> member_wf m' \<and> m_config m' = m_config m \<and> knowsAlive m' mB"
proof -
  have "\<forall>r \<in> set (localState mB). r_ID r \<noteq> ID m \<or> r_Lives r \<noteq> - 1"
    using localState_from_lookup [OF wf(2)] own by fastforce
  from mergeState_returns [OF wf(1) this] obtain m' where m': "mergeState E clock rnd k (localState mB) m = Some m'" by blast
  then have run: "runOps (handle E) (mergeInputs (ID m) clock rnd k (localState mB)) m = Some m'"
    by (simp add: mergeState_history)
  have cfg: "m_config m' = m_config m" using hi.run_config [OF run] .
  have "knowsAlive m' mB"
    unfolding knowsAlive_def
  proof (intro allI impI)
    fix i n assume n: "lookup mB i = Some n \<and> ns_State n = StateAlive \<and> i \<noteq> ID m' \<and> IPAllowed (m_config m') (n_IP (ns_Node n))"
    then obtain r where "r \<in> set (localState mB)" "r_ID r = i" "r_Lives r = ns_Lives n" "r_State r = ns_State n"
        "r_IP r = n_IP (ns_Node n)" using localState_lookup [OF wf(2)] by blast
    with mergeState_spreads [OF wf(1) m', of r] n cfg show "\<exists>n'. lookup m' i = Some n' \<and> ns_Lives n \<le> ns_Lives n'"
      by (auto simp: ID_def)
  qed
  with m' hi.run_wf [OF wf(1) run] cfg show ?thesis by blast
qed

context net_env
begin

lemma unpack_told:
  assumes "tells E nonce usr m p" and "keyrings_agree (m_keyring m) kr"
  shows "\<exists>r. unpackStream (e_codec E) kr (p @ rest) (c_Label (m_config m)) = Ok (tag pushPullMsg, r)
    \<and> readRemoteState (e_codec E) r = Ok (localState m, case usr of None \<Rightarrow> [] | Some u \<Rightarrow> u)"
proof -
  obtain msg where msg: "encodePushPullMsg (e_codec E) (localState m) (case usr of None \<Rightarrow> [] | Some u \<Rightarrow> u) = Ok msg"
      "int (length msg) + 29 \<le> maxPushSize" "length nonce = 12"
    and p: "packTcp (e_codec E) (m_config m) (m_keyring m) (Ok nonce) msg (c_Label (m_config m)) = Ok p"
    using assms(1) by (auto simp: tells_def)
  obtain body where b: "msg = tag pushPullMsg # body"
    and rd: "\<And>r. readRemoteState (e_codec E) (body @ r) = Ok (localState m, case usr of None \<Rightarrow> [] | Some u \<Rightarrow> u)"
    using readRemoteState_encodePushPullMsg [OF msg(1)] by (metis list.inject)
  have "\<exists>r. unpackStream (e_codec E) kr (p @ rest) (c_Label (m_config m)) = Ok (tag pushPullMsg, body @ r)"
    by (rule unpackStream_packTcp [OF p [unfolded b] msg(3) _ _ assms(2)]) (use msg(2) b in simp_all)
  with rd show ?thesis by blast
qed

lemma handleTcpConn_told:
  assumes wf: "member_wf m" "member_wf mB" and told: "tells E nonce usr m req" "tc_reply (sio_conn sio) = req @ rest"
    and reply: "tells E nonceB (sio_usr sio) mB rep" "sio_nonce sio = Ok nonceB" "open_conn (sio_conn sio)"
    and agree: "keyrings_agree (m_keyring m) (m_keyring mB)" "c_Label (m_config mB) = c_Label (m_config m)"
    and few: "m_numPushPull mB + 1 < of_int (c_MaxPushPulls (m_config mB))"
    and own: "\<And>n. lookup m (ID mB) = Some n \<Longrightarrow> ns_Lives n \<noteq> - 1"
  shows "\<exists>mB' u. handleTcpConn E sio mB = Some (Ok (mB', rep, u)) \<and> member_wf mB' \<and> knowsAlive mB' m"
proof -
  let ?m = "mB\<lparr>m_numPushPull := m_numPushPull mB + 1\<rparr>"
  obtain r where un: "unpackStream (e_codec E) (m_keyring mB) (req @ rest) (c_Label (m_config m)) = Ok (tag pushPullMsg, r)"
    and rd: "readRemoteState (e_codec E) r = Ok (localState m, case usr of None \<Rightarrow> [] | Some u \<Rightarrow> u)"
    using unpack_told [OF told(1) agree(1)] by blast
  obtain m' where m': "mergeState E (sio_clock sio) (sio_rnd sio) 0 (localState m) ?m = Some m'" "member_wf m'" "knowsAlive m' m"
    using merge_localState [of ?m m E "sio_clock sio" "sio_rnd sio" 0] wf own by auto
  have send: "sendLocalState E (sio_nonce sio) (sio_usr sio) (sio_conn sio) (c_Label (m_config mB)) ?m = Ok ()"
    using tells_send [of E nonceB "sio_usr sio" ?m rep "sio_conn sio"] reply by simp
  have written: "localStateWritten E sio (c_Label (m_config mB)) ?m = rep"
    using tells_written [of E nonceB sio ?m rep] reply by simp
  let ?m' = "m'\<lparr>m_numPushPull := m_numPushPull m' - 1\<rparr>"
  have "handlePushPull E sio r (c_Label (m_config mB)) mB = Some (Ok (?m', rep,
      case sio_usr sio of None \<Rightarrow> None | Some _ \<Rightarrow> Some (case usr of None \<Rightarrow> [] | Some u \<Rightarrow> u)))"
    using few rd send written m'(1) by (simp add: handlePushPull_def Let_def not_le [symmetric])
  then have "\<exists>u. handleTcpConn E sio mB = Some (Ok (?m', rep, u))"
    using un agree(2) told(2) by (simp add: handleTcpConn_def Let_def)
  moreover have "member_wf ?m'" "knowsAlive ?m' m" using m'(2,3) by (simp_all add: knowsAlive_def)
  ultimately show ?thesis by blast
qed

lemma push_pull_both_ways:
  assumes wf: "member_wf m" "member_wf mB" and told: "tells E nonce usr m req" "tc_reply (sio_conn sio) = req @ rest"
    and reply: "tells E nonceB (sio_usr sio) mB rep" "sio_nonce sio = Ok nonceB" "open_conn (sio_conn sio)"
    and conn: "open_conn conn" "tc_reply conn = rep @ rest'"
    and agree: "keyrings_agree (m_keyring m) (m_keyring mB)" "keyrings_agree (m_keyring mB) (m_keyring m)"
      "c_Label (m_config mB) = c_Label (m_config m)"
    and few: "m_numPushPull mB + 1 < of_int (c_MaxPushPulls (m_config mB))"
    and own: "\<And>n. lookup m (ID mB) = Some n \<Longrightarrow> ns_Lives n \<noteq> - 1" "\<And>n. lookup mB (ID m) = Some n \<Longrightarrow> ns_Lives n \<noteq> - 1"
  shows "\<exists>m' mB' u uB. pushPullWithNode E clock rnd (Ok nonce) usr (Ok conn) m = Some (Ok u, m')
    \<and> handleTcpConn E sio mB = Some (Ok (mB', rep, uB))
    \<and> member_wf m' \<and> member_wf mB' \<and> knowsAlive m' mB \<and> knowsAlive mB' m"
proof -
  obtain r where un: "unpackStream (e_codec E) (m_keyring m) (rep @ rest') (c_Label (m_config mB)) = Ok (tag pushPullMsg, r)"
    and rd: "readRemoteState (e_codec E) r = Ok (localState mB, case sio_usr sio of None \<Rightarrow> [] | Some u \<Rightarrow> u)"
    using unpack_told [OF reply(1) agree(2)] by blast
  obtain m' where m': "mergeState E clock rnd 0 (localState mB) m = Some m'" "member_wf m'" "knowsAlive m' mB"
    using merge_localState [OF wf, of E clock rnd 0] own(2) by blast
  have "\<exists>u. pushPullWithNode E clock rnd (Ok nonce) usr (Ok conn) m = Some (Ok u, m')"
    using tells_send [OF told(1) conn(1)] un rd agree(3) conn(2) m'(1)
    by (simp add: pushPullWithNode_def sendAndReceiveState_def)
  with handleTcpConn_told [OF wf told reply agree(1,3) few own(1)] m' show ?thesis by blast
qed

end

section \<open>Pings over a connection\<close>

text \<open>The packed form of a message of a node.\<close>

definition packs :: "'h env \<Rightarrow> bytes \<Rightarrow> msgType \<Rightarrow> payload \<Rightarrow> 'h Memberlist \<Rightarrow> bytes \<Rightarrow> bool" where
  "packs E nonce t x m p \<longleftrightarrow> length nonce = 12 \<and>
     (\<exists>msg. encode (e_codec E) t x = Ok msg \<and> int (length msg) + 29 \<le> maxPushSize
        \<and> packTcp (e_codec E) (m_config m) (m_keyring m) (Ok nonce) msg (c_Label (m_config m)) = Ok p)"

lemma packs_cong: "m_config m' = m_config m \<Longrightarrow> m_keyring m' = m_keyring m \<Longrightarrow> packs E nonce t x m' p = packs E nonce t x m p"
  by (simp add: packs_def)

lemma packs_send:
  assumes "packs E nonce t x m p" and "open_conn conn"
  shows "\<exists>msg. encode (e_codec E) t x = Ok msg \<and> sendTcp E (Ok nonce) conn msg (c_Label (m_config m)) m = Ok ()
    \<and> tcpWritten E (Ok nonce) conn msg (c_Label (m_config m)) m = p"
  using assms by (auto simp: packs_def open_conn_def sendTcp_def tcpWritten_def)

context net_env
begin

lemma unpack_packs:
  assumes "packs E nonce t x m p" and "keyrings_agree (m_keyring m) kr" and "t \<noteq> compressMsg" "t \<noteq> encryptMsg"
  shows "\<exists>b r. enc (e_codec E) x = Some b
    \<and> unpackStream (e_codec E) kr (p @ rest) (c_Label (m_config m)) = Ok (tag t, b @ r)"
proof -
  obtain msg where msg: "encode (e_codec E) t x = Ok msg" "int (length msg) + 29 \<le> maxPushSize" "length nonce = 12"
    and p: "packTcp (e_codec E) (m_config m) (m_keyring m) (Ok nonce) msg (c_Label (m_config m)) = Ok p"
    using assms(1) by (auto simp: packs_def)
  obtain b where b: "msg = tag t # b" "enc (e_codec E) x = Some b" using msg(1) by (auto simp: encode_Ok)
  have "\<exists>r. unpackStream (e_codec E) kr (p @ rest) (c_Label (m_config m)) = Ok (tag t, b @ r)"
    by (rule unpackStream_packTcp [OF p [unfolded b(1)] msg(3) _ _ assms(2)])
       (use msg(2) b assms(3,4) in \<open>simp_all del: tag_simps\<close>)
  with b(2) show ?thesis by blast
qed

lemma TcpPing_answered:
  fixes m mB :: "'h Memberlist" and io :: probe_io
  defines "sq \<equiv> pm_seqNo (m_pingMng m) + 1"
  assumes adv: "GetAdvertiseAddr m = Ok (ip, port)" and node: "n_ID (ns_Node node) = ID mB"
    and dial: "io_dial io = Ok conn" "open_conn conn" "tc_reply conn = rep @ rest'"
    and req: "packs E nonce pingMsg (P_ping \<lparr>p_SeqNo = sq, p_ID = ID mB, p_SourceIP = ip, p_SourcePort = port\<rparr>) m req"
      "io_nonce io = Ok nonce" "tc_reply (sio_conn sio) = req @ rest"
    and rep: "packs E nonceB ackMsg (P_ack \<lparr>k_SeqNo = sq, k_Payload = []\<rparr>) mB rep" "sio_nonce sio = Ok nonceB"
      "open_conn (sio_conn sio)"
    and agree: "keyrings_agree (m_keyring m) (m_keyring mB)" "keyrings_agree (m_keyring mB) (m_keyring m)"
      "c_Label (m_config mB) = c_Label (m_config m)"
  shows "handleTcpConn E sio mB = Some (Ok (mB, rep, None)) \<and> fst (TcpPing E io node m) = Ok True"
proof
  let ?p = "\<lparr>p_SeqNo = sq, p_ID = ID mB, p_SourceIP = ip, p_SourcePort = port\<rparr>"
  obtain b r where un: "enc (e_codec E) (P_ping ?p) = Some b"
      "unpackStream (e_codec E) (m_keyring mB) (req @ rest) (c_Label (m_config m)) = Ok (tag pingMsg, b @ r)"
    using unpack_packs [OF req(1) agree(1), of rest] by blast
  have "decode (dec_ping (e_codec E)) (b @ r) = Ok ?p" using ping [OF un(1)] by (simp add: decode_def)
  then have "handlePingTcp E sio (b @ r) (c_Label (m_config mB)) mB = Ok rep"
    using packs_send [OF rep(1,3)] rep(2) by (auto simp: handlePingTcp_def)
  then show "handleTcpConn E sio mB = Some (Ok (mB, rep, None))"
    using un(2) req(3) agree(3) by (simp add: handleTcpConn_def Let_def)
  let ?m1 = "m\<lparr>m_pingMng := (m_pingMng m)\<lparr>pm_seqNo := sq\<rparr>\<rparr>"
  obtain msg where msg: "encode (e_codec E) pingMsg (P_ping ?p) = Ok msg"
      "sendTcp E (Ok nonce) conn msg (c_Label (m_config m)) ?m1 = Ok ()"
    using packs_send [of E nonce pingMsg "P_ping ?p" ?m1 req conn] req(1) dial(2) by (auto simp: packs_def)
  obtain c s where ua: "enc (e_codec E) (P_ack \<lparr>k_SeqNo = sq, k_Payload = []\<rparr>) = Some c"
      "unpackStream (e_codec E) (m_keyring m) (rep @ rest') (c_Label (m_config mB)) = Ok (tag ackMsg, c @ s)"
    using unpack_packs [OF rep(1) agree(2), of rest'] by blast
  have "decode (dec_ack (e_codec E)) (c @ s) = Ok \<lparr>k_SeqNo = sq, k_Payload = []\<rparr>" using ack [OF ua(1)] by (simp add: decode_def)
  then show "fst (TcpPing E io node m) = Ok True"
    using adv node dial req(2) msg ua(2) agree(3)
    by (simp add: TcpPing_def nextSeqNo_def Let_def sq_def)
qed

end

end
