(* ===== verification/Resolve.thy ===== *)
theory Resolve
  imports IPText
begin

text \<open>
  Addresses given as text: \<open>hasPort\<close>, \<open>parsePort\<close>, \<open>ResolveAddr\<close>, \<open>tcpLookupIP\<close> and \<open>ParseCIDRs\<close> of
  \<^verbatim>\<open>src/net_transport.go\<close>, \<open>joinHostPort\<close> and \<open>combineErrors\<close> of \<^verbatim>\<open>src/util.go\<close>, with the functions of
  \<^verbatim>\<open>net\<close> and \<^verbatim>\<open>strings\<close> they call. Name resolution is a parameter (\<open>resolver\<close>): the configuration file of
  the resolver, the exchange with a DNS server, and the system's lookup. \<open>errText\<close> is the text of an
  error.
\<close>

section \<open>Strings\<close>

text \<open>\<open>strings.LastIndex\<close> and \<open>strings.Index\<close> of a character, \<open>-1\<close> if it does not occur.\<close>

definition LastIndex :: "string \<Rightarrow> char \<Rightarrow> int" where
  "LastIndex s c = (if c \<in> set s then int (length s) - 1 - int (length (takeWhile (\<lambda>x. x \<noteq> c) (rev s))) else - 1)"

definition Index :: "string \<Rightarrow> char \<Rightarrow> int" where
  "Index s c = (if c \<in> set s then int (length (takeWhile (\<lambda>x. x \<noteq> c) s)) else - 1)"

definition TrimSuffix :: "string \<Rightarrow> string \<Rightarrow> string" where
  "TrimSuffix s t = (if t = drop (length s - length t) s then take (length s - length t) s else s)"

text \<open>The encodings of the white space of Unicode, and the removal of white space at both ends.\<close>

definition spaceTexts :: "nat list list" where
  "spaceTexts = [[9], [10], [11], [12], [13], [32], [194, 133], [194, 160], [225, 154, 128],
     [226, 128, 128], [226, 128, 129], [226, 128, 130], [226, 128, 131], [226, 128, 132], [226, 128, 133],
     [226, 128, 134], [226, 128, 135], [226, 128, 136], [226, 128, 137], [226, 128, 138], [226, 128, 168],
     [226, 128, 169], [226, 128, 175], [226, 129, 159], [227, 128, 128]]"

function trimLeft :: "nat list list \<Rightarrow> string \<Rightarrow> string" where
  "trimLeft ws s =
     (case filter (\<lambda>w. w \<noteq> [] \<and> take (length w) (map of_char s) = w) ws of
        [] \<Rightarrow> s
      | w # _ \<Rightarrow> if s = [] then s else trimLeft ws (drop (length w) s))"
  by pat_completeness auto
termination
  by (relation "measure (\<lambda>(ws, s). length s)") (auto dest!: filter_eq_ConsD)

declare trimLeft.simps [simp del]

definition TrimSpace :: "string \<Rightarrow> string" where
  "TrimSpace s = rev (trimLeft (map rev spaceTexts) (rev (trimLeft spaceTexts s)))"

section \<open>Hosts and ports\<close>

definition addrErr :: "string \<Rightarrow> string \<Rightarrow> 'a outcome" where
  "addrErr addr why = Err (ErrText (''address '' @ addr @ '': '' @ why))"

definition SplitHostPort :: "string \<Rightarrow> (string \<times> string) outcome" where
  "SplitHostPort hostport =
     (let i = LastIndex hostport CHR '':'' in
      if i < 0 then addrErr hostport ''missing port in address''
      else if hostport ! 0 = CHR ''['' then
        (let e = Index hostport CHR '']'' in
         if e < 0 then addrErr hostport ''missing ']' in address''
         else if e + 1 = int (length hostport) then addrErr hostport ''missing port in address''
         else if e + 1 \<noteq> i then
           (if hostport ! nat (e + 1) = CHR '':'' then addrErr hostport ''too many colons in address''
            else addrErr hostport ''missing port in address'')
         else if CHR ''['' \<in> set (drop 1 hostport) then addrErr hostport ''unexpected '[' in address''
         else if CHR '']'' \<in> set (drop (nat (e + 1)) hostport) then addrErr hostport ''unexpected ']' in address''
         else Ok (take (nat e - 1) (drop 1 hostport), drop (nat i + 1) hostport))
      else if CHR '':'' \<in> set (take (nat i) hostport) then addrErr hostport ''too many colons in address''
      else if CHR ''['' \<in> set hostport then addrErr hostport ''unexpected '[' in address''
      else if CHR '']'' \<in> set hostport then addrErr hostport ''unexpected ']' in address''
      else Ok (take (nat i) hostport, drop (nat i + 1) hostport))"

definition JoinHostPort :: "string \<Rightarrow> string \<Rightarrow> string" where
  "JoinHostPort host port =
     (if CHR '':'' \<in> set host then ''['' @ host @ '']:'' @ port else host @ '':'' @ port)"

definition joinHostPort :: "string \<Rightarrow> u16 \<Rightarrow> string" where
  "joinHostPort host port = JoinHostPort host (Itoa (unat port))"

definition hasPort :: "string \<Rightarrow> bool" where
  "hasPort s =
     (if LastIndex s CHR ''['' = 0 then LastIndex s CHR '':'' > LastIndex s CHR '']''
      else count_list s CHR '':'' = 1)"

definition parsePort :: "string \<Rightarrow> (string \<times> u16) outcome" where
  "parsePort s =
     bind_outcome (SplitHostPort s) (\<lambda>(host, sport).
     bind_outcome (ParseUint16 sport) (\<lambda>iport. Ok (host, iport)))"

section \<open>Name resolution\<close>

datatype rr = A IP | AAAA IP | OtherRR

record resolver =
  dns_conf :: "string \<Rightarrow> (string list \<times> string) outcome"
  dns_exchange :: "string \<Rightarrow> string \<Rightarrow> rr list outcome"
  dns_lookup :: "string \<Rightarrow> IP list outcome"

fun answerIPs :: "rr list \<Rightarrow> IP list" where
  "answerIPs [] = []"
| "answerIPs (A ip # rs) = ip # answerIPs rs"
| "answerIPs (AAAA ip # rs) = ip # answerIPs rs"
| "answerIPs (OtherRR # rs) = answerIPs rs"

definition tcpLookupIP :: "resolver \<Rightarrow> string \<Rightarrow> string \<Rightarrow> IP list outcome" where
  "tcpLookupIP R host0 dnsConfPath =
     (if CHR ''.'' \<notin> set host0 then Ok []
      else
        let host = (if last host0 \<noteq> CHR ''.'' then host0 @ ''.'' else host0)
        in bind_outcome (dns_conf R dnsConfPath) (\<lambda>(servers, port).
             case servers of
               [] \<Rightarrow> Ok []
             | server0 # _ \<Rightarrow>
                 (let server = (if hasPort server0 then server0 else JoinHostPort server0 port)
                  in bind_outcome (dns_exchange R host server) (\<lambda>answer. Ok (answerIPs answer)))))"

definition ResolveAddr :: "resolver \<Rightarrow> string \<Rightarrow> string \<Rightarrow> (IP list \<times> u16) outcome" where
  "ResolveAddr R hostStr0 dnsConfPath =
     (let hostStr1 = (if hasPort hostStr0 then hostStr0 else hostStr0 @ '':0'')
      in bind_outcome (parsePort hostStr1) (\<lambda>(hostStr, port).
           case ParseIP hostStr of
             Some ip \<Rightarrow> Ok ([ip], port)
           | None \<Rightarrow>
               bind_outcome (tcpLookupIP R hostStr dnsConfPath) (\<lambda>ips.
                 if ips = [] then bind_outcome (dns_lookup R hostStr) (\<lambda>ips'. Ok (ips', port))
                 else Ok (ips, port))))"

section \<open>Networks\<close>

definition combineErrors :: "(error \<Rightarrow> string) \<Rightarrow> error list \<Rightarrow> error option" where
  "combineErrors errText errs =
     (if errs = [] then None
      else Some (ErrText (TrimSuffix (concat (map (\<lambda>e. errText e @ '';'') errs)) '';'')))"

text \<open>\<open>net.CIDRMask\<close>: a mask of the given number of bits whose first \<open>ones\<close> bits are set.\<close>

definition CIDRMask :: "nat \<Rightarrow> nat \<Rightarrow> bytes" where
  "CIDRMask ones bits =
     map (\<lambda>i. if 8 * (i + 1) \<le> ones then 255
              else if ones \<le> 8 * i then 0
              else NOT (drop_bit (ones - 8 * i) 255)) [0..<bits div 8]"

definition IP_Mask :: "IP \<Rightarrow> bytes \<Rightarrow> IP" where
  "IP_Mask ip0 mask0 =
     (let mask = (if length mask0 = 16 \<and> length ip0 = 4 \<and> take 12 mask0 = replicate 12 255 then drop 12 mask0 else mask0);
          ip = (if length mask = 4 \<and> length ip0 = 16 \<and> take 12 ip0 = replicate 10 0 @ [255, 255] then drop 12 ip0 else ip0)
      in if length ip \<noteq> length mask then [] else map2 (AND) ip mask)"

text \<open>The address before the slash and the number of bits of its family.\<close>

definition ParseAddr :: "string \<Rightarrow> (IP \<times> nat) option" where
  "ParseAddr s =
     map_option (\<lambda>ip. (ip, if hd (filter (\<lambda>c. c = CHR ''.'' \<or> c = CHR '':'' \<or> c = CHR ''%'') s) = CHR ''.'' then 32 else 128))
       (ParseIP s)"

definition ParseCIDR :: "string \<Rightarrow> (IP \<times> IPNet) outcome" where
  "ParseCIDR s =
     (let err = Err (ErrText (''invalid CIDR address: '' @ s));
          addr = takeWhile (\<lambda>c. c \<noteq> CHR ''/'') s;
          mask = drop (length addr + 1) s
      in if CHR ''/'' \<notin> set s then err
         else case ParseAddr addr of
           None \<Rightarrow> err
         | Some (ip, bits) \<Rightarrow>
             if mask = [] \<or> \<not> list_all isDigit mask \<or> bits < textVal 10 mask then err
             else let m = CIDRMask (textVal 10 mask) bits
                  in Ok (ip, \<lparr>net_IP = IP_Mask ip m, net_Mask = m\<rparr>))"

fun parseCIDRLoop :: "(error \<Rightarrow> string) \<Rightarrow> string list \<Rightarrow> IPNet list \<times> error list" where
  "parseCIDRLoop errText [] = ([], [])"
| "parseCIDRLoop errText (p # v) =
     (let (nets, errs) = parseCIDRLoop errText v
      in case ParseCIDR (TrimSpace p) of
           Ok (_, n) \<Rightarrow> (n # nets, errs)
         | Err e \<Rightarrow> (nets, ErrText (''invalid cidr: '' @ p @ '': '' @ errText e) # errs)
         | Panic _ \<Rightarrow> (nets, errs))"

definition ParseCIDRs :: "(error \<Rightarrow> string) \<Rightarrow> string list \<Rightarrow> IPNet list \<times> error option" where
  "ParseCIDRs errText v =
     (if v = [] then ([], None)
      else let (nets, errs) = parseCIDRLoop errText v in (nets, combineErrors errText errs))"

section \<open>Hosts and ports survive printing\<close>

lemma takeWhile_upto: "c \<notin> set a \<Longrightarrow> takeWhile (\<lambda>x. x \<noteq> c) (a @ c # b) = a"
  by (induction a) auto

lemma LastIndex_app: "c \<notin> set b \<Longrightarrow> LastIndex (a @ c # b) c = int (length a)"
  using takeWhile_upto [of c "rev b" "rev a"] by (simp add: LastIndex_def)

lemma Index_app: "c \<notin> set a \<Longrightarrow> Index (a @ c # b) c = int (length a)"
  by (simp add: Index_def takeWhile_upto)

lemma LastIndex_none: "c \<notin> set s \<Longrightarrow> LastIndex s c = - 1"
  by (simp add: LastIndex_def)

abbreviation free :: "char list \<Rightarrow> string \<Rightarrow> bool" where
  "free cs s \<equiv> set cs \<inter> set s = {}"

lemma SplitHostPort_plain:
  assumes "free '':[]'' host" and "free '':[]'' port"
  shows "SplitHostPort (host @ '':'' @ port) = Ok (host, port)"
proof -
  have "(host @ CHR '':'' # port) ! 0 \<noteq> CHR ''[''" using assms(1) by (cases host) auto
  moreover have "LastIndex (host @ CHR '':'' # port) CHR '':'' = int (length host)" using assms(2) by (intro LastIndex_app) simp
  ultimately show ?thesis using assms by (simp add: SplitHostPort_def Let_def)
qed

lemma SplitHostPort_brackets:
  assumes "free ''[]'' host" and "free '':[]'' port"
  shows "SplitHostPort (''['' @ host @ '']:'' @ port) = Ok (host, port)"
proof -
  have i: "LastIndex (''['' @ host @ '']:'' @ port) CHR '':'' = int (length host) + 2"
    using assms(2) LastIndex_app [of "CHR '':''" port "''['' @ host @ '']''"] by simp
  have e: "Index (''['' @ host @ '']:'' @ port) CHR '']'' = int (length host) + 1"
    using assms(1) Index_app [of "CHR '']''" "''['' @ host" "'':'' @ port"] by simp
  have n: "nat (int (length host) + 2) = length host + 2" "nat (int (length host) + 1) = length host + 1"
    "nat (2 + int (length host)) = Suc (Suc (length host))" by simp_all
  show ?thesis using assms by (simp add: SplitHostPort_def i [simplified] e [simplified] n Let_def)
qed

lemma digit_free:
  assumes "list_all isDigit s"
  shows "free '':[]/'' s"
proof -
  have "\<not> isDigit CHR '':''" "\<not> isDigit CHR ''[''" "\<not> isDigit CHR '']''" "\<not> isDigit CHR ''/''" by code_simp+
  with assms show ?thesis by (auto simp: list_all_iff)
qed

lemma IP_String_free:
  assumes len: "length ip = 4 \<or> length ip = 16"
  shows "free ''[]/'' (IP_String ip)" and "To4 ip = Some p \<Longrightarrow> CHR '':'' \<notin> set (IP_String ip)"
proof -
  have no: "d \<notin> set (string6 ip)" if "hexVal d = None" "d \<noteq> CHR '':''" for d
    using colons_no [OF that] that by (auto simp: string6_def Let_def split: prod.splits)
  have dots: "d \<notin> set (IP_String ip)" if "To4 ip = Some p" "hexVal d = None" "d \<noteq> CHR ''.''" for d p
  proof -
    have "IP_String ip = joinWith ''.'' (map (Itoa \<circ> unat) p)" using that(1) len by (auto simp: IP_String_def)
    with dotted_chars(2) [OF To4_To16(2) [OF that(1) len] that(2,3)] show ?thesis by simp
  qed
  have x: "hexVal CHR ''/'' = None" by code_simp
  have "d \<notin> set (IP_String ip)" if d: "hexVal d = None" "d \<noteq> CHR '':''" "d \<noteq> CHR ''.''" for d
  proof (cases "To4 ip")
    case None
    then have "IP_String ip = string6 ip" using len by (auto simp: IP_String_def)
    with no [OF d(1,2)] show ?thesis by simp
  qed (use dots d in blast)
  then show "free ''[]/'' (IP_String ip)" by (simp add: hexVal_other x)
  show "CHR '':'' \<notin> set (IP_String ip)" if "To4 ip = Some p" using dots [OF that] by (simp add: hexVal_other)
qed

lemma parsePort_joinHostPort:
  assumes "free ''[]'' host"
  shows "parsePort (joinHostPort host port) = Ok (host, port)"
proof -
  have d: "free '':[]'' (Itoa (unat port))" using digit_free [OF Itoa_digits [of "unat port"]] by simp
  have "ParseUint16 (Itoa (unat port)) = Ok port" by (simp add: ParseUint16_Itoa)
  then show ?thesis
    using SplitHostPort_plain [OF _ d, of host] SplitHostPort_brackets [OF assms d] assms
    by (cases "CHR '':'' \<in> set host") (simp_all add: parsePort_def joinHostPort_def JoinHostPort_def)
qed

lemma count_list_0: "c \<notin> set s \<Longrightarrow> count_list s c = 0"
  by (induction s) auto

lemma hasPort_joinHostPort:
  assumes "free ''[]'' host"
  shows "hasPort (joinHostPort host port)"
proof -
  have d: "free '':[]'' (Itoa (unat port))" using digit_free [OF Itoa_digits [of "unat port"]] by simp
  show ?thesis
  proof (cases "CHR '':'' \<in> set host")
    case False
    then have "LastIndex (host @ '':'' @ Itoa (unat port)) CHR ''['' = - 1" using assms d by (intro LastIndex_none) simp
    with False d show ?thesis by (simp add: hasPort_def joinHostPort_def JoinHostPort_def count_list_0)
  next
    case True
    let ?s = "''['' @ host @ '']:'' @ Itoa (unat port)"
    have "LastIndex ?s CHR ''['' = 0" using assms d LastIndex_app [of "CHR ''[''" "host @ '']:'' @ Itoa (unat port)" "[]"] by simp
    moreover have "LastIndex ?s CHR '':'' = int (length host) + 2" using d LastIndex_app [of "CHR '':''" "Itoa (unat port)" "''['' @ host @ '']''"] by simp
    moreover have "LastIndex ?s CHR '']'' = int (length host) + 1" using d LastIndex_app [of "CHR '']''" "'':'' @ Itoa (unat port)" "''['' @ host"] by simp
    ultimately show ?thesis using True by (simp add: hasPort_def joinHostPort_def JoinHostPort_def)
  qed
qed

lemma ResolveAddr_joinHostPort:
  assumes "length ip = 4 \<or> length ip = 16"
  shows "ResolveAddr R (joinHostPort (IP_String ip) port) conf = Ok ([To16 ip], port)"
proof -
  have "free ''[]'' (IP_String ip)" using IP_String_free(1) [OF assms] by simp
  then show ?thesis
    using hasPort_joinHostPort parsePort_joinHostPort ParseIP_String [OF assms] by (simp add: ResolveAddr_def Let_def)
qed

lemma Itoa_0: "Itoa 0 = ''0''"
  by code_simp

lemma count_joinWith: "count_list (joinWith [c] xs) c \<ge> length xs - 1"
  by (induction "[c]" xs rule: joinWith.induct) auto

lemma string6_colons:
  assumes "length ip = 16"
  shows "2 \<le> count_list (string6 ip) CHR '':''"
proof -
  have "length (groups6 ip) = 8" using groups6_spec [of ip] assms by simp
  then have "7 \<le> count_list (colons (groups6 ip)) CHR '':''"
    using count_joinWith [of "map (numText 16) (groups6 ip)" "CHR '':''"] by simp
  then show ?thesis by (auto simp: string6_def Let_def split: prod.splits)
qed

lemma ResolveAddr_bare_IPv4:
  assumes "To4 ip = Some p"
  shows "ResolveAddr R (IP_String ip) conf = Ok ([To16 ip], 0)"
proof -
  have len: "length ip = 4 \<or> length ip = 16" using assms by (auto simp: To4_def split: if_splits)
  have ch: "free ''[]'' (IP_String ip)" "CHR '':'' \<notin> set (IP_String ip)"
    using IP_String_free(1) [OF len] IP_String_free(2) [OF len assms] by simp_all
  then have "\<not> hasPort (IP_String ip)" by (simp add: hasPort_def LastIndex_none count_list_0)
  moreover have "IP_String ip @ '':0'' = joinHostPort (IP_String ip) 0"
    using ch by (simp add: joinHostPort_def JoinHostPort_def Itoa_0)
  ultimately show ?thesis
    using parsePort_joinHostPort [OF ch(1), of 0] ParseIP_String [OF len] by (simp add: ResolveAddr_def Let_def)
qed

lemma ResolveAddr_bare_IPv6:
  assumes "length ip = 16" and "To4 ip = None"
  shows "ResolveAddr R (IP_String ip) conf = addrErr (IP_String ip @ '':0'') ''too many colons in address''"
proof -
  have len: "length ip = 4 \<or> length ip = 16" using assms by simp
  have str: "IP_String ip = string6 ip" using assms by (auto simp: IP_String_def)
  have ch: "free ''[]'' (string6 ip)" using IP_String_free(1) [OF len] by (simp add: str)
  then have "LastIndex (string6 ip) CHR ''['' = - 1" by (simp add: LastIndex_none)
  then have "\<not> hasPort (string6 ip)" using string6_colons [OF assms(1)] by (simp add: hasPort_def)
  moreover have "LastIndex (string6 ip @ '':0'') CHR '':'' = int (length (string6 ip))" using LastIndex_app [of "CHR '':''" "''0''"] by simp
  moreover have "(string6 ip @ '':0'') ! 0 \<noteq> CHR ''[''" using ch string6_chars(1) [OF assms(1)] by (cases "string6 ip") auto
  ultimately show ?thesis
    using string6_chars(1) [OF assms(1)] by (simp add: ResolveAddr_def parsePort_def SplitHostPort_def addrErr_def str Let_def)
qed

section \<open>Networks hold the addresses that share their prefix\<close>

text \<open>The bits of an address, the most significant first.\<close>

definition byteMsb :: "byte \<Rightarrow> bool list" where
  "byteMsb b = map (\<lambda>j. bit b (7 - j)) [0..<8]"

definition ipBits :: "IP \<Rightarrow> bool list" where
  "ipBits ip = concat (map byteMsb ip)"

lemma length_byteMsb [simp]: "length (byteMsb b) = 8"
  by (simp add: byteMsb_def)

lemma take_byteMsb:
  "take k (byteMsb x) = take k (byteMsb y) \<longleftrightarrow> (\<forall>j < min k 8. bit x (7 - j) = bit y (7 - j))"
  by (auto simp: byteMsb_def take_map list_eq_iff_nth_eq)

lemma bit_255: "bit (255 :: byte) i \<longleftrightarrow> i < 8"
proof -
  have "(255 :: byte) = mask 8" by (simp add: mask_eq_exp_minus_1)
  then show ?thesis by (simp only: bit_mask_iff) (simp add: possible_bit_def)
qed

lemma maskByte_eq:
  "x AND NOT (drop_bit k 255) = y AND NOT (drop_bit k 255) \<longleftrightarrow> take k (byteMsb x) = take k (byteMsb y)" for x y :: byte
proof -
  have m: "bit (z AND NOT (drop_bit k 255)) i \<longleftrightarrow> i < 8 \<and> bit z i \<and> 8 \<le> k + i" for z :: byte and i
    using bit_255 [of "k + i"] bit_imp_le_length [of z i]
    by (auto simp: bit_and_iff bit_not_iff bit_drop_bit_eq possible_bit_def)
  have "x AND NOT (drop_bit k 255) = y AND NOT (drop_bit k 255)
      \<longleftrightarrow> (\<forall>i < 8. 8 \<le> k + i \<longrightarrow> bit x i = bit y i)"
    unfolding bit_eq_iff m by (auto simp: possible_bit_def)
  also have "\<dots> \<longleftrightarrow> (\<forall>j < min k 8. bit x (7 - j) = bit y (7 - j))"
  proof (rule iffI; intro allI impI)
    fix j assume *: "\<forall>i < 8. 8 \<le> k + i \<longrightarrow> bit x i = bit y i" and j: "j < min k 8"
    then have "7 - j < 8" "8 \<le> k + (7 - j)" by auto
    with * show "bit x (7 - j) = bit y (7 - j)" by blast
  next
    fix i assume *: "\<forall>j < min k 8. bit x (7 - j) = bit y (7 - j)" and i: "i < 8" "8 \<le> k + i"
    then have "7 - i < min k 8" "7 - (7 - i) = i" by auto
    with * show "bit x i = bit y i" by metis
  qed
  finally show ?thesis by (simp add: take_byteMsb)
qed

lemma CIDRMask_nth:
  assumes "i < bits div 8"
  shows "CIDRMask n bits ! i = NOT (drop_bit (min 8 (n - 8 * i)) 255)"
proof -
  have "drop_bit 8 (255 :: byte) = 0" by code_simp
  then show ?thesis using assms by (auto simp: CIDRMask_def)
qed

lemma length_CIDRMask [simp]: "length (CIDRMask n bits) = bits div 8"
  by (simp add: CIDRMask_def)

lemma take_ipBits:
  "length x = length y \<Longrightarrow>
   take n (ipBits x) = take n (ipBits y) \<longleftrightarrow> (\<forall>i < length x. take (n - 8 * i) (byteMsb (x ! i)) = take (n - 8 * i) (byteMsb (y ! i)))"
proof (induction x y arbitrary: n rule: list_induct2)
  case (Cons b x c y)
  have "take n (ipBits (b # x)) = take n (ipBits (c # y))
      \<longleftrightarrow> take n (byteMsb b) = take n (byteMsb c) \<and> take (n - 8) (ipBits x) = take (n - 8) (ipBits y)"
    by (simp add: ipBits_def)
  also have "\<dots> \<longleftrightarrow> (\<forall>i < length (b # x). take (n - 8 * i) (byteMsb ((b # x) ! i)) = take (n - 8 * i) (byteMsb ((c # y) ! i)))"
    using Cons.IH [of "n - 8"] by (auto simp: less_Suc_eq_0_disj)
  finally show ?case .
qed simp

lemma masked_eq:
  assumes "length x = length y" and "8 * length x = bits"
  shows "(\<forall>i < length x. x ! i AND CIDRMask n bits ! i = y ! i AND CIDRMask n bits ! i)
    \<longleftrightarrow> take n (ipBits x) = take n (ipBits y)"
proof -
  have "(x ! i AND CIDRMask n bits ! i = y ! i AND CIDRMask n bits ! i)
      \<longleftrightarrow> take (n - 8 * i) (byteMsb (x ! i)) = take (n - 8 * i) (byteMsb (y ! i))" if "i < length x" for i
  proof -
    have "take (min 8 k) (byteMsb b) = take k (byteMsb b)" for k b by (simp add: min_def)
    with that assms(2) show ?thesis by (simp add: CIDRMask_nth maskByte_eq)
  qed
  then show ?thesis using take_ipBits [OF assms(1)] by simp
qed

text \<open>The form an address is compared in: 4 bytes for IPv4, 16 for the rest.\<close>

definition family :: "IP \<Rightarrow> IP" where
  "family ip = (case To4 ip of Some p \<Rightarrow> p | None \<Rightarrow> ip)"

lemma IPNet_Contains_net:
  assumes a: "To4 net = None \<or> length net = 4" "length net = 4 \<or> length net = 16" and m: "length msk = length net"
  shows "IPNet_Contains \<lparr>net_IP = net, net_Mask = msk\<rparr> q \<longleftrightarrow>
    length (family q) = length net \<and> (\<forall>i < length net. net ! i AND msk ! i = family q ! i AND msk ! i)"
proof -
  have "networkNumberAndMask \<lparr>net_IP = net, net_Mask = msk\<rparr> = (net, msk)"
    using a m by (auto simp: networkNumberAndMask_def To4_4 Let_def)
  then show ?thesis by (auto simp: IPNet_Contains_def family_def list_all_iff Let_def)
qed

lemma masked_not_To4:
  assumes "length ip = 16" and "To4 ip = None"
  shows "To4 (map2 (AND) ip (CIDRMask n 128)) = None"
proof (rule ccontr)
  let ?m = "map2 (AND) ip (CIDRMask n 128)"
  have nth: "?m ! i = ip ! i AND CIDRMask n 128 ! i" if "i < 16" for i using that assms(1) by simp
  have le: "x AND y = 255 \<Longrightarrow> x = 255 \<and> y = 255" for x y :: byte
  proof -
    have f: "(255 :: byte) = - 1" by code_simp
    show "x AND y = 255 \<Longrightarrow> x = 255 \<and> y = 255" unfolding f by (simp add: and_eq_minus_1_iff)
  qed
  assume "To4 ?m \<noteq> None"
  then have z: "take 10 ?m = replicate 10 0" "?m ! 10 = 255" "?m ! 11 = 255"
    using assms(1) by (auto simp: To4_def split: if_splits)
  have n: "?m ! 10 = ip ! 10 AND CIDRMask n 128 ! 10" "?m ! 11 = ip ! 11 AND CIDRMask n 128 ! 11" by (rule nth, simp)+
  have f: "ip ! 10 = 255" "ip ! 11 = 255" "CIDRMask n 128 ! 11 = 255"
    using le [OF trans [OF n(1) [symmetric] z(2)]] le [OF trans [OF n(2) [symmetric] z(3)]] by blast+
  have "96 \<le> n"
  proof (rule ccontr)
    assume "\<not> 96 \<le> n"
    then have "min 8 (n - 8 * 11) < 8" by simp
    then have "\<not> bit (CIDRMask n 128 ! 11) 0"
      using bit_255 [of "min 8 (n - 8 * 11)"] CIDRMask_nth [of 11 128 n] by (simp add: bit_not_iff bit_drop_bit_eq)
    then show False unfolding f(3) using bit_255 [of 0] by simp
  qed
  then have "ip ! i = 0" if "i < 10" for i
  proof -
    have "min 8 (n - 8 * i) = 8" using that \<open>96 \<le> n\<close> by simp
    moreover have "NOT (drop_bit 8 (255::byte)) = - 1" by code_simp
    ultimately have "CIDRMask n 128 ! i = - 1" using that by (simp add: CIDRMask_nth)
    moreover have "?m ! i = ip ! i AND CIDRMask n 128 ! i" by (rule nth) (use that in simp)
    moreover have "?m ! i = 0" using arg_cong [OF z(1), of "\<lambda>l. l ! i"] that by simp
    ultimately show ?thesis by simp
  qed
  then have "take 10 ip = replicate 10 0" using assms(1) by (auto simp: list_eq_iff_nth_eq)
  with f assms show False by (simp add: To4_def)
qed

lemma ParseAddr_String:
  assumes len: "length ip = 4 \<or> length ip = 16"
  shows "ParseAddr (IP_String ip) = Some (To16 ip, 8 * length (family ip))"
proof (cases "To4 ip")
  case None
  then have ip: "length ip = 16" "IP_String ip = string6 ip" using len by (auto simp: IP_String_def To4_4)
  obtain ds where "filter (\<lambda>c. c = CHR ''.'' \<or> c = CHR '':'' \<or> c = CHR ''%'') (string6 ip) = CHR '':'' # ds"
    by (rule filter_all_eq [OF string6_chars(1) [OF ip(1)], of "\<lambda>c. c = CHR ''.'' \<or> c = CHR '':'' \<or> c = CHR ''%''"]) (use string6_chars(2,3) [OF ip(1)] in auto)
  then show ?thesis using ParseIP_String [OF len] ip None by (simp add: ParseAddr_def family_def)
next
  case (Some p)
  then have p: "length p = 4" "IP_String ip = joinWith ''.'' (map (Itoa \<circ> unat) p)"
    using len To4_To16(2) [OF Some len] by (auto simp: IP_String_def)
  obtain ds where "filter (\<lambda>c. c = CHR ''.'' \<or> c = CHR '':'' \<or> c = CHR ''%'') (IP_String ip) = CHR ''.'' # ds"
    unfolding p(2) by (rule filter_all_eq [OF dotted_chars(1) [OF p(1)], of "\<lambda>c. c = CHR ''.'' \<or> c = CHR '':'' \<or> c = CHR ''%''"]) (use dotted_chars(2) [OF p(1)] in \<open>auto simp: hexVal_other\<close>)
  then show ?thesis using ParseIP_String [OF len] p(1) Some by (simp add: ParseAddr_def family_def)
qed

lemma ParseCIDR_printed:
  assumes len: "length ip = 4 \<or> length ip = 16" and n: "n \<le> 8 * length (family ip)"
  shows "\<exists>net. ParseCIDR (IP_String ip @ ''/'' @ Itoa n) = Ok (To16 ip, net)
    \<and> (\<forall>q. IPNet_Contains net q \<longleftrightarrow> length (family q) = length (family ip)
         \<and> take n (ipBits (family q)) = take n (ipBits (family ip)))"
proof -
  let ?bits = "8 * length (family ip)" and ?s = "IP_String ip @ ''/'' @ Itoa n"
  let ?m = "CIDRMask n ?bits"
  have fam: "length (family ip) = 4 \<or> length (family ip) = 16" "To4 (family ip) = None \<or> length (family ip) = 4"
    using len To4_To16(2) [OF _ len] by (cases "To4 ip"; auto simp: family_def)+
  have tw: "takeWhile (\<lambda>c. c \<noteq> CHR ''/'') ?s = IP_String ip"
    using IP_String_free(1) [OF len] takeWhile_upto [of "CHR ''/''" "IP_String ip" "Itoa n"] by simp
  have addr: "ParseAddr (IP_String ip) = Some (To16 ip, ?bits)" using ParseAddr_String [OF len] .
  have mask: "IP_Mask (To16 ip) ?m = map2 (AND) (family ip) ?m" using len To4_To16 [OF _ len]
    by (cases "To4 ip") (auto simp: IP_Mask_def family_def To16_def To4_4 v4InV6_def Let_def)
  let ?net = "\<lparr>net_IP = map2 (AND) (family ip) ?m, net_Mask = ?m\<rparr>"
  have "ParseCIDR ?s = Ok (To16 ip, ?net)"
    unfolding ParseCIDR_def Let_def tw using Itoa_digits [of n] n by (simp add: addr mask Itoa_def textVal_numText)
  moreover have "IPNet_Contains ?net q \<longleftrightarrow> length (family q) = length (family ip)
         \<and> take n (ipBits (family q)) = take n (ipBits (family ip))" for q
  proof -
    have "IPNet_Contains ?net q \<longleftrightarrow> length (family q) = length (family ip) \<and>
        (\<forall>i < length (family ip). family q ! i AND ?m ! i = family ip ! i AND ?m ! i)"
      using fam masked_not_To4 [of "family ip" n] by (subst IPNet_Contains_net) (auto simp: and.assoc)
    then show ?thesis using masked_eq [of "family q" "family ip" ?bits n] by auto
  qed
  ultimately show ?thesis by blast
qed

section \<open>Lists of networks\<close>

lemma trimLeft_none:
  assumes "s = [] \<or> (\<forall>w \<in> set ws. w \<noteq> [] \<longrightarrow> hd w \<noteq> of_char (hd s))"
  shows "trimLeft ws s = s"
proof (cases s)
  case (Cons c t)
  have "filter (\<lambda>w. w \<noteq> [] \<and> take (length w) (map of_char s) = w) ws = []"
    using assms Cons by (auto simp: filter_empty_conv) (metis list.sel(1) list.size(3) length_0_conv take_eq_Nil2 hd_take length_greater_0_conv)
  then show ?thesis by (subst trimLeft.simps) simp
qed (subst trimLeft.simps, auto split: list.splits)

definition graphic :: "char \<Rightarrow> bool" where
  "graphic c \<longleftrightarrow> 32 < (of_char c :: nat) \<and> (of_char c :: nat) < 127"

lemma TrimSpace_graphic:
  assumes "s \<noteq> []" and "graphic (hd s)" and "graphic (last s)"
  shows "TrimSpace s = s"
proof -
  have "trimLeft spaceTexts s = s"
    using assms by (intro trimLeft_none) (auto simp: spaceTexts_def graphic_def)
  moreover have "trimLeft (map rev spaceTexts) (rev s) = rev s"
    using assms by (intro trimLeft_none) (auto simp: spaceTexts_def graphic_def hd_rev)
  ultimately show ?thesis by (simp add: TrimSpace_def)
qed

lemma graphic_hex: "isHex c \<Longrightarrow> graphic c"
  by (auto simp: isHex_def hexVal_def graphic_def Let_def split: if_splits)

lemma parseCIDRLoop_spec:
  "parseCIDRLoop errText v = (nets, errs) \<Longrightarrow>
   nets = concat (map (\<lambda>p. case ParseCIDR (TrimSpace p) of Ok (_, n) \<Rightarrow> [n] | _ \<Rightarrow> []) v)
   \<and> (errs = [] \<longleftrightarrow> (\<forall>p \<in> set v. \<exists>r. ParseCIDR (TrimSpace p) = Ok r))"
proof (induction v arbitrary: nets errs)
  case (Cons p v)
  have "ParseCIDR (TrimSpace p) \<noteq> Panic x" for x by (auto simp: ParseCIDR_def Let_def split: option.splits)
  with Cons show ?case by (cases "ParseCIDR (TrimSpace p)") (auto split: prod.splits)
qed simp

lemma ParseCIDRs_nets:
  "fst (ParseCIDRs errText v) = concat (map (\<lambda>p. case ParseCIDR (TrimSpace p) of Ok (_, n) \<Rightarrow> [n] | _ \<Rightarrow> []) v)"
  using parseCIDRLoop_spec [of errText v] by (auto simp: ParseCIDRs_def Let_def split: prod.splits)

lemma ParseCIDRs_error: "snd (ParseCIDRs errText v) = None \<longleftrightarrow> (\<forall>p \<in> set v. \<exists>r. ParseCIDR (TrimSpace p) = Ok r)"
  using parseCIDRLoop_spec [of errText v] by (auto simp: ParseCIDRs_def combineErrors_def Let_def split: prod.splits)

definition cidrText :: "IP \<times> nat \<Rightarrow> string" where
  "cidrText = (\<lambda>(ip, n). IP_String ip @ ''/'' @ Itoa n)"

definition inNet :: "IP \<Rightarrow> IP \<times> nat \<Rightarrow> bool" where
  "inNet q = (\<lambda>(ip, n). length (family q) = length (family ip) \<and> take n (ipBits (family q)) = take n (ipBits (family ip)))"

definition cidrOk :: "IP \<times> nat \<Rightarrow> bool" where
  "cidrOk = (\<lambda>(ip, n). (length ip = 4 \<or> length ip = 16) \<and> n \<le> 8 * length (family ip))"

lemma IP_String_hd:
  assumes "length ip = 4 \<or> length ip = 16"
  shows "IP_String ip \<noteq> []" and "graphic (hd (IP_String ip))"
proof -
  have "IP_String ip \<noteq> [] \<and> graphic (hd (IP_String ip))"
  proof (cases "To4 ip")
    case None
    then have ip: "length ip = 16" "IP_String ip = string6 ip" using assms by (auto simp: IP_String_def To4_4)
    have "groups6 ip \<noteq> []" using groups6_spec [of ip] ip(1) by auto
    moreover have "graphic CHR '':''" by (simp add: graphic_def)
    ultimately show ?thesis unfolding ip(2) string6_def Let_def
      using colons_hd [of "groups6 ip"] colons_hd [of "take s (groups6 ip)" for s]
      by (auto simp: hd_append colons_empty graphic_hex split: prod.splits)
  next
    case (Some p)
    have s: "IP_String ip = joinWith ''.'' (map (Itoa \<circ> unat) p)" using Some assms by (auto simp: IP_String_def)
    obtain b p' where p: "p = b # p'" using To4_To16(2) [OF Some assms] by (cases p) auto
    have "isDigit (hd (Itoa (unat b)))" using Itoa_digits [of "unat b"] by (simp add: list_all_iff Itoa_def)
    then have "graphic (hd (Itoa (unat b)))" by (intro graphic_hex) (auto simp: isDigit_def isHex_def split: option.splits)
    then show ?thesis unfolding s p by (cases p') (auto simp: Itoa_def hd_append)
  qed
  then show "IP_String ip \<noteq> []" "graphic (hd (IP_String ip))" by simp_all
qed

lemma cidrText_parsed:
  assumes "cidrOk c"
  shows "\<exists>net. ParseCIDR (TrimSpace (cidrText c)) = Ok (To16 (fst c), net) \<and> (\<forall>q. IPNet_Contains net q \<longleftrightarrow> inNet q c)"
proof -
  obtain ip n where c: "c = (ip, n)" by (cases c)
  have len: "length ip = 4 \<or> length ip = 16" "n \<le> 8 * length (family ip)" using assms by (auto simp: cidrOk_def c)
  have "isDigit (last (Itoa n))" using Itoa_digits [of n] by (simp add: list_all_iff Itoa_def)
  then have "graphic (last (cidrText c))"
    by (intro graphic_hex) (auto simp: c cidrText_def isDigit_def isHex_def Itoa_def split: option.splits)
  then have "TrimSpace (cidrText c) = cidrText c"
    using IP_String_hd [OF len(1)] by (intro TrimSpace_graphic) (auto simp: c cidrText_def)
  then show ?thesis using ParseCIDR_printed [OF len] by (simp add: c cidrText_def inNet_def)
qed

lemma ParseCIDRs_filter:
  assumes "\<forall>c \<in> set cs. cidrOk c"
  shows "snd (ParseCIDRs errText (map cidrText cs)) = None"
    and "IPAllowed (cfg\<lparr>c_CIDRsAllowed := fst (ParseCIDRs errText (map cidrText cs))\<rparr>) q \<longleftrightarrow> cs = [] \<or> (\<exists>c \<in> set cs. inNet q c)"
proof -
  show "snd (ParseCIDRs errText (map cidrText cs)) = None"
    using cidrText_parsed assms by (fastforce simp: ParseCIDRs_error)
  obtain net where net: "ParseCIDR (TrimSpace (cidrText c)) = Ok (To16 (fst c), net c)"
    "IPNet_Contains (net c) q \<longleftrightarrow> inNet q c" if "c \<in> set cs" for c
    using cidrText_parsed assms by metis
  then have "fst (ParseCIDRs errText (map cidrText cs)) = map net cs"
    unfolding ParseCIDRs_nets by (induction cs) auto
  then show "IPAllowed (cfg\<lparr>c_CIDRsAllowed := fst (ParseCIDRs errText (map cidrText cs))\<rparr>) q \<longleftrightarrow> cs = [] \<or> (\<exists>c \<in> set cs. inNet q c)"
    using net(2) by (auto simp: IPAllowed_iff)
qed

end
