(* ===== verification/Transport.thy ===== *)
theory Transport
  imports Resolve
begin

text \<open>
  The sockets of \<^verbatim>\<open>src/net_transport.go\<close>: the struct \<open>NetTransport\<close>, its creation, \<open>Start\<close> and \<open>Shutdown\<close>,
  and the loops of its listeners. The operating system is a parameter \<open>'s os\<close> over its own state \<open>'s\<close>;
  what the code relies on is the locale \<open>kernel_laws\<close>. A listener goroutine is the function from
  the results its system calls return to what it does in turn. Texts of errors are abbreviated.
\<close>

section \<open>The operating system\<close>

datatype proto = TCP | UDP

record sock =
  sk_proto :: proto
  sk_id :: nat
  sk_IP :: IP
  sk_Port :: int

text \<open>\<open>os_listen\<close> binds an address (the empty one is every interface) and a port, 0 for any.\<close>

record 's os =
  os_listen :: "proto \<Rightarrow> IP \<Rightarrow> int \<Rightarrow> 's \<Rightarrow> sock outcome \<times> 's"
  os_setReadBuffer :: "sock \<Rightarrow> int \<Rightarrow> error option"
  os_close :: "sock \<Rightarrow> 's \<Rightarrow> 's"

section \<open>The transport\<close>

record NetTransport =
  nt_bindAddrs :: "string list"
  nt_bindPort :: int
  nt_udpConns :: "sock list"
  nt_tcpListeners :: "sock list"
  nt_listening :: "(sock \<times> sock) list"   \<comment> \<open>the listener goroutines \<open>wg\<close> counts\<close>
  nt_shutdown :: bool

definition NewNetTransport :: "string list \<Rightarrow> int \<Rightarrow> bool \<Rightarrow> NetTransport outcome" where
  "NewNetTransport addrs port logger =
     (if length addrs = 0 then Err (ErrText ''at least one bind address is required'')
      else if \<not> logger then Err (ErrText ''logger is required'')
      else Ok \<lparr>nt_bindAddrs = addrs, nt_bindPort = port, nt_udpConns = [], nt_tcpListeners = [],
               nt_listening = [], nt_shutdown = False\<rparr>)"

definition transportHasShutdown :: "NetTransport \<Rightarrow> bool" where
  "transportHasShutdown t = nt_shutdown t"

definition udpSocketBufSize :: int where
  "udpSocketBufSize = 2 * 1024 * 1024"

text \<open>On success, the size that was set.\<close>

function setBufLoop :: "(int \<Rightarrow> error option) \<Rightarrow> int \<Rightarrow> error \<Rightarrow> int outcome" where
  "setBufLoop attempt sz err =
     (if 0 < sz then
        (case attempt sz of None \<Rightarrow> Ok sz | Some e \<Rightarrow> setBufLoop attempt (sz div 2) e)
      else Err err)"
  by pat_completeness auto
termination
  by (relation "measure (\<lambda>(attempt, sz, err). nat sz)") auto

declare setBufLoop.simps [simp del]

definition setUDPSocketBuf :: "'s os \<Rightarrow> sock \<Rightarrow> int outcome" where
  "setUDPSocketBuf OS c = setBufLoop (os_setReadBuffer OS c) udpSocketBufSize (ErrText '''')"

definition closeAll :: "'s os \<Rightarrow> sock list \<Rightarrow> 's \<Rightarrow> 's" where
  "closeAll OS cs s = foldl (\<lambda>s c. os_close OS c s) s cs"

definition transportShutdown :: "'s os \<Rightarrow> NetTransport \<Rightarrow> 's \<Rightarrow> NetTransport \<times> 's" where
  "transportShutdown OS t s =
     (if transportHasShutdown t then (t, s)
      else (t\<lparr>nt_shutdown := True, nt_tcpListeners := [], nt_udpConns := [], nt_listening := []\<rparr>,
            closeAll OS (nt_udpConns t) (closeAll OS (nt_tcpListeners t) s)))"

text \<open>The loop of \<open>Start\<close> over the addresses to bind.\<close>

fun bindLoop :: "'s os \<Rightarrow> string list \<Rightarrow> NetTransport \<Rightarrow> 's \<Rightarrow> unit outcome \<times> NetTransport \<times> 's" where
  "bindLoop OS [] t s = (Ok (), t, s)"
| "bindLoop OS (addr # addrs) t s =
     (let ip = (case ParseIP addr of None \<Rightarrow> [] | Some ip \<Rightarrow> ip)
      in case os_listen OS TCP ip (nt_bindPort t) s of
           (Ok tcpLn, s1) \<Rightarrow>
             (let t1 = t\<lparr>nt_tcpListeners := nt_tcpListeners t @ [tcpLn]\<rparr>;
                  t2 = (if nt_bindPort t1 = 0 then t1\<lparr>nt_bindPort := sk_Port tcpLn\<rparr> else t1)
              in case os_listen OS UDP ip (nt_bindPort t2) s1 of
                   (Ok udpConn, s2) \<Rightarrow>
                     (case setUDPSocketBuf OS udpConn of
                        Ok _ \<Rightarrow> bindLoop OS addrs (t2\<lparr>nt_udpConns := nt_udpConns t2 @ [udpConn]\<rparr>) s2
                      | _ \<Rightarrow> (Err (ErrNet ''failed to resize UDP buffer''), t2, s2))
                 | (_, s2) \<Rightarrow> (Err (ErrNet ''failed to start UDP listener''), t2, s2))
         | (_, s1) \<Rightarrow> (Err (ErrNet ''failed to start TCP listener''), t, s1))"

definition Start :: "'s os \<Rightarrow> NetTransport \<Rightarrow> 's \<Rightarrow> unit outcome \<times> NetTransport \<times> 's" where
  "Start OS t s =
     (case bindLoop OS (nt_bindAddrs t) (t\<lparr>nt_shutdown := False\<rparr>) s of
        (Ok _, t1, s1) \<Rightarrow>
          (Ok (), t1\<lparr>nt_listening := nt_listening t1
              @ map (\<lambda>i. (nt_tcpListeners t1 ! i, nt_udpConns t1 ! i)) [0..<length (nt_bindAddrs t1)]\<rparr>, s1)
      | (r, t1, s1) \<Rightarrow> (r, transportShutdown OS t1 s1))"

text \<open>The ten attempts of \<open>ZeroBindPortTransport\<close>. The error of an attempt is only logged: the variable
  \<open>err\<close> of the last line is the one of \<open>NewNetTransport\<close>, which is nil there.\<close>

fun zeroLoop :: "'s os \<Rightarrow> nat \<Rightarrow> NetTransport \<Rightarrow> 's \<Rightarrow> NetTransport outcome \<times> 's" where
  "zeroLoop OS 0 t s = (Err (ErrText ''failed to obtain address: <nil>''), s)"
| "zeroLoop OS (Suc n) t s =
     (case Start OS t s of
        (Ok _, t1, s1) \<Rightarrow> (Ok t1, s1)
      | (_, t1, s1) \<Rightarrow> zeroLoop OS n t1 s1)"

definition ZeroBindPortTransport :: "'s os \<Rightarrow> string list \<Rightarrow> bool \<Rightarrow> 's \<Rightarrow> NetTransport outcome \<times> 's" where
  "ZeroBindPortTransport OS addrs logger s =
     (case NewNetTransport addrs 0 logger of
        Ok t \<Rightarrow> zeroLoop OS 10 t s
      | r \<Rightarrow> (r, s))"

definition getFirstConn :: "NetTransport \<Rightarrow> sock outcome" where
  "getFirstConn t =
     (if length (nt_udpConns t) = 0 then Err (ErrText ''transport shutdown'') else Ok (nt_udpConns t ! 0))"

definition BindPort :: "NetTransport \<Rightarrow> int" where
  "BindPort t = nt_bindPort t"

text \<open>\<open>privateIP\<close> is the answer of \<open>sockaddr.GetPrivateIP\<close>.\<close>

definition GetFirstAddr :: "string outcome \<Rightarrow> NetTransport \<Rightarrow> (IP \<times> int) outcome" where
  "GetFirstAddr privateIP t =
     (if nt_bindAddrs t = [] then Panic IndexOutOfRange
      else if nt_bindAddrs t ! 0 = ''0.0.0.0'' then
        (case privateIP of
           Ok ipStr \<Rightarrow>
             if ipStr = [] then Err (ErrText ''no private IP address found, and explicit IP not provided'')
             else (case ParseIP ipStr of
                     None \<Rightarrow> Err ErrAdvertiseAddr
                   | Some ip \<Rightarrow> Ok (ip, nt_bindPort t))
         | Err e \<Rightarrow> Err (ErrText ''failed to get interface addresses'')
         | Panic p \<Rightarrow> Panic p)
      else bind_outcome (getFirstConn t) (\<lambda>conn. Ok (sk_IP conn, nt_bindPort t)))"

section \<open>The listeners\<close>

datatype 'c action = Sleep duration | Deliver 'c | Log | Exit

definition baseDelay :: duration where "baseDelay = 5 * Millisecond"
definition maxDelay :: duration where "maxDelay = Second"

text \<open>What a listener does with the results of \<open>AcceptTCP\<close>; the flag is \<open>hasShutdown\<close> when an error is seen.\<close>

fun tcpListen :: "duration \<Rightarrow> ('c outcome \<times> bool) list \<Rightarrow> 'c action list" where
  "tcpListen loopDelay [] = []"
| "tcpListen loopDelay ((Ok conn, _) # es) = Deliver conn # tcpListen 0 es"
| "tcpListen loopDelay ((_, shutdown) # es) =
     (if shutdown then [Exit]
      else let d1 = (if loopDelay = 0 then baseDelay else loopDelay * 2);
               d2 = (if d1 > maxDelay then maxDelay else d1)
           in Log # Sleep d2 # tcpListen d2 es)"

record Packet =
  pk_Buf :: bytes
  pk_From :: UDPAddr
  pk_Timestamp :: time

definition udpPacketBufSize :: nat where "udpPacketBufSize = 65536"

text \<open>A result of \<open>ReadFrom\<close> with the time after it, \<open>hasShutdown\<close>, and whether the socket is closed. What
  the buffer cannot hold of a datagram is lost.\<close>

fun udpListen :: "((bytes \<times> UDPAddr) outcome \<times> time \<times> bool \<times> bool) list \<Rightarrow> Packet action list" where
  "udpListen [] = []"
| "udpListen ((Ok (datagram, addr), ts, _) # es) =
     (let buf = take udpPacketBufSize datagram
      in (if length buf < 1 then Log
          else Deliver \<lparr>pk_Buf = buf, pk_From = addr, pk_Timestamp = ts\<rparr>) # udpListen es)"
| "udpListen ((_, ts, shutdown, isClosed) # es) =
     (if shutdown then [Exit]
      else if isClosed then [Log, Exit]
      else Log # udpListen es)"

section \<open>Sockets are bound and released\<close>

lemma bindLoop_tcp:
  assumes l1: "os_listen OS TCP (case ParseIP addr of None \<Rightarrow> [] | Some ip \<Rightarrow> ip) (nt_bindPort t) s = (Ok lsn, s1)"
    and p: "nt_bindPort t \<noteq> 0 \<longrightarrow> sk_Port lsn = nt_bindPort t"
    and l2: "os_listen OS UDP (case ParseIP addr of None \<Rightarrow> [] | Some ip \<Rightarrow> ip) (sk_Port lsn) s1 = (r2, s2)"
  shows "bindLoop OS (addr # addrs) t s =
    (let t2 = t\<lparr>nt_tcpListeners := nt_tcpListeners t @ [lsn], nt_bindPort := sk_Port lsn\<rparr> in
     case r2 of
       Ok c \<Rightarrow> (case setUDPSocketBuf OS c of
            Ok _ \<Rightarrow> bindLoop OS addrs (t2\<lparr>nt_udpConns := nt_udpConns t @ [c]\<rparr>) s2
          | _ \<Rightarrow> (Err (ErrNet ''failed to resize UDP buffer''), t2, s2))
     | _ \<Rightarrow> (Err (ErrNet ''failed to start UDP listener''), t2, s2))"
proof (cases "nt_bindPort t = 0")
  case True
  then show ?thesis using l1 l2 by (cases r2) (auto simp: Let_def split: outcome.splits)
next
  case False
  then have e: "t\<lparr>nt_tcpListeners := X, nt_bindPort := sk_Port lsn\<rparr> = t\<lparr>nt_tcpListeners := X\<rparr>" for X using p by (cases t) auto
  show ?thesis unfolding e using False l1 l2 p by (cases r2) (auto simp: Let_def split: outcome.splits)
qed

text \<open>A transport that has not been started, and one that listens on its addresses, all on one port.\<close>

definition idleTransport :: "NetTransport \<Rightarrow> bool" where
  "idleTransport t \<longleftrightarrow> nt_tcpListeners t = [] \<and> nt_udpConns t = [] \<and> nt_listening t = [] \<and> nt_bindAddrs t \<noteq> []"

definition started :: "string list \<Rightarrow> NetTransport \<Rightarrow> bool" where
  "started addrs t \<longleftrightarrow> \<not> nt_shutdown t \<and> nt_bindAddrs t = addrs \<and> nt_bindPort t \<noteq> 0
     \<and> length (nt_tcpListeners t) = length addrs \<and> length (nt_udpConns t) = length addrs
     \<and> (\<forall>c \<in> set (nt_tcpListeners t) \<union> set (nt_udpConns t). sk_Port c = nt_bindPort t)
     \<and> nt_listening t = zip (nt_tcpListeners t) (nt_udpConns t)"

definition sockets :: "NetTransport \<Rightarrow> sock set" where
  "sockets t = set (nt_tcpListeners t) \<union> set (nt_udpConns t)"

text \<open>What the code relies on of the operating system: a new socket is not one of the open ones, has the
  address and the port asked for (a free one for port 0), a failed call opens nothing, and closing
  releases a socket. \<open>opened\<close> are the open sockets.\<close>

locale kernel_laws =
  fixes OS :: "'s os" and opened :: "'s \<Rightarrow> sock set"
  assumes listen_opens: "os_listen OS p ip port s = (Ok c, s') \<Longrightarrow> c \<notin> opened s \<and> opened s' = insert c (opened s)"
    and listen_port: "os_listen OS p ip port s = (Ok c, s') \<Longrightarrow> sk_Port c \<noteq> 0 \<and> (port \<noteq> 0 \<longrightarrow> sk_Port c = port)"
    and listen_addr: "os_listen OS p ip port s = (Ok c, s') \<Longrightarrow> length ip = 4 \<or> length ip = 16 \<Longrightarrow> length (sk_IP c) \<in> {4, 16} \<and> To16 (sk_IP c) = To16 ip"
    and listen_fails: "os_listen OS p ip port s = (r, s') \<Longrightarrow> \<forall>c. r \<noteq> Ok c \<Longrightarrow> opened s' = opened s"
    and close_releases: "opened (os_close OS c s) = opened s - {c}"
begin

lemma closeAll_releases: "opened (closeAll OS cs s) = opened s - set cs"
  by (induction cs arbitrary: s) (auto simp: closeAll_def close_releases)

text \<open>The sockets of a transport, and a change of state that opened exactly some more.\<close>

abbreviation gains :: "'s \<Rightarrow> 's \<Rightarrow> sock set \<Rightarrow> bool" where
  "gains s s' N \<equiv> opened s' = opened s \<union> N \<and> N \<inter> opened s = {}"

definition unbuffered :: "sock \<Rightarrow> bool" where
  "unbuffered c \<longleftrightarrow> (\<forall>n. setUDPSocketBuf OS c \<noteq> Ok n)"

definition bound :: "NetTransport \<Rightarrow> 's \<Rightarrow> NetTransport \<Rightarrow> 's \<Rightarrow> sock list \<Rightarrow> sock list \<Rightarrow> sock set \<Rightarrow> bool" where
  "bound t s t' s' tcps udps leaked \<longleftrightarrow>
     t' = t\<lparr>nt_tcpListeners := nt_tcpListeners t @ tcps, nt_udpConns := nt_udpConns t @ udps, nt_bindPort := nt_bindPort t'\<rparr>
     \<and> gains s s' (set tcps \<union> set udps \<union> leaked) \<and> leaked \<inter> (set tcps \<union> set udps) = {} \<and> (\<forall>c \<in> leaked. unbuffered c)
     \<and> (nt_bindPort t \<noteq> 0 \<longrightarrow> nt_bindPort t' = nt_bindPort t)
     \<and> (\<forall>c \<in> set tcps \<union> set udps. sk_Port c = nt_bindPort t' \<and> sk_Port c \<noteq> 0)"

lemma bound_fields:
  assumes "bound t s t' s' tcps udps leaked"
  shows "nt_tcpListeners t' = nt_tcpListeners t @ tcps" "nt_udpConns t' = nt_udpConns t @ udps" "nt_listening t' = nt_listening t"
    "nt_bindAddrs t' = nt_bindAddrs t" "nt_shutdown t' = nt_shutdown t"
proof -
  have e: "t' = t\<lparr>nt_tcpListeners := nt_tcpListeners t @ tcps, nt_udpConns := nt_udpConns t @ udps, nt_bindPort := nt_bindPort t'\<rparr>"
    using assms by (simp add: bound_def)
  show "nt_tcpListeners t' = nt_tcpListeners t @ tcps" "nt_udpConns t' = nt_udpConns t @ udps" "nt_listening t' = nt_listening t"
    "nt_bindAddrs t' = nt_bindAddrs t" "nt_shutdown t' = nt_shutdown t"
    using arg_cong [OF e, of nt_tcpListeners] arg_cong [OF e, of nt_udpConns] arg_cong [OF e, of nt_listening]
      arg_cong [OF e, of nt_bindAddrs] arg_cong [OF e, of nt_shutdown] by simp_all
qed

lemma bound_step:
  assumes "bound (t\<lparr>nt_tcpListeners := nt_tcpListeners t @ [lsn], nt_bindPort := sk_Port lsn, nt_udpConns := nt_udpConns t @ [c]\<rparr>)
      s2 t' s' tcps udps leaked"
    and "gains s s2 {lsn, c}" and "sk_Port lsn \<noteq> 0" and "nt_bindPort t \<noteq> 0 \<longrightarrow> sk_Port lsn = nt_bindPort t" and "sk_Port c = sk_Port lsn"
  shows "bound t s t' s' (lsn # tcps) (c # udps) leaked"
  using assms unfolding bound_def by (intro conjI) auto

lemma bindLoop_spec:
  "bindLoop OS addrs t s = (r, t', s') \<Longrightarrow>
   \<exists>tcps udps leaked. bound t s t' s' tcps udps leaked
     \<and> (r = Ok () \<longrightarrow> length tcps = length addrs \<and> length udps = length addrs \<and> leaked = {})
     \<and> (\<forall>p. r \<noteq> Panic p)"
proof (induction addrs arbitrary: t s)
  case Nil
  then show ?case by (intro exI [of _ "[]"] exI [of _ "{}"]) (auto simp: bound_def)
next
  case (Cons addr addrs)
  let ?ip = "case ParseIP addr of None \<Rightarrow> [] | Some ip \<Rightarrow> ip"
  obtain r1 s1 where l1: "os_listen OS TCP ?ip (nt_bindPort t) s = (r1, s1)" by force
  show ?case
  proof (cases "\<exists>lsn. r1 = Ok lsn")
    case True
    then obtain lsn where Ok: "r1 = Ok lsn" by blast
    let ?t2 = "t\<lparr>nt_tcpListeners := nt_tcpListeners t @ [lsn], nt_bindPort := sk_Port lsn\<rparr>"
    have p: "sk_Port lsn \<noteq> 0" "nt_bindPort t \<noteq> 0 \<longrightarrow> sk_Port lsn = nt_bindPort t"
      using listen_port l1 Ok by blast+
    have o1: "lsn \<notin> opened s" "opened s1 = insert lsn (opened s)" using listen_opens l1 Ok by blast+
    obtain r2 s2 where l2: "os_listen OS UDP ?ip (sk_Port lsn) s1 = (r2, s2)" by force
    note step = Cons.prems [unfolded bindLoop_tcp [OF l1 [unfolded Ok] p(2) l2], unfolded Let_def]
    show ?thesis
    proof (cases "\<exists>c. r2 = Ok c")
      case True
      then obtain c where Ok: "r2 = Ok c" by blast
      have o2: "c \<notin> opened s1" "opened s2 = insert c (opened s1)" using listen_opens l2 Ok by blast+
      have pc: "sk_Port c = sk_Port lsn" using listen_port [OF l2 [unfolded Ok]] p(1) by simp
      show ?thesis
      proof (cases "\<exists>n. setUDPSocketBuf OS c = Ok n")
        case True
        then have "bindLoop OS addrs (?t2\<lparr>nt_udpConns := nt_udpConns t @ [c]\<rparr>) s2 = (r, t', s')" using step Ok by auto
        from Cons.IH [OF this] obtain tcps udps leaked where ih:
          "bound (?t2\<lparr>nt_udpConns := nt_udpConns t @ [c]\<rparr>) s2 t' s' tcps udps leaked"
          "r = Ok () \<longrightarrow> length tcps = length addrs \<and> length udps = length addrs \<and> leaked = {}" "\<forall>p. r \<noteq> Panic p"
          by blast
        have "gains s s2 {lsn, c}" using o1 o2 by auto
        from bound_step [OF ih(1) this p pc] ih(2,3) show ?thesis
          by (intro exI [of _ "lsn # tcps"] exI [of _ "c # udps"] exI [of _ leaked]) simp
      next
        case False
        then have "r = Err (ErrNet ''failed to resize UDP buffer'')" "t' = ?t2" "s' = s2" "unbuffered c"
          using step Ok by (auto simp: unbuffered_def split: outcome.splits)
        then show ?thesis using o1 o2 p by (intro exI [of _ "[lsn]"] exI [of _ "[]"] exI [of _ "{c}"]) (auto simp: bound_def)
      qed
    next
      case False
      then have f: "r = Err (ErrNet ''failed to start UDP listener'')" "t' = ?t2" "s' = s2"
        using step False by (cases r2; auto)+
      have "opened s2 = opened s1" using listen_fails [OF l2] False by blast
      then have "bound t s t' s' [lsn] [] {}" using o1 p by (auto simp: bound_def f)
      then show ?thesis using f by blast
    qed
  next
    case False
    then have f: "r = Err (ErrNet ''failed to start TCP listener'')" "t' = t" "s' = s1"
      using l1 Cons.prems False by (cases r1; auto)+
    have "opened s1 = opened s" using listen_fails [OF l1] False by blast
    then have "bound t s t' s' [] [] {}" by (simp add: bound_def f)
    then show ?thesis using f by blast
  qed
qed

lemma Start_Ok:
  assumes "Start OS t s = (Ok (), t', s')" and "idleTransport t"
  shows "started (nt_bindAddrs t) t' \<and> gains s s' (sockets t')"
proof -
  obtain t1 where b: "bindLoop OS (nt_bindAddrs t) (t\<lparr>nt_shutdown := False\<rparr>) s = (Ok (), t1, s')"
    and t': "t' = t1\<lparr>nt_listening := nt_listening t1
        @ map (\<lambda>i. (nt_tcpListeners t1 ! i, nt_udpConns t1 ! i)) [0..<length (nt_bindAddrs t1)]\<rparr>"
    using assms(1) by (auto simp: Start_def split: prod.splits outcome.splits)
  obtain tcps udps where f: "bound (t\<lparr>nt_shutdown := False\<rparr>) s t1 s' tcps udps {}"
    and l: "length tcps = length (nt_bindAddrs t)" "length udps = length (nt_bindAddrs t)"
    using bindLoop_spec [OF b] by auto
  have t1: "nt_tcpListeners t1 = tcps" "nt_udpConns t1 = udps" "nt_listening t1 = []" "nt_bindAddrs t1 = nt_bindAddrs t" "\<not> nt_shutdown t1"
    using assms(2) bound_fields [OF f] by (simp_all add: idleTransport_def)
  have "nt_bindPort t1 \<noteq> 0" using f l(1) assms(2) by (cases tcps) (auto simp: bound_def idleTransport_def)
  moreover have "map (\<lambda>i. (tcps ! i, udps ! i)) [0..<length (nt_bindAddrs t)] = zip tcps udps"
    using l by (intro nth_equalityI) simp_all
  moreover have "gains s s' (set tcps \<union> set udps)" "\<forall>c \<in> set tcps \<union> set udps. sk_Port c = nt_bindPort t1"
    using f by (simp_all add: bound_def)
  ultimately show ?thesis using l t1 by (simp add: t' started_def sockets_def)
qed

lemma Start_Err:
  assumes "Start OS t s = (r, t', s')" and "r \<noteq> Ok ()" and "idleTransport t"
  shows "nt_shutdown t' \<and> idleTransport t' \<and> nt_bindAddrs t' = nt_bindAddrs t \<and> (\<forall>p. r \<noteq> Panic p)
    \<and> (\<exists>leaked. gains s s' leaked \<and> (\<forall>c \<in> leaked. unbuffered c))"
proof -
  obtain t1 s1 where b: "bindLoop OS (nt_bindAddrs t) (t\<lparr>nt_shutdown := False\<rparr>) s = (r, t1, s1)"
    and t': "(t', s') = transportShutdown OS t1 s1"
    using assms(1,2) by (auto simp: Start_def split: prod.splits outcome.splits)
  obtain tcps udps leaked where f: "bound (t\<lparr>nt_shutdown := False\<rparr>) s t1 s1 tcps udps leaked" and r: "\<forall>p. r \<noteq> Panic p"
    using bindLoop_spec [OF b] by auto
  have t1: "nt_tcpListeners t1 = tcps" "nt_udpConns t1 = udps" "nt_bindAddrs t1 = nt_bindAddrs t" "\<not> nt_shutdown t1"
    using assms(3) bound_fields [OF f] by (simp_all add: idleTransport_def)
  have "opened s' = opened s1 - set tcps - set udps"
    using t' t1 by (simp add: transportShutdown_def transportHasShutdown_def closeAll_releases)
  moreover have g: "gains s s1 (set tcps \<union> set udps \<union> leaked)" "leaked \<inter> (set tcps \<union> set udps) = {}" "\<forall>c \<in> leaked. unbuffered c"
    using f by (simp_all add: bound_def)
  ultimately have "gains s s' leaked" by blast
  then show ?thesis using g(3) r t' t1 assms(3) by (auto simp: transportShutdown_def transportHasShutdown_def idleTransport_def)
qed

lemma transportShutdown_releases:
  assumes "transportShutdown OS t s = (t', s')" and "\<not> nt_shutdown t"
  shows "opened s' = opened s - sockets t" and "sockets t' = {}" and "nt_shutdown t'"
  using assms by (auto simp: transportShutdown_def transportHasShutdown_def closeAll_releases sockets_def)

lemma Start_Shutdown:
  assumes "Start OS t s = (Ok (), t1, s1)" and "transportShutdown OS t1 s1 = (t2, s2)" and "idleTransport t"
  shows "opened s2 = opened s"
  using Start_Ok [OF assms(1,3)] transportShutdown_releases(1) [OF assms(2)] by (auto simp: started_def)

end

text \<open>Shutting down twice is shutting down once.\<close>

lemma transportShutdown_idem:
  "transportShutdown OS t s = (t', s') \<Longrightarrow> transportShutdown OS t' s' = (t', s')"
  by (auto simp: transportShutdown_def transportHasShutdown_def split: if_splits)

lemma getFirstConn_down: "transportShutdown OS t s = (t', s') \<Longrightarrow> nt_shutdown t \<longrightarrow> nt_udpConns t = [] \<Longrightarrow> \<exists>e. getFirstConn t' = Err e"
  by (auto simp: transportShutdown_def transportHasShutdown_def getFirstConn_def split: if_splits)

section \<open>Loops of the transport\<close>

text \<open>The buffer gets the largest size of the form \<open>2\<^sup>k\<close>, up to two megabytes, the system accepts.\<close>

definition largest :: "(int \<Rightarrow> error option) \<Rightarrow> nat \<Rightarrow> nat \<Rightarrow> bool" where
  "largest attempt k j \<longleftrightarrow> j \<le> k \<and> attempt (2 ^ j) = None \<and> (\<forall>i. j < i \<and> i \<le> k \<longrightarrow> attempt (2 ^ i) \<noteq> None)"

lemma largest_Suc:
  "largest attempt (Suc k) j \<longleftrightarrow> (if attempt (2 ^ Suc k) = None then j = Suc k else largest attempt k j)"
  unfolding largest_def by (metis le_Suc_eq le_eq_less_or_eq less_Suc_eq_le not_less order_refl)

lemma setBufLoop_Ok: "setBufLoop attempt (2 ^ k) err = Ok n \<longleftrightarrow> (\<exists>j. largest attempt k j \<and> n = 2 ^ j)"
proof (induction k arbitrary: err)
  case 0
  have "setBufLoop attempt 0 e = Err e" for e by (subst setBufLoop.simps) simp
  then show ?case by (subst setBufLoop.simps) (auto simp: largest_def split: option.splits)
next
  case (Suc k)
  have "setBufLoop attempt (2 ^ Suc k) err = (case attempt (2 ^ Suc k) of None \<Rightarrow> Ok (2 ^ Suc k) | Some e \<Rightarrow> setBufLoop attempt (2 ^ k) e)"
    by (subst setBufLoop.simps) (simp split: option.split)
  then show ?case using Suc.IH by (cases "attempt (2 ^ Suc k)") (auto simp: largest_Suc simp del: power_Suc)
qed

text \<open>The delay before the next attempt to accept doubles from 5 milliseconds to one second.\<close>

lemma tcpListen_backoff:
  "tcpListen 0 (replicate k (Err e, False) @ es) =
     concat (map (\<lambda>i. [Log, Sleep (min (baseDelay * 2 ^ i) maxDelay)]) [0..<k])
     @ tcpListen (if k = 0 then 0 else min (baseDelay * 2 ^ (k - 1)) maxDelay) es"
proof (induction k arbitrary: es)
  case (Suc k)
  have "tcpListen 0 (replicate (Suc k) (Err e, False) @ es) = tcpListen 0 (replicate k (Err e, False) @ (Err e, False) # es)"
    by (simp add: replicate_app_Cons_same)
  also have "\<dots> = concat (map (\<lambda>i. [Log, Sleep (min (baseDelay * 2 ^ i) maxDelay)]) [0..<Suc k])
     @ tcpListen (min (baseDelay * 2 ^ k) maxDelay) es"
    unfolding Suc.IH by (cases k) (auto simp: baseDelay_def maxDelay_def Second_def Millisecond_def Let_def min_def)
  finally show ?case by simp
qed simp

lemma tcpListen_exits: "tcpListen d (es @ (Err e, True) # es') = tcpListen d es @ (if \<exists>r \<in> set es. snd r \<and> (\<nexists>c. fst r = Ok c) then [] else [Exit])"
  by (induction d es rule: tcpListen.induct) (auto simp: Let_def)

text \<open>The packets handed on are the datagrams read, in order, without the empty ones.\<close>

lemma udpListen_delivers:
  "[p. Deliver p \<leftarrow> udpListen (map (\<lambda>(b, addr, ts). (Ok (b, addr), ts, sd, cl)) rs)]
   = map (\<lambda>(b, addr, ts). \<lparr>pk_Buf = take udpPacketBufSize b, pk_From = addr, pk_Timestamp = ts\<rparr>) (filter (\<lambda>(b, _). b \<noteq> []) rs)"
  by (induction rs) (auto simp: Let_def udpPacketBufSize_def split: prod.splits)

section \<open>Attempts to bind a free port\<close>

context kernel_laws
begin

text \<open>Up to ten attempts leave the sockets of the transport open, or none, apart from sockets whose buffer
  could not be set.\<close>

lemma zeroLoop_spec:
  assumes "zeroLoop OS n t s = (r, s')" and "idleTransport t"
  shows "\<exists>leaked. (\<forall>c \<in> leaked. unbuffered c) \<and>
    (case r of
       Ok t' \<Rightarrow> started (nt_bindAddrs t) t' \<and> gains s s' (sockets t' \<union> leaked)
     | Err e \<Rightarrow> gains s s' leaked
     | Panic p \<Rightarrow> False)"
  using assms
proof (induction n arbitrary: t s)
  case 0
  then show ?case by (intro exI [of _ "{}"]) auto
next
  case (Suc n)
  obtain r1 t1 s1 where st: "Start OS t s = (r1, t1, s1)" by (cases "Start OS t s")
  show ?case
  proof (cases "r1 = Ok ()")
    case True
    then have "r = Ok t1" "s' = s1" using Suc.prems(1) st by auto
    with Start_Ok [OF st [unfolded True] Suc.prems(2)] show ?thesis by (intro exI [of _ "{}"]) simp
  next
    case False
    note e = Start_Err [OF st False Suc.prems(2)]
    have "zeroLoop OS n t1 s1 = (r, s')" using Suc.prems(1) st False e by (cases r1) auto
    moreover have "idleTransport t1" and ad: "nt_bindAddrs t1 = nt_bindAddrs t" using e by simp_all
    ultimately obtain leaked where l: "\<forall>c \<in> leaked. unbuffered c"
      "case r of Ok t' \<Rightarrow> started (nt_bindAddrs t) t' \<and> gains s1 s' (sockets t' \<union> leaked)
       | Err e \<Rightarrow> gains s1 s' leaked | Panic p \<Rightarrow> False"
      using Suc.IH [of t1 s1, unfolded ad] by blast
    obtain leaked1 where l1: "gains s s1 leaked1" "\<forall>c \<in> leaked1. unbuffered c" using e by blast
    have trans: "gains s1 s' (N \<union> leaked) \<Longrightarrow> gains s s' (N \<union> (leaked \<union> leaked1))" for N using l1(1) by blast
    show ?thesis using l l1(2) trans trans [of "{}"] by (intro exI [of _ "leaked \<union> leaked1"]) (auto split: outcome.splits)
  qed
qed

end

text \<open>The port of the first attempt stays: when the listener of an address was given a port on which
  packets cannot be received, the next attempts ask for the same port.\<close>

lemma Start_keeps_port:
  assumes "nt_bindAddrs t = [addr]" and "nt_bindPort t = 0" and "sk_Port lsn \<noteq> 0"
    and "os_listen OS TCP (case ParseIP addr of None \<Rightarrow> [] | Some ip \<Rightarrow> ip) 0 s = (Ok lsn, s1)"
    and "os_listen OS UDP (case ParseIP addr of None \<Rightarrow> [] | Some ip \<Rightarrow> ip) (sk_Port lsn) s1 = (Err e, s2)"
  shows "\<exists>t' s'. Start OS t s = (Err (ErrNet ''failed to start UDP listener''), t', s') \<and> nt_bindPort t' = sk_Port lsn"
  using assms by (simp add: Start_def Let_def transportShutdown_def transportHasShutdown_def)

section \<open>A concrete operating system\<close>

text \<open>Its state is the list of open sockets.\<close>

definition ref_listen :: "proto \<Rightarrow> IP \<Rightarrow> int \<Rightarrow> sock list \<Rightarrow> sock outcome \<times> sock list" where
  "ref_listen p ip port s =
     (if \<exists>c \<in> set s. sk_proto c = p \<and> sk_Port c = port \<and> port \<noteq> 0 then (Err (ErrNet ''address already in use''), s)
      else if port < 0 \<or> 65535 < port then (Err (ErrNet ''invalid port''), s)
      else let i = Suc (sum_list (map sk_id s));
               c = \<lparr>sk_proto = p, sk_id = i, sk_IP = (if length ip = 4 then ip else if length ip = 16 then ip else replicate 16 0),
                    sk_Port = (if port = 0 then 49151 + int i else port)\<rparr>
           in (Ok c, c # s))"

definition ref_os :: "sock list os" where
  "ref_os = \<lparr>os_listen = ref_listen, os_setReadBuffer = (\<lambda>c n. if n \<le> 212992 then None else Some (ErrNet ''no buffer space'')),
     os_close = (\<lambda>c s. filter (\<lambda>d. d \<noteq> c) s)\<rparr>"

lemma ref_os_simps [simp]:
  "os_listen ref_os = ref_listen" "os_close ref_os c s = filter (\<lambda>d. d \<noteq> c) s"
  by (simp_all add: ref_os_def)

lemma ref_listen_Ok:
  assumes "ref_listen p ip port s = (Ok c, s')"
  shows "s' = c # s" "c \<notin> set s" "sk_Port c \<noteq> 0" "port \<noteq> 0 \<longrightarrow> sk_Port c = port"
    "length ip = 4 \<or> length ip = 16 \<Longrightarrow> sk_IP c = ip"
proof -
  have id: "sk_id c = Suc (sum_list (map sk_id s))" using assms by (auto simp: ref_listen_def Let_def split: if_splits)
  have "sk_id d \<le> sum_list (map sk_id s)" if "d \<in> set s" for d using that by (intro member_le_sum_list) auto
  with id show "c \<notin> set s" by fastforce
qed (use assms in \<open>auto simp: ref_listen_def Let_def split: if_splits\<close>)

interpretation rk: kernel_laws ref_os set
proof
  fix p ip port s c s'
  assume "os_listen ref_os p ip port s = (Ok c, s')"
  then have l: "ref_listen p ip port s = (Ok c, s')" by simp
  show "c \<notin> set s \<and> set s' = insert c (set s)" "sk_Port c \<noteq> 0 \<and> (port \<noteq> 0 \<longrightarrow> sk_Port c = port)"
    using ref_listen_Ok [OF l] by simp_all
  show "length (sk_IP c) \<in> {4, 16} \<and> To16 (sk_IP c) = To16 ip" if "length ip = 4 \<or> length ip = 16" using ref_listen_Ok(5) [OF l that] that by auto
next
  show "os_listen ref_os p ip port s = (r, s') \<Longrightarrow> \<forall>c. r \<noteq> Ok c \<Longrightarrow> set s' = set s" for p ip port s r s'
    by (auto simp: ref_listen_def Let_def split: if_splits)
qed auto

end
