(* ===== verification/Members.thy ===== *)
theory Members
  imports Delivery Transport
begin

text \<open>
  The public functions of \<^verbatim>\<open>src/memberlist.go\<close>: the builder and what \<open>Build\<close> starts, \<open>Join\<close>, \<open>Leave\<close>,
  \<open>UpdateTags\<close>, \<open>Shutdown\<close> and the accessors, with \<open>finalizeAdvertiseAddr\<close> of
  \<^verbatim>\<open>src/net_transport.go\<close> and \<open>UniqueID\<close> of \<^verbatim>\<open>src/util.go\<close>.

  The transport of a node stands beside its membership state. What is read from outside while a node
  starts (\<open>boot_io\<close>) or joins (\<open>join_io\<close>) is an argument: the generated identifier, the answers of the
  address package, the clock, random draws, and the connections that dialling gives. A call that
  waits for its broadcast takes whether the notification came before the timeout.
\<close>

section \<open>Accessors\<close>

definition TagMaxSize :: nat where "TagMaxSize = 512"

definition hasShutdown :: "'h Memberlist \<Rightarrow> bool" where
  "hasShutdown m = m_shutdown m"

text \<open>\<open>copyBytes\<close> makes a copy and returns its argument. The accessors return clones of the entries.\<close>

definition copyBytes :: "bytes \<Rightarrow> bytes" where
  "copyBytes s = s"

definition Node_Clone :: "Node \<Rightarrow> Node" where
  "Node_Clone n = \<lparr>n_ID = n_ID n, n_IP = copyBytes (n_IP n), n_Port = n_Port n, n_Tags = copyBytes (n_Tags n)\<rparr>"

definition Clone :: "nodeState \<Rightarrow> nodeState" where
  "Clone n = \<lparr>ns_Node = Node_Clone (ns_Node n), ns_Lives = ns_Lives n, ns_State = ns_State n, ns_StateChange = ns_StateChange n\<rparr>"

lemma Clone_id [simp]: "Clone n = n"
  by (simp add: Clone_def Node_Clone_def copyBytes_def)

definition NumActive :: "'h Memberlist \<Rightarrow> int" where
  "NumActive m = int (length (filter (\<lambda>p. \<not> DeadOrLeft (m_store m p)) (m_nodes m)))"

definition ActiveNodes :: "'h Memberlist \<Rightarrow> nodeState list" where
  "ActiveNodes m = map (\<lambda>p. Clone (m_store m p)) (filter (\<lambda>p. \<not> DeadOrLeft (m_store m p)) (m_nodes m))"

definition AllMembers :: "'h Memberlist \<Rightarrow> nodeState list" where
  "AllMembers m = map (\<lambda>p. Clone (m_store m p)) (m_nodes m)"

definition GetNodeState :: "'h Memberlist \<Rightarrow> string \<Rightarrow> nodeState option" where
  "GetNodeState m i = (case m_nodeMap m i of None \<Rightarrow> None | Some p \<Rightarrow> Some (Clone (m_store m p)))"

definition LocalNodeState :: "'h Memberlist \<Rightarrow> nodeState option" where
  "LocalNodeState m = GetNodeState m (ID m)"

definition Health :: "'h Memberlist \<Rightarrow> int" where
  "Health m = GetHealth (m_awr m)"

definition GossipInterval :: "'h Memberlist \<Rightarrow> duration" where
  "GossipInterval m = c_GossipInterval (m_config m)"

definition hasActivePeers :: "'h Memberlist \<Rightarrow> bool" where
  "hasActivePeers m = list_ex (\<lambda>p. \<not> DeadOrLeft (m_store m p) \<and> n_ID (ns_Node (m_store m p)) \<noteq> ID m) (m_nodes m)"

section \<open>Starting\<close>

definition UniqueID :: "string \<Rightarrow> string" where
  "UniqueID uuid = filter (\<lambda>c. c \<noteq> CHR ''-'') uuid"

record boot_io =
  bo_uuid :: string
  bo_privateIP :: "string outcome"
  bo_isPublic :: "string \<Rightarrow> bool outcome"   \<comment> \<open>\<open>sockaddr.NewIPAddr\<close> and \<open>IfByRFC("6890")\<close>\<close>
  bo_now :: time
  bo_rnd :: u32

text \<open>An error of \<open>GetFirstAddr\<close> is dropped.\<close>

definition finalizeAdvertiseAddr :: "boot_io \<Rightarrow> NetTransport \<Rightarrow> 'h Memberlist \<Rightarrow> unit outcome \<times> 'h Memberlist" where
  "finalizeAdvertiseAddr io t m =
     (let c = m_config m in
      if c_AdvertiseAddr c \<noteq> [] then
        (case ParseIP (c_AdvertiseAddr c) of
           None \<Rightarrow> (Err ErrAdvertiseAddr, m)
         | Some ip \<Rightarrow>
             (let ip' = (case To4 ip of None \<Rightarrow> ip | Some ip4 \<Rightarrow> ip4)
              in (Ok (), m\<lparr>m_config := c\<lparr>c_AdvertiseAddr := IP_String ip', c_AdvertisePort := c_AdvertisePort c\<rparr>\<rparr>)))
      else
        (case GetFirstAddr (bo_privateIP io) t of
           Ok (ip, port) \<Rightarrow> (Ok (), m\<lparr>m_config := c\<lparr>c_AdvertiseAddr := IP_String ip, c_AdvertisePort := port\<rparr>\<rparr>)
         | Err e \<Rightarrow> (Ok (), m)
         | Panic p \<Rightarrow> (Panic p, m)))"

definition hasPublicIface :: "boot_io \<Rightarrow> 'h Memberlist \<Rightarrow> bool outcome" where
  "hasPublicIface io m = bind_outcome (GetAdvertiseAddr m) (\<lambda>(addr, _). bo_isPublic io (IP_String addr))"

definition setAlive :: "'h env \<Rightarrow> boot_io \<Rightarrow> 'h Memberlist \<Rightarrow> unit outcome \<times> 'h Memberlist" where
  "setAlive E io m =
     (if length (c_Tags (m_config m)) > TagMaxSize then (Err ErrMaxTagSizeExceed, m)
      else case GetAdvertiseAddr m of
        Err e \<Rightarrow> (Err e, m)
      | Panic p \<Rightarrow> (Panic p, m)
      | Ok (addr, port) \<Rightarrow>
          (let (l, m1) = nextLiveNo m;
               a = \<lparr>a_Lives = l, a_ID = ID m, a_IP = addr, a_Port = port, a_Tags = c_Tags (m_config m)\<rparr>
           in (Ok (), aliveNode E (bo_now io) (bo_rnd io) a None m1)))"

text \<open>\<open>start\<close> returns the tickers it started.\<close>

definition start :: "'h env \<Rightarrow> boot_io \<Rightarrow> NetTransport \<Rightarrow> 'h Memberlist \<Rightarrow> (task \<times> duration) list outcome \<times> 'h Memberlist" where
  "start E io t m =
     (case finalizeAdvertiseAddr io t m of
        (Err e, m1) \<Rightarrow> (Err e, m1)
      | (Panic p, m1) \<Rightarrow> (Panic p, m1)
      | (Ok _, m1) \<Rightarrow>
          (case hasPublicIface io m1 of
             Err e \<Rightarrow> (Err e, m1)
           | Panic p \<Rightarrow> (Panic p, m1)
           | Ok hasPublic \<Rightarrow>
               if hasPublic \<and> \<not> EncryptionEnabled (m_keyring m1) then (Err ErrPublicAddr, m1)
               else case setAlive E io m1 of
                 (Err e, m2) \<Rightarrow> (Err e, m2)
               | (Panic p, m2) \<Rightarrow> (Panic p, m2)
               | (Ok _, m2) \<Rightarrow> (Ok (schedule (m_config m2)), m2)))"

definition Shutdown :: "'s os \<Rightarrow> 'h Memberlist \<Rightarrow> NetTransport \<Rightarrow> 's \<Rightarrow> 'h Memberlist \<times> NetTransport \<times> 's" where
  "Shutdown OS m t s =
     (if hasShutdown m then (m, t, s)
      else let (t', s') = transportShutdown OS t s in (m\<lparr>m_shutdown := True\<rparr>, t', s'))"

section \<open>The builder\<close>

record MemberlistBuilder =
  b_config :: "Config option"
  b_keyring :: "Keyring option"
  b_secretKey :: "bytes option"
  b_logger :: bool
  b_eventCh :: bool
  b_pingDelegate :: bool
  b_userState :: bool
  b_ubroadcasts :: "(int \<Rightarrow> int \<Rightarrow> bytes list) option"
  b_usrMsgCh :: "bytes list option"

definition WithConfig :: "Config \<Rightarrow> MemberlistBuilder \<Rightarrow> MemberlistBuilder" where
  "WithConfig c b = b\<lparr>b_config := Some c\<rparr>"

definition WithKeyRing :: "Keyring \<Rightarrow> MemberlistBuilder \<Rightarrow> MemberlistBuilder" where
  "WithKeyRing r b = b\<lparr>b_keyring := Some r\<rparr>"

definition WithSecretKey :: "bytes \<Rightarrow> MemberlistBuilder \<Rightarrow> MemberlistBuilder" where
  "WithSecretKey k b = b\<lparr>b_secretKey := Some k\<rparr>"

definition WithLogger :: "bool \<Rightarrow> MemberlistBuilder \<Rightarrow> MemberlistBuilder" where
  "WithLogger l b = b\<lparr>b_logger := l\<rparr>"

definition WithEventCh :: "bool \<Rightarrow> MemberlistBuilder \<Rightarrow> MemberlistBuilder" where
  "WithEventCh ch b = b\<lparr>b_eventCh := ch\<rparr>"

definition WithUserMessageCh :: "bytes list \<Rightarrow> MemberlistBuilder \<Rightarrow> MemberlistBuilder" where
  "WithUserMessageCh ch b = b\<lparr>b_usrMsgCh := Some ch\<rparr>"

definition WithUserBroadcasts :: "(int \<Rightarrow> int \<Rightarrow> bytes list) \<Rightarrow> MemberlistBuilder \<Rightarrow> MemberlistBuilder" where
  "WithUserBroadcasts u b = b\<lparr>b_ubroadcasts := Some u\<rparr>"

definition WithPingDelegate :: "bool \<Rightarrow> MemberlistBuilder \<Rightarrow> MemberlistBuilder" where
  "WithPingDelegate p b = b\<lparr>b_pingDelegate := p\<rparr>"

definition WithUserStateDelegate :: "bool \<Rightarrow> MemberlistBuilder \<Rightarrow> MemberlistBuilder" where
  "WithUserStateDelegate u b = b\<lparr>b_userState := u\<rparr>"

text \<open>The keyring \<open>Build\<close> uses: the secret key becomes the primary key of the given ring or of a new one.\<close>

definition buildKeyring :: "MemberlistBuilder \<Rightarrow> Keyring option outcome" where
  "buildKeyring b =
     (case b_secretKey b of
        None \<Rightarrow> Ok (b_keyring b)
      | Some k \<Rightarrow>
          (case b_keyring b of
             Some r \<Rightarrow> bind_outcome (AddKey k r) (\<lambda>r1. bind_outcome (UseKey k r1) (\<lambda>r2. Ok (Some r2)))
           | None \<Rightarrow> bind_outcome (NewKeyring [] (Some k)) (\<lambda>r. Ok (Some r))))"

text \<open>The transport and the bind port of the configuration. A default logger is always set.\<close>

definition buildTransport :: "'s os \<Rightarrow> Config \<Rightarrow> 's \<Rightarrow> (NetTransport \<times> int) outcome \<times> 's" where
  "buildTransport OS c s =
     (if c_BindPort c = 0 then
        (case ZeroBindPortTransport OS [c_BindAddr c] True s of
           (Ok t, s1) \<Rightarrow> (Ok (t, BindPort t), s1)
         | (Err e, s1) \<Rightarrow> (Err e, s1)
         | (Panic p, s1) \<Rightarrow> (Panic p, s1))
      else
        (case NewNetTransport [c_BindAddr c] (c_BindPort c) True of
           Err e \<Rightarrow> (Err e, s)
         | Panic p \<Rightarrow> (Panic p, s)
         | Ok t \<Rightarrow>
             (case Start OS t s of
                (Ok _, t1, s1) \<Rightarrow> (Ok (t1, c_BindPort c), s1)
              | (Err e, t1, s1) \<Rightarrow> (Err e, s1)
              | (Panic p, t1, s1) \<Rightarrow> (Panic p, s1))))"

definition newMemberlist :: "'h env \<Rightarrow> Config \<Rightarrow> Keyring option \<Rightarrow> MemberlistBuilder \<Rightarrow> 'h Memberlist" where
  "newMemberlist E c kr b = \<lparr>
     m_lives = 0,
     m_awr = newAwareness (c_MaxAwarenessHealth c),
     m_config = c,
     m_keyring = kr,
     m_shutdown = False,
     m_left = False,
     m_mbroadcasts = NewBroadcastQueue (e_heap E) (c_RetransmitMult c),
     m_ubroadcasts = b_ubroadcasts b,
     m_longRunMng = newLongRunMsgManager (c_MaxLongRunQueueDepth c),
     m_pingMng = newPingManager,
     m_eventMng = \<lparr>em_ch = b_eventCh b, em_timeout = c_EventTimeout c\<rparr>,
     m_events = [],
     m_numPushPull = 0,
     m_store = (\<lambda>_. \<lparr>ns_Node = \<lparr>n_ID = [], n_IP = [], n_Port = 0, n_Tags = []\<rparr>, ns_Lives = 0, ns_State = StateAlive, ns_StateChange = 0\<rparr>),
     m_next = 0,
     m_nodes = [],
     m_nodeMap = Map.empty,
     m_numNodes = 0,
     m_suspicions = Map.empty,
     m_started = [],
     m_probeIdx = - 1,
     m_sent = [],
     m_usrMsgCh = b_usrMsgCh b\<rparr>"

definition Build :: "'h env \<Rightarrow> 's os \<Rightarrow> boot_io \<Rightarrow> MemberlistBuilder \<Rightarrow> 's
    \<Rightarrow> ('h Memberlist \<times> NetTransport \<times> (task \<times> duration) list) outcome \<times> 's" where
  "Build E OS io b s =
     (case buildKeyring b of
        Err e \<Rightarrow> (Err e, s)
      | Panic p \<Rightarrow> (Panic p, s)
      | Ok kr \<Rightarrow>
          (case b_config b of
             None \<Rightarrow> (Panic NilDereference, s)
           | Some c \<Rightarrow>
               (case buildTransport OS c s of
                  (Err e, s1) \<Rightarrow> (Err e, s1)
                | (Panic p, s1) \<Rightarrow> (Panic p, s1)
                | (Ok (t, port), s1) \<Rightarrow>
                    (let m = newMemberlist E (c\<lparr>c_BindPort := port, c_ID := UniqueID (bo_uuid io)\<rparr>) kr b
                     in case start E io t m of
                          (Ok tasks, m1) \<Rightarrow> (Ok (m1, t, tasks), s1)
                        | (Panic p, m1) \<Rightarrow> (Panic p, s1)
                        | (Err e, m1) \<Rightarrow> (Err e, snd (snd (Shutdown OS m1 t s1)))))))"

section \<open>Joining, leaving and updating\<close>

record join_io =
  jo_resolver :: resolver
  jo_dial :: "nat \<Rightarrow> string \<Rightarrow> tcp_conn outcome"
  jo_clock :: "nat \<Rightarrow> nat \<Rightarrow> time"
  jo_rnd :: "nat \<Rightarrow> nat \<Rightarrow> u32"
  jo_nonce :: "nat \<Rightarrow> bytes outcome"
  jo_usr :: "nat \<Rightarrow> bytes option"
  jo_errText :: "error \<Rightarrow> string"

text \<open>What \<open>Join\<close> accumulates: the number of successes, the errors, and the number of connections tried.\<close>

record joined =
  jd_num :: int
  jd_errs :: "error list"
  jd_tried :: nat

definition joinFailed :: "error \<Rightarrow> joined \<Rightarrow> joined" where
  "joinFailed e j = j\<lparr>jd_errs := jd_errs j @ [e]\<rparr>"

fun joinAddrs :: "'h env \<Rightarrow> join_io \<Rightarrow> u16 \<Rightarrow> IP list \<Rightarrow> joined \<Rightarrow> 'h Memberlist \<Rightarrow> (joined outcome \<times> 'h Memberlist) option" where
  "joinAddrs E io port [] j m = Some (Ok j, m)"
| "joinAddrs E io port (addr # addrs) j m =
     (let nodeAddr = joinHostPort (IP_String addr) port;
          k = jd_tried j;
          j1 = j\<lparr>jd_tried := k + 1\<rparr>
      in case pushPullWithNode E (jo_clock io k) (jo_rnd io k) (jo_nonce io k) (jo_usr io k) (jo_dial io k nodeAddr) m of
           None \<Rightarrow> None
         | Some (Panic p, m1) \<Rightarrow> Some (Panic p, m1)
         | Some (Err e, m1) \<Rightarrow>
             joinAddrs E io port addrs
               (joinFailed (ErrText (''failed to join '' @ IP_String addr @ '': '' @ jo_errText io e)) j1) m1
         | Some (Ok _, m1) \<Rightarrow> joinAddrs E io port addrs (j1\<lparr>jd_num := jd_num j1 + 1\<rparr>) m1)"

fun joinLoop :: "'h env \<Rightarrow> join_io \<Rightarrow> string list \<Rightarrow> joined \<Rightarrow> 'h Memberlist \<Rightarrow> (joined outcome \<times> 'h Memberlist) option" where
  "joinLoop E io [] j m = Some (Ok j, m)"
| "joinLoop E io (exist # existing) j m =
     (case ResolveAddr (jo_resolver io) exist (c_DNSConfigPath (m_config m)) of
        Panic p \<Rightarrow> Some (Panic p, m)
      | Err e \<Rightarrow>
          joinLoop E io existing
            (joinFailed (ErrText (''failed to resolve '' @ exist @ '': '' @ jo_errText io e)) j) m
      | Ok (addrs, port0) \<Rightarrow>
          (let port = (if port0 = 0 then of_int (c_BindPort (m_config m)) else port0)
           in case joinAddrs E io port addrs j m of
                None \<Rightarrow> None
              | Some (Ok j1, m1) \<Rightarrow> joinLoop E io existing j1 m1
              | Some (r, m1) \<Rightarrow> Some (r, m1)))"

definition Join :: "'h env \<Rightarrow> join_io \<Rightarrow> string list \<Rightarrow> 'h Memberlist \<Rightarrow> ((int \<times> error option) outcome \<times> 'h Memberlist) option" where
  "Join E io existing m =
     (case joinLoop E io existing \<lparr>jd_num = 0, jd_errs = [], jd_tried = 0\<rparr> m of
        None \<Rightarrow> None
      | Some (Err e, m1) \<Rightarrow> Some (Err e, m1)
      | Some (Panic p, m1) \<Rightarrow> Some (Panic p, m1)
      | Some (Ok j, m1) \<Rightarrow>
          (let errs = (if jd_num j > 0 then [] else jd_errs j)
           in Some (Ok (jd_num j, combineErrors (jo_errText io) errs), m1)))"

text \<open>The end of \<open>Leave\<close> and \<open>UpdateTags\<close>: waiting for the broadcast.\<close>

definition waitBroadcast :: "bool \<Rightarrow> 'h Memberlist \<Rightarrow> unit outcome" where
  "waitBroadcast notified m =
     (if \<not> hasActivePeers m \<or> c_BroadcastWaitTimeout (m_config m) = 0 then Ok ()
      else if notified then Ok () else Err ErrTimeout)"

definition Leave :: "'h env \<Rightarrow> time \<Rightarrow> chan \<Rightarrow> bool \<Rightarrow> 'h Memberlist \<Rightarrow> (unit outcome \<times> 'h Memberlist) option" where
  "Leave E now notifyCh notified m =
     (if hasShutdown m then Some (Panic LeaveAfterShutdown, m)
      else if hasLeft m then Some (Ok (), m)
      else
        let m1 = m\<lparr>m_left := True\<rparr>
        in case m_nodeMap m1 (ID m1) of
             None \<Rightarrow> Some (Ok (), m1)
           | Some p \<Rightarrow>
               (let node = m_store m1 p;
                    d = \<lparr>d_Lives = ns_Lives node, d_ID = n_ID (ns_Node node), d_Left = True\<rparr>
                in case deadNode E now d (Some notifyCh) m1 of
                     None \<Rightarrow> None
                   | Some m2 \<Rightarrow> Some (waitBroadcast notified m2, m2)))"

definition UpdateTags :: "'h env \<Rightarrow> time \<Rightarrow> u32 \<Rightarrow> chan \<Rightarrow> bool \<Rightarrow> bytes \<Rightarrow> 'h Memberlist \<Rightarrow> unit outcome \<times> 'h Memberlist" where
  "UpdateTags E now rnd notifyCh notified tags m =
     (if length tags > TagMaxSize then (Err ErrMaxTagSizeExceed, m)
      else case m_nodeMap m (ID m) of
        None \<Rightarrow> (Panic NilDereference, snd (nextLiveNo m))
      | Some p \<Rightarrow>
          (let node = m_store m p;
               (l, m1) = nextLiveNo m;
               a = \<lparr>a_Lives = l, a_ID = ID m, a_IP = n_IP (ns_Node node), a_Port = n_Port (ns_Node node), a_Tags = tags\<rparr>;
               m2 = aliveNode E now rnd a (Some notifyCh) m1
           in (waitBroadcast notified m2, m2)))"


section \<open>The accessors show the view\<close>

lemma GetNodeState_lookup: "GetNodeState m = lookup m"
  by (auto simp: GetNodeState_def lookup_def split: option.splits)

lemma nodes_lookup:
  assumes "member_wf m"
  shows "p \<in> set (m_nodes m) \<longleftrightarrow> m_nodeMap m (nid m p) = Some p"
  using assms by (auto simp: member_wf_def table_wf_def)

lemma ActiveNodes_view:
  assumes "member_wf m"
  shows "set (ActiveNodes m) = {n. \<exists>i. lookup m i = Some n \<and> \<not> DeadOrLeft n}"
    and "distinct (map (\<lambda>n. n_ID (ns_Node n)) (ActiveNodes m))"
    and "NumActive m = int (length (ActiveNodes m))"
proof -
  have n: "lookup m (nid m p) = Some (m_store m p)" if "p \<in> set (m_nodes m)" for p
    using nodes_lookup [OF assms, of p] that by (simp add: lookup_def)
  show "set (ActiveNodes m) = {n. \<exists>i. lookup m i = Some n \<and> \<not> DeadOrLeft n}"
    using n member_wf_ptr [OF assms] by (fastforce simp: ActiveNodes_def lookup_Some)
  have "inj_on (nid m) (set (m_nodes m))" using nodes_lookup [OF assms] by (metis inj_onI option.inject)
  then have "inj_on (nid m) {p \<in> set (m_nodes m). \<not> DeadOrLeft (m_store m p)}" by (rule inj_on_subset) auto
  moreover have "distinct (m_nodes m)" using assms by (simp add: member_wf_def table_wf_def)
  ultimately show "distinct (map (\<lambda>n. n_ID (ns_Node n)) (ActiveNodes m))"
    by (auto simp: ActiveNodes_def comp_def distinct_map nid_def [symmetric, abs_def])
  show "NumActive m = int (length (ActiveNodes m))" by (simp add: NumActive_def ActiveNodes_def)
qed

lemma hasActivePeers_view:
  assumes "member_wf m"
  shows "hasActivePeers m \<longleftrightarrow> (\<exists>i n. lookup m i = Some n \<and> \<not> DeadOrLeft n \<and> i \<noteq> ID m)"
proof -
  have "hasActivePeers m \<longleftrightarrow> (\<exists>p \<in> set (m_nodes m). \<not> DeadOrLeft (m_store m p) \<and> nid m p \<noteq> ID m)"
    by (simp add: hasActivePeers_def list_ex_iff nid_def)
  then show ?thesis using assms by (auto simp: lookup_Some member_wf_def table_wf_def)
qed

section \<open>A node that left stays left\<close>

lemma left_stays:
  assumes wf: "member_wf m" and left: "m_left m" and n: "lookup m (ID m) = Some n" "DeadOrLeft n"
    and h: "handle E x m = Some m'"
  shows "lookup m' (ID m) = Some n \<and> m_left m' \<and> ID m' = ID m"
proof -
  have id: "m_config m' = m_config m" using hi.keeps_config [OF h] .
  have na: "ns_State n \<noteq> StateAlive" using n(2) by auto
  have dead: "lookup m2 (ID m) = Some n" if "deadNode E now d notify m = Some m2" for now d notify m2
    using deadNode_view_wf [OF wf, of E now d notify] that left n na by (auto simp: accused_def dead_spec_def split: option.splits if_splits)
  have "lookup m' (ID m) = Some n"
  proof (cases x)
    case (InAlive now rnd a notify)
    then have "lookup m' = (if admits m a then alive_spec now a (lookup m) else lookup m)"
      using h aliveNode_view_wf(1) [OF wf] by auto
    then show ?thesis using left n by (auto simp: admits_def alive_spec_def split: option.splits)
  next
    case (InSuspect now s)
    with h suspectNode_view_wf [OF wf, of E now s] n na show ?thesis
      by (auto simp: accused_def suspect_spec_def split: option.splits if_splits)
  next
    case (InDead now d notify)
    with h dead show ?thesis by simp
  next
    case (InTimeout now i l)
    with h dead n(1) show ?thesis by (auto simp: timeoutFn_def Let_def split: option.splits if_splits)
  qed
  moreover have "m_left m'" using h left by (cases x) (auto simp: suspectNode_frame deadNode_frame timeoutFn_frame)
  ultimately show ?thesis using id by (simp add: ID_def)
qed

lemma run_left_stays:
  "member_wf m \<Longrightarrow> m_left m \<Longrightarrow> lookup m (ID m) = Some n \<Longrightarrow> DeadOrLeft n \<Longrightarrow> runOps (handle E) xs m = Some m' \<Longrightarrow>
   lookup m' (ID m) = Some n"
proof (induction xs arbitrary: m)
  case (Cons x xs)
  then obtain m1 where m1: "handle E x m = Some m1" "runOps (handle E) xs m1 = Some m'" by (auto split: option.splits)
  from left_stays [OF Cons.prems(1-4) m1(1)] Cons.IH [of m1] m1 Cons.prems hi.keeps_wf [OF Cons.prems(1) m1(1)]
  show ?case by simp
qed simp

lemma member_wf_left: "member_wf m \<Longrightarrow> member_wf (m\<lparr>m_left := True\<rparr>)"
  by (auto simp: member_wf_def table_wf_def susp_wf_def local_wf_def lookup_def nid_def ID_def)

lemma Leave_spec:
  assumes wf: "member_wf m" and n: "lookup m (ID m) = Some n" and on: "\<not> m_shutdown m" "\<not> m_left m"
  shows "\<exists>m'. Leave E now ch notified m = Some (waitBroadcast notified m', m') \<and> member_wf m' \<and> m_left m' \<and> ID m' = ID m
    \<and> lookup m' = (lookup m)(ID m \<mapsto> n\<lparr>ns_State := StateLeft, ns_StateChange := now\<rparr>)"
proof -
  let ?m = "m\<lparr>m_left := True\<rparr>" and ?d = "\<lparr>d_Lives = ns_Lives n, d_ID = ID m, d_Left = True\<rparr>"
  have wf': "member_wf ?m" using member_wf_left [OF wf] .
  have l: "lookup ?m = lookup m" "ID ?m = ID m" by (auto simp: lookup_def ID_def)
  obtain p where p: "m_nodeMap m (ID m) = Some p" "m_store m p = n" using n by (auto simp: lookup_Some)
  have id: "n_ID (ns_Node n) = ID m" using member_wf_lookup_ID [OF wf n] .
  have alive: "ns_State n = StateAlive" using wf n on(2) by (auto simp: member_wf_def local_wf_def)
  from deadNode_view_wf [OF wf', of E now ?d "Some ch"] n alive obtain m' where
    m': "deadNode E now ?d (Some ch) ?m = Some m'" "lookup m' = (lookup m)(ID m \<mapsto> buried now ?d n)" "member_wf m'"
    by (cases "deadNode E now ?d (Some ch) ?m") (auto simp: l dead_spec_def)
  moreover have "m_left m' \<and> ID m' = ID m" using deadNode_frame [OF m'(1)] by (simp add: ID_def)
  ultimately show ?thesis
    using on p id by (auto simp: Leave_def hasShutdown_def hasLeft_def l Let_def buried_def)
qed

section \<open>New tags\<close>

lemma UpdateTags_spec:
  assumes wf: "member_wf m" and n: "lookup m (ID m) = Some n" and small: "length tags \<le> TagMaxSize"
    and on: "\<not> m_left m" "IPAllowed (m_config m) (n_IP (ns_Node n))" and lives: "ns_Lives n < m_lives m + 1"
  shows "\<exists>m'. UpdateTags E now rnd ch notified tags m = (waitBroadcast notified m', m') \<and> member_wf m' \<and> m_lives m' = m_lives m + 1
    \<and> lookup m' = (lookup m)(ID m \<mapsto> n\<lparr>ns_Lives := m_lives m + 1, ns_Node := (ns_Node n)\<lparr>n_Tags := tags\<rparr>\<rparr>)"
proof -
  let ?m = "m\<lparr>m_lives := m_lives m + 1\<rparr>"
  let ?a = "\<lparr>a_Lives = m_lives m + 1, a_ID = ID m, a_IP = n_IP (ns_Node n), a_Port = n_Port (ns_Node n), a_Tags = tags\<rparr>"
  have wf': "member_wf ?m" using wf by (subst member_wf_cong [of _ m]) simp_all
  have l: "lookup ?m = lookup m" "ID ?m = ID m" by (auto simp: lookup_def ID_def)
  obtain p where p: "m_nodeMap m (ID m) = Some p" "m_store m p = n" using n by (auto simp: lookup_Some)
  have alive: "ns_State n = StateAlive" using wf n on(1) by (auto simp: member_wf_def local_wf_def)
  have ad: "admits ?m ?a" using on by (simp add: admits_def)
  have "lookup (aliveNode E now rnd ?a (Some ch) ?m) = (lookup m)(ID m \<mapsto> revived now ?a n)"
    using aliveNode_view_wf(1) [OF wf', of E now rnd ?a "Some ch"] ad n lives not_le [of "m_lives m + 1" "ns_Lives n"]
    by (auto simp: l alive_spec_def)
  moreover have "revived now ?a n = n\<lparr>ns_Lives := m_lives m + 1, ns_Node := (ns_Node n)\<lparr>n_Tags := tags\<rparr>\<rparr>"
    using alive by (cases n) (simp add: revived_def)
  ultimately show ?thesis
    using small p aliveNode_view_wf(2) [OF wf', of E now rnd ?a "Some ch"]
    by (simp add: UpdateTags_def nextLiveNo_def Let_def)
qed

section \<open>The advertised address\<close>

lemma finalizeAdvertiseAddr_configured:
  assumes "c_AdvertiseAddr (m_config m) \<noteq> []" and "ParseIP (c_AdvertiseAddr (m_config m)) = Some ip"
  shows "\<exists>m'. finalizeAdvertiseAddr io t m = (Ok (), m') \<and> GetAdvertiseAddr m' = Ok (ip, of_int (c_AdvertisePort (m_config m)))"
proof -
  have len: "length ip = 16" using ParseIP_length [OF assms(2)] .
  let ?ip = "case To4 ip of None \<Rightarrow> ip | Some ip4 \<Rightarrow> ip4"
  have "length ?ip = 4 \<or> length ?ip = 16" using len To4_To16(2) [of ip] by (auto split: option.splits)
  then have "ParseIP (IP_String ?ip) = Some ip" using ParseIP_String To16_family [OF len] by simp
  then show ?thesis using assms by (simp add: finalizeAdvertiseAddr_def GetAdvertiseAddr_def Let_def)
qed

section \<open>What \<open>Build\<close> starts\<close>

lemma newMemberlist_wf: "member_wf (newMemberlist E c kr b)"
  by (simp add: newMemberlist_def member_wf_def table_wf_def susp_wf_def local_wf_def lookup_def wrap32_def)

lemma newMemberlist_simps [simp]:
  "lookup (newMemberlist E c kr b) = Map.empty" "m_config (newMemberlist E c kr b) = c" "m_keyring (newMemberlist E c kr b) = kr"
  "m_left (newMemberlist E c kr b) = False" "m_lives (newMemberlist E c kr b) = 0" "m_shutdown (newMemberlist E c kr b) = False"
  by (simp_all add: newMemberlist_def lookup_def fun_eq_iff)

lemma buildKeyring_wf:
  assumes "buildKeyring b = Ok kr" and "\<And>r. b_keyring b = Some r \<Longrightarrow> keyring_wf r"
  shows "pred_option keyring_wf kr" and "b_secretKey b = Some k \<Longrightarrow> \<exists>r. kr = Some r \<and> primaryKey r = Some k"
proof -
  show "pred_option keyring_wf kr"
  proof (cases "b_secretKey b")
    case None
    with assms show ?thesis by (auto simp: buildKeyring_def pred_option_def)
  next
    case (Some k)
    show ?thesis
    proof (cases "b_keyring b")
      case None
      with Some assms(1) obtain r where "NewKeyring [] (Some k) = Ok r" "kr = Some r" by (auto simp: buildKeyring_def bind_outcome_eq_Ok)
      then show ?thesis using NewKeyring_wf by simp
    next
      case r: (Some r)
      with Some assms(1) obtain r1 r2 where "AddKey k r = Ok r1" "UseKey k r1 = Ok r2" and kr: "kr = Some r2"
        by (auto simp: buildKeyring_def bind_outcome_eq_Ok)
      then have "keyring_wf r2" using AddKey_wf [OF assms(2) [OF r]] UseKey_wf by blast
      then show ?thesis by (simp add: kr)
    qed
  qed
  show "\<exists>r. kr = Some r \<and> primaryKey r = Some k" if "b_secretKey b = Some k"
  proof (cases "b_keyring b")
    case None
    with that assms(1) obtain r where r: "NewKeyring [] (Some k) = Ok r" "kr = Some r" by (auto simp: buildKeyring_def bind_outcome_eq_Ok)
    then obtain r0 where "UseKey k r0 = Ok r" by (auto simp: NewKeyring_def Let_def bind_outcome_eq_Ok)
    with r show ?thesis by (auto simp: UseKey_eq split: if_splits)
  next
    case (Some r)
    with that assms(1) obtain r1 r2 where "UseKey k r1 = Ok r2" "kr = Some r2"
      by (auto simp: buildKeyring_def bind_outcome_eq_Ok)
    then show ?thesis by (auto simp: UseKey_eq split: if_splits)
  qed
qed

text \<open>A change of the configured address keeps the rest.\<close>

lemma finalizeAdvertiseAddr_frame:
  assumes "finalizeAdvertiseAddr io t m = (r, m')"
  shows "m' = m\<lparr>m_config := (m_config m)\<lparr>c_AdvertiseAddr := c_AdvertiseAddr (m_config m'), c_AdvertisePort := c_AdvertisePort (m_config m')\<rparr>\<rparr>"
proof -
  have "m = m\<lparr>m_config := (m_config m)\<lparr>c_AdvertiseAddr := c_AdvertiseAddr (m_config m), c_AdvertisePort := c_AdvertisePort (m_config m)\<rparr>\<rparr>"
    by simp
  then show ?thesis using assms
    by (auto simp: finalizeAdvertiseAddr_def Let_def split: if_splits option.splits outcome.splits)
qed

definition localEntry :: "time \<Rightarrow> Config \<Rightarrow> u32 \<Rightarrow> IP \<Rightarrow> u16 \<Rightarrow> nodeState" where
  "localEntry now c l ip port =
     \<lparr>ns_Node = \<lparr>n_ID = c_ID c, n_IP = ip, n_Port = port, n_Tags = c_Tags c\<rparr>, ns_Lives = l, ns_State = StateAlive, ns_StateChange = now\<rparr>"

text \<open>The node advertises an address, which is private or used with encryption, and knows exactly itself,
  unless its own address is outside the allowed networks.\<close>

definition knowsItself :: "boot_io \<Rightarrow> u32 \<Rightarrow> 'h Memberlist \<Rightarrow> bool" where
  "knowsItself io l m \<longleftrightarrow> (\<exists>ip port. GetAdvertiseAddr m = Ok (ip, port)
     \<and> (bo_isPublic io (IP_String ip) = Ok True \<longrightarrow> EncryptionEnabled (m_keyring m))
     \<and> lookup m = (if IPAllowed (m_config m) ip then [ID m \<mapsto> localEntry (bo_now io) (m_config m) l ip port] else Map.empty))"

lemma start_frame: "start E io t m = (r, m') \<Longrightarrow> m_shutdown m' = m_shutdown m"
proof -
  have f: "m_shutdown m1 = m_shutdown m" if "finalizeAdvertiseAddr io t m = (x, m1)" for x m1
    using finalizeAdvertiseAddr_frame [OF that] by (metis Memberlist.select_convs(5) Memberlist.update_convs(3) Memberlist.surjective)
  have s: "m_shutdown m2 = m_shutdown m1" if "setAlive E io m1 = (x, m2)" for x m1 m2
    using that by (auto simp: setAlive_def nextLiveNo_def aliveNode_def notify_defs Let_def setNode_def split: if_splits option.splits outcome.splits)
  show "start E io t m = (r, m') \<Longrightarrow> ?thesis"
    using f s by (auto simp: start_def split: prod.splits outcome.splits if_splits)
qed

lemma start_spec:
  assumes wf: "member_wf m" and new: "lookup m = Map.empty" "\<not> m_left m" and st: "start E io t m = (Ok tasks, m')"
  shows "member_wf m' \<and> length (c_Tags (m_config m')) \<le> TagMaxSize \<and> tasks = schedule (m_config m')
    \<and> m_keyring m' = m_keyring m \<and> c_ID (m_config m') = c_ID (m_config m) \<and> m_shutdown m' = m_shutdown m
    \<and> knowsItself io (m_lives m + 1) m'"
proof -
  obtain m1 where f: "finalizeAdvertiseAddr io t m = (Ok (), m1)"
    using st by (auto simp: start_def split: prod.splits outcome.splits)
  obtain hasPublic where pub: "hasPublicIface io m1 = Ok hasPublic" "\<not> (hasPublic \<and> \<not> EncryptionEnabled (m_keyring m1))"
    and sa: "setAlive E io m1 = (Ok (), m')" and tasks: "tasks = schedule (m_config m')"
    using st f by (auto simp: start_def split: prod.splits outcome.splits if_splits)
  obtain ad po where m1: "m1 = m\<lparr>m_config := (m_config m)\<lparr>c_AdvertiseAddr := ad, c_AdvertisePort := po\<rparr>\<rparr>"
    using finalizeAdvertiseAddr_frame [OF f] by blast
  obtain ip port where adv: "GetAdvertiseAddr m1 = Ok (ip, port)" using pub(1) by (auto simp: hasPublicIface_def bind_outcome_eq_Ok)
  have small: "length (c_Tags (m_config m1)) \<le> TagMaxSize" using sa by (simp add: setAlive_def split: if_splits)
  let ?m2 = "m1\<lparr>m_lives := m_lives m1 + 1\<rparr>"
  let ?a = "\<lparr>a_Lives = m_lives m1 + 1, a_ID = ID m1, a_IP = ip, a_Port = port, a_Tags = c_Tags (m_config m1)\<rparr>"
  have m': "m' = aliveNode E (bo_now io) (bo_rnd io) ?a None ?m2"
    using sa adv small by (simp add: setAlive_def nextLiveNo_def Let_def)
  have wf2: "member_wf ?m2" using wf new by (simp add: m1 member_wf_def table_wf_def susp_wf_def local_wf_def lookup_def nid_def ID_def fun_eq_iff)
  have l2: "lookup (m1\<lparr>m_lives := k\<rparr>) = Map.empty" for k using new(1) by (simp add: m1 lookup_def fun_eq_iff)
  have c': "m_config m' = m_config m1" "m_keyring m' = m_keyring m" "m_shutdown m' = m_shutdown m"
    by (simp_all add: m' m1 aliveNode_def notify_defs Let_def setNode_def split: option.split)
  have lv: "m_lives m1 = m_lives m" by (simp add: m1)
  have adm: "admits ?m2 ?a \<longleftrightarrow> IPAllowed (m_config m') ip" using new(2) c'(1) by (simp add: admits_def m1)
  have "lookup m' = (if IPAllowed (m_config m') ip then [ID m' \<mapsto> localEntry (bo_now io) (m_config m') (m_lives m + 1) ip port] else Map.empty)"
    using aliveNode_view_wf(1) [OF wf2, of E "bo_now io" "bo_rnd io" ?a None, folded m'] adm c'(1)
      lv by (simp add: l2 alive_spec_def freshNode_def localEntry_def ID_def)
  moreover have "GetAdvertiseAddr m' = Ok (ip, port)" using adv c'(1) by (simp add: GetAdvertiseAddr_def split: option.splits)
  moreover have "EncryptionEnabled (m_keyring m')" if "bo_isPublic io (IP_String ip) = Ok True"
    using that pub adv c'(2) by (simp add: hasPublicIface_def m1)
  ultimately have "knowsItself io (m_lives m + 1) m'" unfolding knowsItself_def by blast
  then show ?thesis
    using aliveNode_view_wf(2) [OF wf2, of E "bo_now io" "bo_rnd io" ?a None, folded m'] small c' tasks by (simp add: m1)
qed

lemma NewNetTransport_idle: "NewNetTransport addrs port l = Ok t \<Longrightarrow> idleTransport t \<and> nt_bindAddrs t = addrs"
  by (auto simp: NewNetTransport_def idleTransport_def split: if_splits)

context kernel_laws
begin

lemma buildTransport_spec:
  assumes "buildTransport OS c s = (r, s')"
  shows "\<exists>leaked. (\<forall>x \<in> leaked. unbuffered x) \<and>
    (case r of Ok (t, port) \<Rightarrow> started [c_BindAddr c] t \<and> gains s s' (sockets t \<union> leaked)
     | Err e \<Rightarrow> gains s s' leaked | Panic p \<Rightarrow> False)"
proof (cases "c_BindPort c = 0")
  case True
  obtain t0 where t0: "NewNetTransport [c_BindAddr c] 0 True = Ok t0" by (simp add: NewNetTransport_def)
  note idle = NewNetTransport_idle [OF t0]
  obtain r1 where z: "zeroLoop OS 10 t0 s = (r1, s')" and r: "r = (case r1 of Ok t \<Rightarrow> Ok (t, BindPort t) | Err e \<Rightarrow> Err e | Panic p \<Rightarrow> Panic p)"
    using assms True t0 by (auto simp: buildTransport_def ZeroBindPortTransport_def split: prod.splits outcome.splits)
  from zeroLoop_spec [OF z] idle obtain leaked where "\<forall>x \<in> leaked. unbuffered x"
    "case r1 of Ok t' \<Rightarrow> started (nt_bindAddrs t0) t' \<and> gains s s' (sockets t' \<union> leaked) | Err e \<Rightarrow> gains s s' leaked | Panic p \<Rightarrow> False"
    by blast
  with idle r show ?thesis by (intro exI [of _ leaked]) (cases r1; simp)
next
  case False
  obtain t0 where t0: "NewNetTransport [c_BindAddr c] (c_BindPort c) True = Ok t0" by (simp add: NewNetTransport_def)
  note idle = NewNetTransport_idle [OF t0]
  obtain r1 t1 where st: "Start OS t0 s = (r1, t1, s')" and r: "r = (case r1 of Ok _ \<Rightarrow> Ok (t1, c_BindPort c) | Err e \<Rightarrow> Err e | Panic p \<Rightarrow> Panic p)"
    using assms False t0 by (auto simp: buildTransport_def split: prod.splits outcome.splits)
  show ?thesis
  proof (cases "r1 = Ok ()")
    case True
    with Start_Ok [of t0 s t1 s'] st idle r show ?thesis by (intro exI [of _ "{}"]) simp
  next
    case f: False
    from Start_Err [OF st f] idle obtain leaked where "gains s s' leaked" "\<forall>x \<in> leaked. unbuffered x" "\<forall>p. r1 \<noteq> Panic p" by blast
    with f r show ?thesis by (intro exI [of _ leaked]) (cases r1; simp)
  qed
qed

lemma Build_Ok:
  assumes "Build E OS io b s = (Ok (m, t, tasks), s')"
  shows "\<exists>c kr leaked. b_config b = Some c \<and> buildKeyring b = Ok kr \<and> m_keyring m = kr
    \<and> started [c_BindAddr c] t \<and> gains s s' (sockets t \<union> leaked) \<and> (\<forall>x \<in> leaked. unbuffered x)
    \<and> member_wf m \<and> \<not> m_shutdown m \<and> ID m = UniqueID (bo_uuid io) \<and> tasks = schedule (m_config m) \<and> length (c_Tags (m_config m)) \<le> TagMaxSize
    \<and> knowsItself io 1 m"
proof -
  obtain c kr port0 where k: "buildKeyring b = Ok kr" and c: "b_config b = Some c" and bt: "buildTransport OS c s = (Ok (t, port0), s')"
    and st: "start E io t (newMemberlist E (c\<lparr>c_BindPort := port0, c_ID := UniqueID (bo_uuid io)\<rparr>) kr b) = (Ok tasks, m)"
    using assms by (auto simp: Build_def Let_def split: outcome.splits option.splits prod.splits)
  obtain leaked where l: "\<forall>x \<in> leaked. unbuffered x" "started [c_BindAddr c] t" "gains s s' (sockets t \<union> leaked)"
    using buildTransport_spec [OF bt] by auto
  from start_spec [OF newMemberlist_wf _ _ st] show ?thesis
    using k c l by (intro exI [of _ c] exI [of _ kr] exI [of _ leaked]) (auto simp: ID_def)
qed

lemma Build_Err:
  assumes "Build E OS io b s = (Err e, s')"
  shows "\<exists>leaked. gains s s' leaked \<and> (\<forall>x \<in> leaked. unbuffered x)"
proof (cases "\<exists>c t port s1 m1 kr. b_config b = Some c \<and> buildKeyring b = Ok kr \<and> buildTransport OS c s = (Ok (t, port), s1)
    \<and> start E io t (newMemberlist E (c\<lparr>c_BindPort := port, c_ID := UniqueID (bo_uuid io)\<rparr>) kr b) = (Err e, m1)")
  case True
  then obtain c t port s1 m1 kr where k: "buildKeyring b = Ok kr" and c: "b_config b = Some c" and bt: "buildTransport OS c s = (Ok (t, port), s1)"
    and st: "start E io t (newMemberlist E (c\<lparr>c_BindPort := port, c_ID := UniqueID (bo_uuid io)\<rparr>) kr b) = (Err e, m1)" by blast
  have "\<not> m_shutdown m1" using start_frame [OF st] by simp
  then have s': "s' = snd (transportShutdown OS t s1)" using assms k c bt st by (simp add: Build_def Shutdown_def hasShutdown_def split: prod.splits)
  obtain leaked where l: "\<forall>x \<in> leaked. unbuffered x" "started [c_BindAddr c] t" "gains s s1 (sockets t \<union> leaked)"
    using buildTransport_spec [OF bt] by auto
  have "opened s' = opened s1 - sockets t"
    using transportShutdown_releases(1) [of t s1] l(2) s' by (metis prod.collapse started_def)
  then have "gains s s' (leaked - sockets t)" using l(3) by blast
  then show ?thesis using l(1) by blast
next
  case False
  then consider "s' = s" | c where "buildTransport OS c s = (Err e, s')"
    using assms by (auto simp: Build_def Let_def split: outcome.splits option.splits prod.splits)
  then show ?thesis
  proof cases
    case 1
    then show ?thesis by (intro exI [of _ "{}"]) simp
  next
    case 2
    from buildTransport_spec [OF this] show ?thesis by auto
  qed
qed

end

section \<open>Joining\<close>

lemma pushPullWithNode_wf:
  assumes "pushPullWithNode E clock rnd nonce usr dial m = Some (r, m')" and "member_wf m"
  shows "member_wf m' \<and> m_config m' = m_config m \<and> view_le (lookup m) (lookup m')"
proof -
  consider "m' = m" | rs where "mergeState E clock rnd 0 rs m = Some m'"
    using assms(1) by (auto simp: pushPullWithNode_def split: outcome.splits option.splits)
  then show ?thesis
  proof cases
    case 1
    with assms(2) show ?thesis by simp
  next
    case 2
    then have "runOps (handle E) (mergeInputs (ID m) clock rnd 0 rs) m = Some m'" by (simp add: mergeState_history)
    from hi.run_wf [OF assms(2) this] hi.run_config [OF this] hi.run_inflates [OF assms(2) this] show ?thesis by simp
  qed
qed

text \<open>Every host and address gives a success or an error; the memberlist stays well-formed.\<close>

lemma joinAddrs_spec:
  "joinAddrs E io port addrs j m = Some (r, m') \<Longrightarrow> member_wf m \<Longrightarrow>
   member_wf m' \<and> m_config m' = m_config m \<and> view_le (lookup m) (lookup m')
   \<and> (\<forall>e. r \<noteq> Err e)
   \<and> (\<forall>j'. r = Ok j' \<longrightarrow> jd_num j \<le> jd_num j'
        \<and> (jd_num j' - jd_num j) + int (length (jd_errs j')) = int (length (jd_errs j)) + int (length addrs))"
proof (induction addrs arbitrary: j m)
  case (Cons addr addrs)
  let ?k = "jd_tried j"
  obtain r1 m1 where pp: "pushPullWithNode E (jo_clock io ?k) (jo_rnd io ?k) (jo_nonce io ?k) (jo_usr io ?k) (jo_dial io ?k (joinHostPort (IP_String addr) port)) m = Some (r1, m1)"
    using Cons.prems(1) by (auto simp: Let_def split: option.splits)
  note wf1 = pushPullWithNode_wf [OF pp Cons.prems(2)]
  show ?case
  proof (cases r1)
    case (Panic p)
    with Cons.prems pp wf1 show ?thesis by (auto simp: Let_def)
  next
    case (Ok u)
    with Cons.prems(1) pp have "joinAddrs E io port addrs (j\<lparr>jd_tried := ?k + 1, jd_num := jd_num j + 1\<rparr>) m1 = Some (r, m')" by (simp add: Let_def)
    from Cons.IH [OF this] wf1 show ?thesis by (fastforce intro: view_le_trans)
  next
    case (Err e)
    with Cons.prems(1) pp have "joinAddrs E io port addrs
        (joinFailed (ErrText (''failed to join '' @ IP_String addr @ '': '' @ jo_errText io e)) (j\<lparr>jd_tried := ?k + 1\<rparr>)) m1 = Some (r, m')"
      by (simp add: Let_def)
    from Cons.IH [OF this] wf1 show ?thesis by (fastforce simp: joinFailed_def intro: view_le_trans)
  qed
qed auto

lemma no_lengths: "int (length xs) + int (length ys) = 0 \<longleftrightarrow> xs = [] \<and> ys = []"
  using of_nat_eq_0_iff [of "length xs + length ys", where ?'a = int] by simp

lemma joinLoop_spec:
  "joinLoop E io existing j m = Some (r, m') \<Longrightarrow> member_wf m \<Longrightarrow>
   member_wf m' \<and> m_config m' = m_config m \<and> view_le (lookup m) (lookup m') \<and> (\<forall>e. r \<noteq> Err e)
   \<and> (\<forall>j'. r = Ok j' \<longrightarrow> jd_num j \<le> jd_num j' \<and> (jd_num j' = jd_num j \<and> jd_errs j' = [] \<longrightarrow> jd_errs j = []
        \<and> (\<forall>h \<in> set existing. \<exists>port. ResolveAddr (jo_resolver io) h (c_DNSConfigPath (m_config m)) = Ok ([], port))))"
proof (induction existing arbitrary: j m)
  case (Cons h existing)
  let ?R = "ResolveAddr (jo_resolver io) h (c_DNSConfigPath (m_config m))"
  show ?case
  proof (cases ?R)
    case (Panic p)
    with Cons.prems show ?thesis by auto
  next
    case (Err e)
    let ?j = "joinFailed (ErrText (''failed to resolve '' @ h @ '': '' @ jo_errText io e)) j"
    from Err Cons.prems(1) have "joinLoop E io existing ?j m = Some (r, m')" by simp
    from Cons.IH [OF this Cons.prems(2)] show ?thesis by (auto simp: joinFailed_def)
  next
    case (Ok a)
    obtain addrs port0 where a: "a = (addrs, port0)" by (cases a)
    let ?port = "if port0 = 0 then of_int (c_BindPort (m_config m)) else port0"
    obtain r1 m1 where ja: "joinAddrs E io ?port addrs j m = Some (r1, m1)"
      using Cons.prems(1) Ok a by (auto simp: Let_def split: option.splits)
    note sp = joinAddrs_spec [OF ja Cons.prems(2)]
    show ?thesis
    proof (cases r1)
      case (Panic p)
      with Cons.prems(1) Ok a ja sp show ?thesis by (auto simp: Let_def)
    next
      case j1: (Ok j1)
      with Cons.prems(1) Ok a ja have "joinLoop E io existing j1 m1 = Some (r, m')" by (simp add: Let_def)
      from Cons.IH [OF this] sp j1 Ok a show ?thesis by (auto simp: no_lengths intro: view_le_trans)
    qed (use sp in blast)
  qed
qed auto


text \<open>
  \<open>Join\<close> keeps the memberlist well-formed and loses nothing of what it knows. It reports an
  error only when no exchange succeeded, and no error only when one did or no name had an address.
\<close>

lemma Join_spec:
  assumes "Join E io existing m = Some (Ok (k, err), m')" and "member_wf m"
  shows "member_wf m' \<and> m_config m' = m_config m \<and> view_le (lookup m) (lookup m') \<and> 0 \<le> k
    \<and> (0 < k \<longrightarrow> err = None)
    \<and> (k = 0 \<and> err = None \<longrightarrow>
         (\<forall>h \<in> set existing. \<exists>port. ResolveAddr (jo_resolver io) h (c_DNSConfigPath (m_config m)) = Ok ([], port)))"
proof -
  obtain j where j: "joinLoop E io existing \<lparr>jd_num = 0, jd_errs = [], jd_tried = 0\<rparr> m = Some (Ok j, m')"
    "k = jd_num j" "err = combineErrors (jo_errText io) (if jd_num j > 0 then [] else jd_errs j)"
    using assms(1) by (auto simp: Join_def Let_def split: option.splits outcome.splits)
  have "combineErrors (jo_errText io) [] = None" and "jd_errs j \<noteq> [] \<Longrightarrow> combineErrors (jo_errText io) (jd_errs j) \<noteq> None"
    by (auto simp: combineErrors_def split: list.splits)
  with joinLoop_spec [OF j(1) assms(2)] j(2,3) show ?thesis by (auto split: if_splits)
qed

lemma Join_nobody:
  assumes "\<And>h. h \<in> set existing \<Longrightarrow> \<exists>e. ResolveAddr (jo_resolver io) h (c_DNSConfigPath (m_config m)) = Err e"
  shows "\<exists>err. Join E io existing m = Some (Ok (0, err), m) \<and> (err = None \<longleftrightarrow> existing = [])"
proof -
  have loop: "\<exists>errs. joinLoop E io existing j m = Some (Ok (j\<lparr>jd_errs := errs\<rparr>), m)
      \<and> length errs = length (jd_errs j) + length existing" for j
    using assms
  proof (induction existing arbitrary: j)
    case (Cons h existing)
    then obtain e where e: "ResolveAddr (jo_resolver io) h (c_DNSConfigPath (m_config m)) = Err e" by auto
    obtain errs where "joinLoop E io existing (joinFailed (ErrText (''failed to resolve '' @ h @ '': '' @ jo_errText io e)) j) m
        = Some (Ok ((joinFailed (ErrText (''failed to resolve '' @ h @ '': '' @ jo_errText io e)) j)\<lparr>jd_errs := errs\<rparr>), m)"
      "length errs = length (jd_errs j) + 1 + length existing"
      using Cons.IH [of "joinFailed (ErrText (''failed to resolve '' @ h @ '': '' @ jo_errText io e)) j"] Cons.prems
      by (auto simp: joinFailed_def)
    with e show ?case by (auto simp: joinFailed_def)
  next
    case Nil
    show ?case by (rule exI [of _ "jd_errs j"]) simp
  qed
  obtain errs where "joinLoop E io existing \<lparr>jd_num = 0, jd_errs = [], jd_tried = 0\<rparr> m
      = Some (Ok (\<lparr>jd_num = 0, jd_errs = errs, jd_tried = 0\<rparr>), m)" "length errs = length existing"
    using loop [of "\<lparr>jd_num = 0, jd_errs = [], jd_tried = 0\<rparr>"] by auto
  then show ?thesis by (cases errs) (auto simp: Join_def combineErrors_def)
qed

text \<open>
  Two nodes on the ends of one connection: each reads what the other writes, both have room for
  the exchange and neither has left.
\<close>

definition exchange :: "'h env \<Rightarrow> bytes \<Rightarrow> bytes option \<Rightarrow> tcp_conn \<Rightarrow> 'h Memberlist \<Rightarrow> stream_io \<Rightarrow> 'h Memberlist \<Rightarrow> bool" where
  "exchange E nonce usr conn m sio mB \<longleftrightarrow>
     (\<exists>req rest nonceB rep rest'. tells E nonce usr m req \<and> tc_reply (sio_conn sio) = req @ rest
        \<and> tells E nonceB (sio_usr sio) mB rep \<and> sio_nonce sio = Ok nonceB \<and> tc_reply conn = rep @ rest')
     \<and> open_conn conn \<and> open_conn (sio_conn sio)
     \<and> keyrings_agree (m_keyring m) (m_keyring mB) \<and> keyrings_agree (m_keyring mB) (m_keyring m)
     \<and> c_Label (m_config mB) = c_Label (m_config m)
     \<and> m_numPushPull mB + 1 < of_int (c_MaxPushPulls (m_config mB))
     \<and> (\<forall>n. lookup m (ID mB) = Some n \<longrightarrow> ns_Lives n \<noteq> - 1)
     \<and> (\<forall>n. lookup mB (ID m) = Some n \<longrightarrow> ns_Lives n \<noteq> - 1)"

context net_env
begin

lemma exchange_both_ways:
  assumes "member_wf m" "member_wf mB" and "exchange E nonce usr conn m sio mB"
  shows "\<exists>m' mB' u rep uB. pushPullWithNode E clock rnd (Ok nonce) usr (Ok conn) m = Some (Ok u, m')
    \<and> handleTcpConn E sio mB = Some (Ok (mB', rep, uB))
    \<and> member_wf m' \<and> member_wf mB' \<and> knowsAlive m' mB \<and> knowsAlive mB' m"
proof -
  obtain req rest nonceB rep rest' where x: "tells E nonce usr m req" "tc_reply (sio_conn sio) = req @ rest"
      "tells E nonceB (sio_usr sio) mB rep" "sio_nonce sio = Ok nonceB" "tc_reply conn = rep @ rest'"
    using assms(3) unfolding exchange_def by blast
  have y: "open_conn conn" "open_conn (sio_conn sio)" "keyrings_agree (m_keyring m) (m_keyring mB)"
      "keyrings_agree (m_keyring mB) (m_keyring m)" "c_Label (m_config mB) = c_Label (m_config m)"
      "m_numPushPull mB + 1 < of_int (c_MaxPushPulls (m_config mB))"
      "\<And>n. lookup m (ID mB) = Some n \<Longrightarrow> ns_Lives n \<noteq> - 1" "\<And>n. lookup mB (ID m) = Some n \<Longrightarrow> ns_Lives n \<noteq> - 1"
    using assms(3) unfolding exchange_def by blast+
  show ?thesis
    using push_pull_both_ways [OF assms(1,2) x(1,2,3,4) y(2,1) x(5) y(3-8)] by blast
qed

lemma Join_meets:
  assumes wf: "member_wf m" "member_wf mB" and x: "exchange E nonce (jo_usr io 0) conn m sio mB"
    and ip: "length ip = 4 \<or> length ip = 16" and port: "port \<noteq> 0"
    and dial: "jo_dial io 0 (joinHostPort (IP_String ip) port) = Ok conn" "jo_nonce io 0 = Ok nonce"
  shows "\<exists>m' mB' rep uB. Join E io [joinHostPort (IP_String ip) port] m = Some (Ok (1, None), m')
    \<and> handleTcpConn E sio mB = Some (Ok (mB', rep, uB))
    \<and> member_wf m' \<and> member_wf mB' \<and> knowsAlive m' mB \<and> knowsAlive mB' m"
proof -
  obtain m' mB' u rep uB where e: "pushPullWithNode E (jo_clock io 0) (jo_rnd io 0) (Ok nonce) (jo_usr io 0) (Ok conn) m = Some (Ok u, m')"
    "handleTcpConn E sio mB = Some (Ok (mB', rep, uB))" "member_wf m'" "member_wf mB'" "knowsAlive m' mB" "knowsAlive mB' m"
    using exchange_both_ways [OF wf x] by blast
  have "Join E io [joinHostPort (IP_String ip) port] m = Some (Ok (1, None), m')"
    using e(1) dial port by (simp add: Join_def ResolveAddr_joinHostPort [OF ip] IP_String_To16 [OF ip] Let_def combineErrors_def)
  with e show ?thesis by blast
qed

end

end
