(* ===== verification/Running.thy ===== *)
theory Running
  imports Members
begin

text \<open>
  A running node: the receive loops of \<^verbatim>\<open>src/net_handlers.go\<close> that feed the handlers, and the node as
  a step relation over everything its goroutines and its caller do. Each step is a handler, a timer,
  a scheduled task or a call of the API; it is shown to be a sequence of critical sections under
  \<open>nodeL\<close> and of updates elsewhere, so that what the sections preserve holds in every reachable state.
\<close>

section \<open>The receive loops\<close>

text \<open>
  What the select of a loop receives: a value of the channel, or the close of \<open>shutdownCh\<close>. When the
  list ends the loop waits.
\<close>

datatype 'a received = Received 'a | ShutdownCh

fun receivePacket :: "'h env \<Rightarrow> (handler_io \<times> Packet) received list \<Rightarrow> 'h Memberlist \<Rightarrow> 'h Memberlist outcome option" where
  "receivePacket E [] m = Some (Ok m)"
| "receivePacket E (Received (hio, packet) # rs) m =
     (case handlePacket E hio (pk_Buf packet) (pk_From packet) (pk_Timestamp packet) m of
        Some (Ok m') \<Rightarrow> receivePacket E rs m'
      | r \<Rightarrow> r)"
| "receivePacket E (ShutdownCh # rs) m = Some (Ok m)"

text \<open>\<open>receiveTcpConn\<close> starts a goroutine with \<open>handleTcpConn\<close> for every connection; it returns those.\<close>

fun receiveTcpConn :: "stream_io received list \<Rightarrow> stream_io list" where
  "receiveTcpConn [] = []"
| "receiveTcpConn (Received conn # rs) = conn # receiveTcpConn rs"
| "receiveTcpConn (ShutdownCh # rs) = []"

fun runLongRunMsgHandler :: "'h env \<Rightarrow> ((nat \<Rightarrow> time) \<times> (nat \<Rightarrow> u32)) received list \<Rightarrow> 'h Memberlist \<Rightarrow> 'h Memberlist option" where
  "runLongRunMsgHandler E [] m = Some m"
| "runLongRunMsgHandler E (Received (clock, rnd) # rs) m =
     (case drainLongRun E clock rnd 0 m of
        None \<Rightarrow> None
      | Some m' \<Rightarrow> runLongRunMsgHandler E rs m')"
| "runLongRunMsgHandler E (ShutdownCh # rs) m = Some m"

section \<open>The steps of a node\<close>

inductive node_step :: "'h env \<Rightarrow> 'h Memberlist \<Rightarrow> 'h Memberlist \<Rightarrow> bool" for E :: "'h env" where
  packet: "handlePacket E hio buf from ts m = Some (Ok m') \<Longrightarrow> node_step E m m'"
| stream: "handleTcpConn E sio m = Some (Ok (m', reply, usr)) \<Longrightarrow> node_step E m m'"
| long_run: "drainLongRun E clock rnd 0 m = Some m' \<Longrightarrow> node_step E m m'"
| suspicion_timer: "timeoutFn E now i l m = Some m' \<Longrightarrow> node_step E m m'"
| ack_timer: "node_step E m (m\<lparr>m_pingMng := ackTimeout seqNo (m_pingMng m)\<rparr>)"
| indirect_ack_timer: "node_step E m (m\<lparr>m_pingMng := indirectAckTimeout seqNo (m_pingMng m)\<rparr>)"
| probe_task: "probe E io usrPing m = Some (Ok m') \<Longrightarrow> node_step E m m'"
| gossip_task: "gossip E clock rnd m = Some (Ok m') \<Longrightarrow> node_step E m m'"
| reap_task: "node_step E m (reap reapClock js m)"
| push_pull_task: "pushPull E pick clock rnd nonce usr dial m = Some (Ok m') \<Longrightarrow> node_step E m m'"
| join: "Join E jio existing m = Some (r, m') \<Longrightarrow> node_step E m m'"
| leave: "Leave E now ch notified m = Some (r, m') \<Longrightarrow> node_step E m m'"
| update_tags: "UpdateTags E now rn ch notified tags m = (r, m') \<Longrightarrow> node_step E m m'"
| ping: "Ping E io usrPing node m = Some (r, m') \<Longrightarrow> node_step E m m'"
| user_msg: "SendUserMsg E addr msg m = (r, m') \<Longrightarrow> node_step E m m'"
| shut_down: "node_step E m (m\<lparr>m_shutdown := True\<rparr>)"

definition reaches :: "'h env \<Rightarrow> 'h Memberlist \<Rightarrow> 'h Memberlist \<Rightarrow> bool" where
  "reaches E = (node_step E)\<^sup>*\<^sup>*"

section \<open>Critical sections\<close>

text \<open>The fields that \<open>nodeL\<close> protects, with the configuration and the leave flag.\<close>

definition core :: "'h Memberlist \<Rightarrow> ptr list \<times> (string \<rightharpoonup> ptr) \<times> (ptr \<Rightarrow> nodeState) \<times> ptr \<times> int
    \<times> (string \<rightharpoonup> suspicion) \<times> Config \<times> bool" where
  "core m = (m_nodes m, m_nodeMap m, m_store m, m_next m, m_numNodes m, m_suspicions m, m_config m, m_left m)"

inductive section_step :: "'h env \<Rightarrow> 'h Memberlist \<Rightarrow> 'h Memberlist \<Rightarrow> bool" for E :: "'h env" where
  outside: "core m' = core m \<Longrightarrow> section_step E m m'"
| critical: "handle E x m = Some m' \<Longrightarrow> section_step E m m'"
| reaping: "section_step E m (reap clock js m)"
| leaving: "section_step E m (m\<lparr>m_left := True\<rparr>)"

abbreviation sections :: "'h env \<Rightarrow> 'h Memberlist \<Rightarrow> 'h Memberlist \<Rightarrow> bool" where
  "sections E \<equiv> (section_step E)\<^sup>*\<^sup>*"

lemma core_facts:
  assumes "core m' = core m"
  shows "member_wf m' = member_wf m" and "lookup m' = lookup m" and "m_config m' = m_config m" and "m_left m' = m_left m"
  using assms member_wf_cong [of m' m] by (simp_all add: core_def lookup_def [abs_def])

lemma section_step_wf:
  assumes "section_step E m m'" and "member_wf m"
  shows "member_wf m' \<and> m_config m' = m_config m"
  using assms
proof cases
  case (critical x)
  with assms(2) show ?thesis using hi.keeps_wf [of m E x m'] hi.keeps_config [of E x m m'] by simp
next
  case outside
  with assms(2) core_facts(1,3) [OF outside] show ?thesis by simp
qed (simp_all add: member_wf_reap member_wf_left)

lemma sections_wf: "sections E m m' \<Longrightarrow> member_wf m \<Longrightarrow> member_wf m' \<and> m_config m' = m_config m"
  by (induction rule: rtranclp_induct) (auto dest: section_step_wf)

lemma run_sections: "runOps (handle E) xs m = Some m' \<Longrightarrow> sections E m m'"
proof (induction xs arbitrary: m)
  case (Cons x xs)
  then obtain m1 where "handle E x m = Some m1" "sections E m1 m'" by (auto split: option.splits)
  then show ?case by (meson converse_rtranclp_into_rtranclp section_step.critical)
qed simp

lemma frame_sections: "core m' = core m \<Longrightarrow> sections E m m'"
  by (auto intro: outside)

lemma sections_via: "core m1 = core m \<Longrightarrow> sections E m1 m2 \<Longrightarrow> core m' = core m2 \<Longrightarrow> sections E m m'"
  using frame_sections [of m1 m E] frame_sections [of m' m2 E] by (blast intro: rtranclp_trans)

lemma handle_sections: "handle E x m = Some m' \<Longrightarrow> sections E m m'"
  by (auto intro: section_step.critical)

lemma mergeState_sections: "mergeState E clock rnd k rs m = Some m' \<Longrightarrow> sections E m m'"
  by (rule run_sections) (simp add: mergeState_history)

lemma pushPullWithNode_sections: "pushPullWithNode E clock rnd nonce usr dial m = Some (r, m') \<Longrightarrow> sections E m m'"
  by (auto simp: pushPullWithNode_def split: outcome.splits option.splits intro: mergeState_sections)

lemma send_core: "send_frame m m' \<Longrightarrow> core m' = core m"
  by (auto simp: send_frame_def core_def)

lemma probe_core: "probe_frame m m' \<Longrightarrow> core m' = core m"
  by (auto simp: probe_frame_def core_def)


section \<open>Every step is a sequence of critical sections\<close>

lemma queueMsg_core: "queueMsg t msg from m = Some (Ok m') \<Longrightarrow> core m' = core m"
  by (auto simp: queueMsg_def core_def split: option.splits)

lemma handlePing_core: "handlePing E hio buf from m = Some (Ok m') \<Longrightarrow> core m' = core m"
  by (auto simp: handlePing_def sentTo_def Let_def split: outcome.splits option.splits if_splits
      dest!: encodeAndSendUdp_frame send_core)

lemma handleAck_core: "handleAck E buf ts m = Some (Ok m') \<Longrightarrow> core m' = core m"
  by (auto simp: handleAck_def core_def split: outcome.splits)

lemma handleIndirectAck_core: "handleIndirectAck E msg m = Some (Ok m') \<Longrightarrow> core m' = core m"
  by (auto simp: handleIndirectAck_def core_def split: outcome.splits)

lemma handleIndirectPing_core: "handleIndirectPing E hio msg from m = Some (Ok m') \<Longrightarrow> core m' = core m"
  by (auto simp: handleIndirectPing_def sentTo_def Let_def split: outcome.splits option.splits if_splits prod.splits
      dest!: Ping_frame encodeAndSendUdp_frame send_core probe_core)

lemma handleUdpMsg_core:
  "handleUdpMsg E hio from ts msg m = Some (Ok m') \<Longrightarrow> core m' = core m"
  "handleCompound E hio from ts msg m = Some (Ok m') \<Longrightarrow> core m' = core m"
  "handleMsgs E hio from ts msgs m = Some (Ok m') \<Longrightarrow> core m' = core m"
proof (induction E hio "from" ts msg m and E hio "from" ts msg m and E hio "from" ts msgs m
    arbitrary: m' and m' and m' rule: handleUdpMsg_handleCompound_handleMsgs.induct)
  case (2 E hio "from" ts b msg m)
  then show ?case
    by (auto split: option.splits if_splits
        dest: queueMsg_core handlePing_core handleAck_core handleIndirectPing_core handleIndirectAck_core)
next
  case (3 E hio "from" ts msg m)
  then show ?case by (cases "unpackCompoundMsg msg") (auto split: prod.splits)
next
  case (5 E hio "from" ts msg msgs m)
  then obtain m1 where m1: "handleUdpMsg E hio from ts msg m = Some (Ok m1)" "handleMsgs E hio from ts msgs m1 = Some (Ok m')"
    by (simp split: option.splits outcome.splits)
  from 5(1) [OF m1(1)] 5(2) [OF m1(1) refl m1(2)] show ?case by simp
qed simp_all

lemma handlePacket_core: "handlePacket E hio buf from ts m = Some (Ok m') \<Longrightarrow> core m' = core m"
  by (auto simp: handlePacket_def split: outcome.splits dest: handleUdpMsg_core)

lemma counted_core: "core (m\<lparr>m_numPushPull := n\<rparr>) = core m"
  by (simp add: core_def)

lemma handlePushPull_sections: "handlePushPull E sio r label m = Some (Ok (m', rep, u)) \<Longrightarrow> sections E m m'"
proof -
  assume "handlePushPull E sio r label m = Some (Ok (m', rep, u))"
  then consider "core m' = core m" | rs m1 where
      "mergeState E (sio_clock sio) (sio_rnd sio) 0 rs (m\<lparr>m_numPushPull := m_numPushPull m + 1\<rparr>) = Some m1" "core m' = core m1"
    by (auto simp: handlePushPull_def Let_def counted_core split: if_splits outcome.splits option.splits)
  then show ?thesis
  proof cases
    case 2
    show ?thesis by (rule sections_via [OF counted_core mergeState_sections [OF 2(1)] 2(2)])
  qed (rule frame_sections)
qed

lemma handleTcpConn_sections: "handleTcpConn E sio m = Some (Ok (m', rep, u)) \<Longrightarrow> sections E m m'"
  by (auto simp: handleTcpConn_def Let_def split: outcome.splits if_splits option.splits intro: handlePushPull_sections)

lemma handleLongRunMsg_sections: "handleLongRunMsg E now rnd x m = Some m' \<Longrightarrow> sections E m m'"
  by (auto simp: handleLongRunMsg_eq handleUser_def core_def split: option.splits if_splits
      intro: handle_sections frame_sections)

lemma drainLongRun_sections: "drainLongRun E clock rnd k m = Some m' \<Longrightarrow> sections E m m'"
proof (induction rule: drainLongRun.raw_induct [rotated 1, consumes 1])
  case (1 f E clock rnd k m m')
  have c: "core (m\<lparr>m_longRunMng := q\<rparr>) = core m" for q by (simp add: core_def)
  from 1(2) consider "core m' = core m" | x q m1 where
      "handleLongRunMsg E (clock k) (rnd k) x (m\<lparr>m_longRunMng := q\<rparr>) = Some m1" "f E clock rnd (k + 1) m1 = Some m'"
    by (auto simp: c split: option.splits outcome.splits prod.splits)
  then show ?case
  proof cases
    case 2
    show ?thesis
      by (rule sections_via [OF c rtranclp_trans [OF handleLongRunMsg_sections [OF 2(1)] 1(1) [OF 2(2)]] refl])
  qed (rule frame_sections)
qed


lemma nextProbeNode_core: "nextProbeNode m = (r, m') \<Longrightarrow> core m' = core m"
  by (auto simp: nextProbeNode_def core_def Let_def split: if_splits)

lemma punish_frame: "probe_frame m m1 \<Longrightarrow> probe_frame m (punish d m1)"
  by (blast intro: probe_frame_trans)

lemma probeNode_sections:
  assumes "probeNode E io u node m = Some (Ok m')"
  shows "sections E m m'"
proof -
  from assms consider r m1 where "Ping E io u node m = Some (r, m1)" "m' = punish (- 1) m1"
    | r1 m1 ind m2 tcp m3 where "Ping E io u node m = Some (r1, m1)" "IndirectPing E io node m1 = Some (ind, m2)"
        "TcpPing E io node m2 = (tcp, m3)" "m' = punish (- 1) m3"
    | r1 m1 ind m2 tcp m3 d s where "Ping E io u node m = Some (r1, m1)" "IndirectPing E io node m1 = Some (ind, m2)"
        "TcpPing E io node m2 = (tcp, m3)" "suspectNode E (io_now io) s (punish d m3) = Some m'"
    by (auto simp: probeNode_def Let_def split: option.splits outcome.splits prod.splits bool.splits if_splits)
  then show ?thesis
  proof cases
    case 1
    with probe_core [OF punish_frame [OF Ping_frame [OF 1(1)]]] show ?thesis by (simp add: frame_sections)
  next
    case 2
    have f: "probe_frame m m3"
      using Ping_frame [OF 2(1)] IndirectPing_frame [OF 2(2)] TcpPing_frame [OF 2(3)] by (blast intro: probe_frame_trans)
    from probe_core [OF punish_frame [OF f]] 2(4) show ?thesis by (simp add: frame_sections)
  next
    case 3
    have f: "probe_frame m m3"
      using Ping_frame [OF 3(1)] IndirectPing_frame [OF 3(2)] TcpPing_frame [OF 3(3)] by (blast intro: probe_frame_trans)
    have "sections E (punish d m3) m'" using 3(4) by (intro handle_sections [of _ "InSuspect (io_now io) s"]) simp
    from sections_via [OF probe_core [OF punish_frame [OF f]] this refl] show ?thesis .
  qed
qed

lemma probe_sections:
  assumes "probe E io u m = Some (Ok m')"
  shows "sections E m m'"
proof -
  obtain r m1 where n: "nextProbeNode m = (r, m1)" by fastforce
  have "sections E m1 m'"
    using assms n by (cases r) (auto simp: probe_def intro: probeNode_sections)
  from sections_via [OF nextProbeNode_core [OF n] this refl] show ?thesis .
qed

lemma sendAll_frame: "sendAll E addr msgs m = Ok m' \<Longrightarrow> send_frame m m'"
proof (induction msgs arbitrary: m)
  case (Cons msg msgs)
  obtain r m1 where s: "sendUdp E addr msg m = (r, m1)" by fastforce
  with Cons.prems have "sendAll E addr msgs m1 = Ok m'" by (cases r) auto
  from send_frame_trans [OF sendUdp_frame [OF s] Cons.IH [OF this]] show ?case .
qed simp

lemma gossipLoop_frame: "gossipLoop E k nodes m = Some (Ok m') \<Longrightarrow> send_frame m m'"
proof (induction nodes arbitrary: m)
  case (Cons node nodes)
  then obtain msgs m1 where b: "mlistBroadcasts E k m = Some (msgs, m1)" by (auto split: option.splits)
  have f: "send_frame m m1" using mlistBroadcasts_frame [OF b] by simp
  show ?case
  proof (cases "msgs = []")
    case True
    with Cons.prems b f show ?thesis by simp
  next
    case False
    with Cons.prems b obtain addr out m2 where "sendAll E addr out m1 = Ok m2" "gossipLoop E k nodes m2 = Some (Ok m')"
      by (auto simp: Let_def split: outcome.splits)
    with Cons.IH f show ?thesis by (blast intro: send_frame_trans sendAll_frame)
  qed
qed simp

lemma gossip_core: "gossip E clock rnd m = Some (Ok m') \<Longrightarrow> core m' = core m"
  by (auto simp: gossip_def split: outcome.splits dest!: gossipLoop_frame send_core)

lemma pushPull_sections: "pushPull E pick clock rnd nonce usr dial m = Some (Ok m') \<Longrightarrow> sections E m m'"
  by (auto simp: pushPull_def split: outcome.splits list.splits option.splits prod.splits dest: pushPullWithNode_sections)

lemma joinAddrs_sections: "joinAddrs E io port addrs j m = Some (r, m') \<Longrightarrow> sections E m m'"
proof (induction addrs arbitrary: j m)
  case (Cons addr addrs)
  let ?k = "jd_tried j"
  obtain r1 m1 where pp: "pushPullWithNode E (jo_clock io ?k) (jo_rnd io ?k) (jo_nonce io ?k) (jo_usr io ?k) (jo_dial io ?k (joinHostPort (IP_String addr) port)) m = Some (r1, m1)"
    using Cons.prems by (auto simp: Let_def split: option.splits)
  with Cons have "sections E m1 m'" by (cases r1) (auto simp: Let_def)
  with pushPullWithNode_sections [OF pp] show ?case by (rule rtranclp_trans)
qed simp

lemma joinLoop_sections: "joinLoop E io existing j m = Some (r, m') \<Longrightarrow> sections E m m'"
proof (induction existing arbitrary: j m)
  case (Cons h existing)
  show ?case
  proof (cases "ResolveAddr (jo_resolver io) h (c_DNSConfigPath (m_config m))")
    case (Ok a)
    with Cons.prems obtain port addrs r1 m1 where ja: "joinAddrs E io port addrs j m = Some (r1, m1)"
      "case r1 of Ok j1 \<Rightarrow> joinLoop E io existing j1 m1 = Some (r, m') | _ \<Rightarrow> m' = m1"
      by (cases a) (fastforce simp: Let_def split: option.splits outcome.splits)
    with Cons.IH have "sections E m1 m'" by (cases r1) auto
    with joinAddrs_sections [OF ja(1)] show ?thesis by (rule rtranclp_trans)
  qed (use Cons in auto)
qed simp

lemma Join_sections: "Join E io existing m = Some (r, m') \<Longrightarrow> sections E m m'"
  by (auto simp: Join_def Let_def split: option.splits outcome.splits dest: joinLoop_sections)

lemma Leave_sections:
  assumes "Leave E now ch notified m = Some (r, m')"
  shows "sections E m m'"
proof -
  have l: "sections E m (m\<lparr>m_left := True\<rparr>)" by (auto intro: leaving)
  from assms consider "m' = m" | "m' = m\<lparr>m_left := True\<rparr>" | d where "deadNode E now d (Some ch) (m\<lparr>m_left := True\<rparr>) = Some m'"
    by (auto simp: Leave_def Let_def split: if_splits option.splits)
  then show ?thesis
  proof cases
    case 3
    then have "sections E (m\<lparr>m_left := True\<rparr>) m'" by (intro handle_sections [of _ "InDead now d (Some ch)"]) simp
    with l show ?thesis by (rule rtranclp_trans)
  qed (use l in simp_all)
qed

lemma UpdateTags_sections:
  assumes "UpdateTags E now rnd ch notified tags m = (r, m')"
  shows "sections E m m'"
proof -
  have c: "core (snd (nextLiveNo m)) = core m" by (simp add: nextLiveNo_def core_def Let_def)
  from assms consider "m' = m" | "m' = snd (nextLiveNo m)"
    | a where "handle E (InAlive now rnd a (Some ch)) (snd (nextLiveNo m)) = Some m'"
    by (auto simp: UpdateTags_def Let_def split: if_splits option.splits prod.splits)
  then show ?thesis
  proof cases
    case 3
    from sections_via [OF c handle_sections [OF 3] refl] show ?thesis .
  qed (simp_all add: frame_sections c)
qed

theorem node_step_sections: "node_step E m m' \<Longrightarrow> sections E m m'"
proof (induction rule: node_step.induct)
  case (suspicion_timer now i l m m')
  then show ?case by (intro handle_sections [of _ "InTimeout now i l"]) simp
next
  case (reap_task m clock js)
  then show ?case by (auto intro: reaping)
qed (auto intro: handlePacket_core handleTcpConn_sections drainLongRun_sections probe_sections gossip_core
    pushPull_sections Join_sections Leave_sections UpdateTags_sections frame_sections
    dest: Ping_frame probe_core sendUdp_frame send_core simp: core_def SendUserMsg_def)


section \<open>Every reachable state\<close>

lemma reaches_sections: "reaches E m m' \<Longrightarrow> sections E m m'"
  unfolding reaches_def by (induction rule: rtranclp_induct) (auto dest: node_step_sections intro: rtranclp_trans)

lemma reaches_wf: "reaches E m m' \<Longrightarrow> member_wf m \<Longrightarrow> member_wf m' \<and> m_config m' = m_config m"
  using reaches_sections sections_wf by blast

text \<open>A node that left: its own entry is not active any more, and no section brings it back.\<close>

definition gone :: "'h Memberlist \<Rightarrow> bool" where
  "gone m \<longleftrightarrow> m_left m \<and> (\<forall>n. lookup m (ID m) = Some n \<longrightarrow> ns_State n = StateLeft)"

lemma own_entry_missing:
  assumes wf: "member_wf m" and left: "m_left m" and n: "lookup m (ID m) = None" and h: "handle E x m = Some m'"
  shows "lookup m' (ID m) = None \<and> m_left m'"
proof -
  have dead: "lookup m2 (ID m) = None" if "deadNode E now d notify m = Some m2" for now d notify m2
    using deadNode_view_wf [OF wf, of E now d notify] that left n by (auto simp: accused_def dead_spec_def split: option.splits if_splits)
  have "lookup m' (ID m) = None"
  proof (cases x)
    case (InAlive now rnd a notify)
    then have "lookup m' = (if admits m a then alive_spec now a (lookup m) else lookup m)"
      using h aliveNode_view_wf(1) [OF wf] by auto
    then show ?thesis using left n by (auto simp: admits_def alive_spec_def split: option.splits)
  next
    case (InSuspect now s)
    with h suspectNode_view_wf [OF wf, of E now s] n show ?thesis
      by (auto simp: accused_def suspect_spec_def split: option.splits if_splits)
  next
    case (InDead now d notify)
    with h dead show ?thesis by simp
  next
    case (InTimeout now i l)
    with h dead n show ?thesis by (auto simp: timeoutFn_def Let_def split: option.splits if_splits)
  qed
  moreover have "m_left m'" using h left by (cases x) (auto simp: suspectNode_frame deadNode_frame timeoutFn_frame)
  ultimately show ?thesis by simp
qed

lemma section_step_gone:
  assumes "section_step E m m'" and wf: "member_wf m" and g: "gone m"
  shows "gone m'"
proof -
  have id: "ID m' = ID m" using section_step_wf [OF assms(1,2)] by (simp add: ID_def)
  show ?thesis
    using assms(1)
  proof cases
    case outside
    from core_facts(2,4) [OF this] g id show ?thesis by (simp add: gone_def)
  next
    case (critical x)
    show ?thesis
    proof (cases "lookup m (ID m)")
      case None
      with own_entry_missing [OF wf _ None critical] g id show ?thesis by (simp add: gone_def)
    next
      case (Some n)
      with left_stays [OF wf _ Some _ critical] g id show ?thesis by (simp add: gone_def DeadOrLeft_def)
    qed
  next
    case (reaping clock js)
    have t: "table_wf m" using wf by (simp add: member_wf_def)
    have "lookup m' (ID m) = Some n \<Longrightarrow> lookup m (ID m) = Some n" for n
      unfolding reaping lookup_reap [OF t] by (auto simp: lookup_def split: option.splits if_splits)
    with reaping g id show ?thesis by (auto simp: gone_def)
  next
    case leaving
    with g show ?thesis by (simp add: gone_def lookup_def ID_def)
  qed
qed

lemma reaches_gone: "reaches E m m' \<Longrightarrow> member_wf m \<Longrightarrow> gone m \<Longrightarrow> gone m'"
proof (drule reaches_sections)
  assume "sections E m m'" "member_wf m" "gone m"
  then have "member_wf m' \<and> gone m'"
    by (induction rule: rtranclp_induct) (auto dest: section_step_wf section_step_gone)
  then show ?thesis by simp
qed

text \<open>The receive loops only take steps of the node.\<close>

lemma receivePacket_reaches: "receivePacket E rs m = Some (Ok m') \<Longrightarrow> reaches E m m'"
proof (induction E rs m rule: receivePacket.induct)
  case (2 E hio p rs m)
  then obtain m1 where m1: "handlePacket E hio (pk_Buf p) (pk_From p) (pk_Timestamp p) m = Some (Ok m1)"
    "receivePacket E rs m1 = Some (Ok m')" by (auto split: option.splits outcome.splits)
  with 2(1) have "reaches E m1 m'" by blast
  with packet [OF m1(1)] show ?case unfolding reaches_def by (rule converse_rtranclp_into_rtranclp)
qed (auto simp: reaches_def)

lemma runLongRunMsgHandler_reaches: "runLongRunMsgHandler E rs m = Some m' \<Longrightarrow> reaches E m m'"
proof (induction E rs m rule: runLongRunMsgHandler.induct)
  case (2 E clock rnd rs m)
  then obtain m1 where m1: "drainLongRun E clock rnd 0 m = Some m1" "runLongRunMsgHandler E rs m1 = Some m'"
    by (auto split: option.splits)
  with 2(1) have "reaches E m1 m'" by blast
  with long_run [OF m1(1)] show ?case unfolding reaches_def by (rule converse_rtranclp_into_rtranclp)
qed (auto simp: reaches_def)

end
