(* ===== verification/Honest.thy ===== *)
theory Honest
  imports Running
begin

text \<open>
  A cluster whose nodes all run this code: every membership message, and every entry that a node
  merges or acts on, stems from a node of the cluster, at any earlier time. The steps are the critical
  sections of \<^verbatim>\<open>src/state.go\<close>, so handlers of different nodes and of one node interleave freely;
  messages may be lost, repeated and reordered. A node takes no step once its counter of lives or of
  broadcasts would wrap.

  In such a cluster the number of lives of a node is its own: nobody knows or says a larger one. So no
  accusation blocks a node, and a refutation convinces everybody it reaches.
\<close>

section \<open>What a handler adds\<close>

fun about :: "input \<Rightarrow> (string \<times> u32) option" where
  "about (InAlive now rnd a notify) = Some (a_ID a, a_Lives a)"
| "about (InSuspect now s) = Some (s_ID s, s_Lives s)"
| "about (InDead now d notify) = Some (d_ID d, d_Lives d)"
| "about (InTimeout now i l) = None"

fun claim :: "payload \<Rightarrow> (msgType \<times> string \<times> u32) option" where
  "claim (P_alive a) = Some (aliveMsg, a_ID a, a_Lives a)"
| "claim (P_suspect s) = Some (suspectMsg, s_ID s, s_Lives s)"
| "claim (P_dead d) = Some (deadMsg, d_ID d, d_Lives d)"
| "claim _ = None"

text \<open>The queue after a handler: unchanged, or with one more message that makes one of the given claims.\<close>

definition queues :: "'h env \<Rightarrow> (string \<times> u32) set \<Rightarrow> 'h Memberlist \<Rightarrow> 'h Memberlist \<Rightarrow> bool" where
  "queues E S m m' \<longleftrightarrow> m_mbroadcasts m' = m_mbroadcasts m
     \<or> (\<exists>name t p notify c. claim p = Some (t, c) \<and> c \<in> S
          \<and> m_mbroadcasts m' = QueueMsg (e_codec E) (e_heap E) name t p notify (m_mbroadcasts m))"

text \<open>
  What a node knows and says afterwards: what it knew, what the input claims, and its own number of
  lives, which grows by one if it refutes.
\<close>

definition advances :: "'h env \<Rightarrow> string \<times> u32 \<Rightarrow> 'h Memberlist \<Rightarrow> 'h Memberlist \<Rightarrow> bool" where
  "advances E c m m' \<longleftrightarrow> m_lives m' \<in> {m_lives m, m_lives m + 1}
     \<and> (\<forall>i n'. lookup m' i = Some n' \<longrightarrow>
          (\<exists>n. lookup m i = Some n \<and> ns_Lives n' = ns_Lives n) \<or> (i, ns_Lives n') \<in> {c, (ID m, m_lives m')})
     \<and> queues E {c, (ID m, m_lives m')} m m'"

lemma queues_keep: "m_mbroadcasts m' = m_mbroadcasts m \<Longrightarrow> queues E S m m'"
  by (simp add: queues_def)

lemma queues_say:
  "claim p = Some (t, c) \<Longrightarrow> c \<in> S \<Longrightarrow> m_mbroadcasts m0 = m_mbroadcasts m
   \<Longrightarrow> m_mbroadcasts m' = m_mbroadcasts (broadcast E name t p notify m0) \<Longrightarrow> queues E S m m'"
  unfolding queues_def broadcast_def
  by (rule disjI2, rule exI [of _ name], rule exI [of _ t], rule exI [of _ p], rule exI [of _ notify], rule exI [of _ c]) simp

lemma queues_mono: "queues E S m m' \<Longrightarrow> S \<subseteq> T \<Longrightarrow> queues E T m m'"
  unfolding queues_def by blast

lemma broadcasts_simps [simp]:
  "m_mbroadcasts (send e m) = m_mbroadcasts m" "m_mbroadcasts (NotifyJoin n m) = m_mbroadcasts m"
  "m_mbroadcasts (NotifyUpdate n m) = m_mbroadcasts m" "m_mbroadcasts (NotifyLeave n m) = m_mbroadcasts m"
  "m_mbroadcasts (announce j u n m) = m_mbroadcasts m" "m_mbroadcasts (addNode rnd node m) = m_mbroadcasts m"
  "m_mbroadcasts (updNode i p node sc m) = m_mbroadcasts m"
  by (simp_all add: send_def NotifyJoin_def NotifyUpdate_def NotifyLeave_def announce_def addNode_def updNode_def setNode_def Let_def)

lemma aliveNode_queues: "queues E {(a_ID a, a_Lives a)} m (aliveNode E now rnd a notify m)"
proof (cases "admits m a")
  case True
  show ?thesis
  proof (cases "m_nodeMap m (a_ID a)")
    case None
    show ?thesis
      by (rule queues_say [of "P_alive a"]) (simp_all add: aliveNode_new [OF True None])
  next
    case (Some p)
    show ?thesis
    proof (cases "a_Lives a \<le> ns_Lives (m_store m p)")
      case stale: True
      with Some show ?thesis by (intro queues_keep) (simp add: aliveNode_stale lookup_def)
    next
      case False
      then have "ns_Lives (m_store m p) < a_Lives a" by simp
      then show ?thesis
        by (intro queues_say [of "P_alive a"]) (simp_all add: aliveNode_old [OF True Some])
    qed
  qed
qed (simp add: aliveNode_ignored queues_keep)

lemma refuted_queues:
  assumes "n_ID (ns_Node (m_store m p)) = i"
  shows "queues E {(i, l)} m (refuted E p l m)"
  unfolding refuted_def Let_def using assms by (rule_tac queues_say [OF _ _ _ refl]) (simp_all add: setNode_def)

lemma refuteNo_own: "l \<le> own \<Longrightarrow> own \<noteq> - 1 \<Longrightarrow> refuteNo l own = own + 1"
  using word_less_succ [of own] by (auto simp: refuteNo_def)

lemma refute_advances:
  assumes wf: "member_wf m" and p: "m_nodeMap m (ID m) = Some p" "ns_State (m_store m p) = StateAlive"
    and l: "l \<le> m_lives m" "m_lives m \<noteq> - 1" and r: "refute E p l m = Some m'"
  shows "advances E c m m' \<and> m_lives m' = m_lives m + 1"
proof -
  have m': "m' = refuted E p (m_lives m + 1) m" using r refuteNo_own [OF l] by (auto simp: refute_eq split: if_splits)
  have i: "n_ID (ns_Node (m_store m p)) = ID m"
    using wf p by (auto simp: member_wf_def table_wf_def nid_def)
  have v: "lookup m' = refute_spec (ID m) (m_lives m + 1) (lookup m)" using refuted_view_wf(1) [OF wf p] m' by simp
  have q: "queues E {c, (ID m, m_lives m + 1)} m m'"
    using refuted_queues [OF i, of E "m_lives m + 1"] m' unfolding queues_def by fastforce
  show ?thesis using v q m' by (auto simp: advances_def refute_spec_def split: option.splits if_splits)
qed


lemma aliveNode_advances:
  assumes "member_wf m"
  shows "advances E (a_ID a, a_Lives a) m (aliveNode E now rnd a notify m)"
  using aliveNode_view_wf(1) [OF assms, of E now rnd a notify] queues_mono [OF aliveNode_queues [of E a m now rnd notify], of "{(a_ID a, a_Lives a), (ID m, m_lives m)}"]
  by (auto simp: advances_def alive_spec_def split: option.splits if_splits)

lemma suspectNode_advances:
  assumes wf: "member_wf m" and l: "s_ID s = ID m \<Longrightarrow> s_Lives s \<le> m_lives m" "m_lives m \<noteq> - 1"
    and r: "suspectNode E now s m = Some m'"
  shows "advances E (s_ID s, s_Lives s) m m'"
proof (cases "m_nodeMap m (s_ID s)")
  case None
  with r show ?thesis by (simp add: suspectNode_def advances_def queues_keep)
next
  case (Some p)
  let ?n = "m_store m p"
  have look: "lookup m (s_ID s) = Some ?n" using Some by (simp add: lookup_def)
  show ?thesis
  proof (cases "s_Lives s < ns_Lives ?n \<or> DeadOrLeft ?n")
    case True
    then have "m' = m" using r suspectNode_ignored(2) [OF look] suspectNode_dead [OF wf look] by auto
    then show ?thesis by (simp add: advances_def queues_keep)
  next
    case False
    then have le: "ns_Lives ?n \<le> s_Lives s" by auto
    show ?thesis
    proof (cases "m_suspicions m (s_ID s)")
      case sc: (Some sc)
      then have m': "m' = confirmed E now s sc m" using r suspectNode_confirm [OF Some le sc] by simp
      have "queues E {(s_ID s, s_Lives s)} m m'"
        unfolding m' confirmed_def Let_def
        by (auto split: prod.splits intro: queues_keep intro!: queues_say [of "P_suspect s", OF _ _ _ refl])
      with m' show ?thesis by (auto simp: advances_def intro: queues_mono)
    next
      case sc: None
      show ?thesis
      proof (cases "ns_State ?n = StateAlive")
        case False
        with r Some le sc have "m' = m" by (auto simp: suspectNode_def Let_def split: if_splits)
        then show ?thesis by (simp add: advances_def queues_keep)
      next
        case alive: True
        show ?thesis
        proof (cases "s_ID s = ID m")
          case True
          then have "refute E p (s_Lives s) m = Some m'" using r suspectNode_local [OF Some le sc alive] by simp
          with refute_advances [OF wf _ alive l(1) l(2)] True Some show ?thesis by simp
        next
          case other: False
          have m': "m' = broadcast E (s_ID s) suspectMsg (P_suspect s) None
              (updNode (s_ID s) p (suspected now (s_Lives s) ?n) (Some (firstSuspicion E now s m)) m)"
            using r suspectNode_first [OF Some le sc alive other] by simp
          have "queues E {(s_ID s, s_Lives s)} m m'"
            unfolding m' by (rule queues_say [OF _ _ _ refl]) simp_all
          moreover have "lookup m' = (lookup m)(s_ID s \<mapsto> suspected now (s_Lives s) ?n)" "m_lives m' = m_lives m"
            using m' lookup_updNode [OF wf Some] by (auto simp: broadcast_def lookup_def fun_eq_iff)
          ultimately show ?thesis by (auto simp: advances_def intro: queues_mono split: if_splits)
        qed
      qed
    qed
  qed
qed


lemma deadNode_advances:
  assumes wf: "member_wf m" and l: "d_ID d = ID m \<Longrightarrow> d_Lives d \<le> m_lives m" "m_lives m \<noteq> - 1"
    and r: "deadNode E now d notify m = Some m'"
  shows "advances E (d_ID d, d_Lives d) m m'"
proof (cases "m_nodeMap m (d_ID d)")
  case None
  with r show ?thesis by (simp add: deadNode_def advances_def queues_keep)
next
  case (Some p)
  let ?n = "m_store m p"
  have look: "lookup m (d_ID d) = Some ?n" using Some by (simp add: lookup_def)
  show ?thesis
  proof (cases "d_Lives d < ns_Lives ?n \<or> DeadOrLeft ?n")
    case True
    then have "m' = m" using r deadNode_ignored(2) [OF look True] by simp
    then show ?thesis by (simp add: advances_def queues_keep)
  next
    case False
    then have le: "ns_Lives ?n \<le> d_Lives d" "\<not> DeadOrLeft ?n" by auto
    show ?thesis
    proof (cases "d_ID d = ID m \<and> \<not> m_left m")
      case True
      then have "ns_State ?n = StateAlive" using wf look by (auto simp: member_wf_def local_wf_def)
      moreover have "refute E p (d_Lives d) m = Some m'" using r deadNode_local [OF Some le] True by simp
      ultimately show ?thesis using refute_advances [OF wf _ _ l(1) l(2)] True Some by simp
    next
      case other: False
      then have m': "m' = NotifyLeave (ns_Node ?n) (broadcast E (d_ID d) deadMsg (P_dead d) notify (updNode (d_ID d) p (buried now d ?n) None m))"
        using r deadNode_bury [OF Some le] by auto
      have "queues E {(d_ID d, d_Lives d)} m m'"
        by (rule queues_say [of "P_dead d" _ _ _ "updNode (d_ID d) p (buried now d ?n) None m"]) (simp_all add: m')
      moreover have "lookup m' = (lookup m)(d_ID d \<mapsto> buried now d ?n)" "m_lives m' = m_lives m"
        using m' lookup_updNode [OF wf Some] by (auto simp: broadcast_def NotifyLeave_def send_def lookup_def fun_eq_iff Let_def)
      ultimately show ?thesis by (auto simp: advances_def intro: queues_mono split: if_splits)
    qed
  qed
qed

lemma handle_advances:
  assumes "member_wf m" and "about x = Some c" and "fst c = ID m \<Longrightarrow> snd c \<le> m_lives m" and "m_lives m \<noteq> - 1"
    and "handle E x m = Some m'"
  shows "advances E c m m'"
  using assms by (cases x) (auto intro: aliveNode_advances suspectNode_advances deadNode_advances)

section \<open>The cluster\<close>

text \<open>
  The nodes by their ID, every message that was in a node's queue, and every entry that was in a
  node's list. \<open>news\<close> are the messages in a node's queue.
\<close>

record 'h cluster =
  cl_node :: "string \<Rightarrow> 'h Memberlist"
  cl_wire :: "bytes set"
  cl_known :: "stateToMerge set"

definition news :: "('h \<Rightarrow> TransmitCapItem set) \<Rightarrow> 'h Memberlist \<Rightarrow> bytes set" where
  "news elems m = t_msg ` elems (q_queue (m_mbroadcasts m))"

definition become :: "('h \<Rightarrow> TransmitCapItem set) \<Rightarrow> string \<Rightarrow> 'h Memberlist \<Rightarrow> 'h cluster \<Rightarrow> 'h cluster" where
  "become elems j m c = \<lparr>cl_node = (cl_node c)(j := m), cl_wire = cl_wire c \<union> news elems m,
     cl_known = cl_known c \<union> set (localState m)\<rparr>"

definition able :: "'h Memberlist \<Rightarrow> bool" where
  "able m \<longleftrightarrow> m_lives m \<noteq> - 1 \<and> q_idSeq (m_mbroadcasts m) \<noteq> - 1"

inductive cluster_step :: "'h env \<Rightarrow> ('h \<Rightarrow> bool) \<Rightarrow> ('h \<Rightarrow> TransmitCapItem set) \<Rightarrow> 'h cluster \<Rightarrow> 'h cluster \<Rightarrow> bool"
  for E :: "'h env" and hinv :: "'h \<Rightarrow> bool" and elems :: "'h \<Rightarrow> TransmitCapItem set" where
  message: "m = cl_node c j \<Longrightarrow> able m \<Longrightarrow> tag t # body \<in> cl_wire c
    \<Longrightarrow> handleLongRunMsg E now rnd \<lparr>lm_type = t, lm_msg = body, lm_from = from\<rparr> m = Some m'
    \<Longrightarrow> cluster_step E hinv elems c (become elems j m' c)"
| merge: "m = cl_node c j \<Longrightarrow> able m \<Longrightarrow> r \<in> cl_known c \<Longrightarrow> mergeState E clock rn k [r] m = Some m'
    \<Longrightarrow> cluster_step E hinv elems c (become elems j m' c)"
| probe_failed: "m = cl_node c j \<Longrightarrow> able m \<Longrightarrow> r \<in> cl_known c
    \<Longrightarrow> suspectNode E now \<lparr>s_Lives = r_Lives r, s_ID = r_ID r, s_From = j\<rparr> m = Some m'
    \<Longrightarrow> cluster_step E hinv elems c (become elems j m' c)"
| buries: "m = cl_node c j \<Longrightarrow> able m \<Longrightarrow> r \<in> cl_known c
    \<Longrightarrow> deadNode E now \<lparr>d_Lives = r_Lives r, d_ID = r_ID r, d_Left = l\<rparr> notify m = Some m'
    \<Longrightarrow> cluster_step E hinv elems c (become elems j m' c)"
| starts: "m = cl_node c j \<Longrightarrow> able m \<Longrightarrow> setAlive E io m = (Ok (), m')
    \<Longrightarrow> cluster_step E hinv elems c (become elems j m' c)"
| tags: "m = cl_node c j \<Longrightarrow> able m \<Longrightarrow> UpdateTags E now rnd ch notified new m = (res, m')
    \<Longrightarrow> cluster_step E hinv elems c (become elems j m' c)"
| leaves: "cluster_step E hinv elems c (become elems j ((cl_node c j)\<lparr>m_left := True\<rparr>) c)"
| reaps: "cluster_step E hinv elems c (become elems j (reap reapClock js (cl_node c j)) c)"
| elsewhere: "m = cl_node c j \<Longrightarrow> core m' = core m \<Longrightarrow> m_lives m' = m_lives m
    \<Longrightarrow> queue_wf hinv elems (m_mbroadcasts m') \<Longrightarrow> news elems m' \<subseteq> news elems m
    \<Longrightarrow> cluster_step E hinv elems c (become elems j m' c)"

section \<open>Lives belong to their owner\<close>

abbreviation lives :: "'h cluster \<Rightarrow> string \<Rightarrow> u32" where
  "lives c i \<equiv> m_lives (cl_node c i)"

definition says :: "'h env \<Rightarrow> (string \<Rightarrow> u32) \<Rightarrow> bytes \<Rightarrow> bool" where
  "says E L b \<longleftrightarrow> (\<exists>t p i l. encode (e_codec E) t p = Ok b \<and> claim p = Some (t, i, l) \<and> l \<le> L i)"

definition node_ok :: "('h \<Rightarrow> bool) \<Rightarrow> ('h \<Rightarrow> TransmitCapItem set) \<Rightarrow> string \<Rightarrow> 'h Memberlist \<Rightarrow> bool" where
  "node_ok hinv elems j m \<longleftrightarrow> ID m = j \<and> member_wf m \<and> queue_wf hinv elems (m_mbroadcasts m)"

definition accurate :: "'h env \<Rightarrow> ('h \<Rightarrow> bool) \<Rightarrow> ('h \<Rightarrow> TransmitCapItem set) \<Rightarrow> 'h cluster \<Rightarrow> bool" where
  "accurate E hinv elems c \<longleftrightarrow>
     (\<forall>j. node_ok hinv elems j (cl_node c j) \<and> news elems (cl_node c j) \<subseteq> cl_wire c)
     \<and> (\<forall>j i n. lookup (cl_node c j) i = Some n \<longrightarrow> ns_Lives n \<le> lives c i)
     \<and> (\<forall>b \<in> cl_wire c. says E (lives c) b)
     \<and> (\<forall>r \<in> cl_known c. r_Lives r \<le> lives c (r_ID r))"

lemma accurateD:
  assumes "accurate E hinv elems c"
  shows "node_ok hinv elems j (cl_node c j)" and "news elems (cl_node c j) \<subseteq> cl_wire c"
    and "lookup (cl_node c j) i = Some n \<Longrightarrow> ns_Lives n \<le> lives c i"
    and "b \<in> cl_wire c \<Longrightarrow> says E (lives c) b" and "r \<in> cl_known c \<Longrightarrow> r_Lives r \<le> lives c (r_ID r)"
  using assms unfolding accurate_def by blast+

lemma says_mono: "says E L b \<Longrightarrow> (\<And>i. L i \<le> L' i) \<Longrightarrow> says E L' b"
  unfolding says_def by (meson order_trans)

lemma localState_known:
  assumes "member_wf m" and "r \<in> set (localState m)"
  shows "\<exists>n. lookup m (r_ID r) = Some n \<and> ns_Lives n = r_Lives r"
proof -
  obtain p where p: "p \<in> set (m_nodes m)" "r_ID r = nid m p" "r_Lives r = ns_Lives (m_store m p)"
    using assms(2) by (auto simp: localState_def nodeList_def nid_def)
  then have "m_nodeMap m (nid m p) = Some p" using nodes_lookup [OF assms(1)] by simp
  with p show ?thesis by (simp add: lookup_def)
qed

lemma accurate_become:
  assumes c: "accurate E hinv elems c" and m': "node_ok hinv elems j m'" and up: "lives c j \<le> m_lives m'"
    and view: "\<And>i n. lookup m' i = Some n \<Longrightarrow> ns_Lives n \<le> (if i = j then m_lives m' else lives c i)"
    and new: "\<And>b. b \<in> news elems m' \<Longrightarrow> b \<in> news elems (cl_node c j) \<or> says E (\<lambda>i. if i = j then m_lives m' else lives c i) b"
  shows "accurate E hinv elems (become elems j m' c)"
proof -
  let ?c = "become elems j m' c"
  have node: "cl_node ?c k = (if k = j then m' else cl_node c k)" for k by (simp add: become_def)
  have L: "lives ?c = (\<lambda>i. if i = j then m_lives m' else lives c i)" by (auto simp: node)
  have mono: "lives c i \<le> lives ?c i" for i using up by (simp add: node)
  note D = accurateD [OF c]
  have "node_ok hinv elems k (cl_node ?c k) \<and> news elems (cl_node ?c k) \<subseteq> cl_wire ?c" for k
    using D(1,2) [of k] m' by (auto simp: node become_def)
  moreover have "ns_Lives n \<le> lives ?c i" if "lookup (cl_node ?c k) i = Some n" for k i n
  proof (cases "k = j")
    case True
    with view [of i n] that show ?thesis unfolding L by (auto simp: node split: if_splits)
  next
    case False
    with that have "lookup (cl_node c k) i = Some n" by (simp add: node)
    from order_trans [OF D(3) [OF this] mono] show ?thesis .
  qed
  moreover have "says E (lives ?c) b" if "b \<in> cl_wire ?c" for b
    using that new [of b] D(2) [of j] says_mono [OF D(4) mono] unfolding L [symmetric] by (auto simp: become_def)
  moreover have "r_Lives r \<le> lives ?c (r_ID r)" if r: "r \<in> cl_known ?c" for r
  proof (cases "r \<in> cl_known c")
    case True
    with D(5) mono show ?thesis by (blast intro: order_trans)
  next
    case False
    then have "r \<in> set (localState m')" using r by (simp add: become_def)
    then obtain n where "lookup m' (r_ID r) = Some n" "ns_Lives n = r_Lives r"
      using localState_known m' unfolding node_ok_def by blast
    with view [of "r_ID r" n] show ?thesis by (simp add: node split: if_splits)
  qed
  ultimately show ?thesis unfolding accurate_def by blast
qed

context net_env
begin

lemma news_queues:
  assumes "queue_wf hinv elems (m_mbroadcasts m)" and "q_idSeq (m_mbroadcasts m) \<noteq> - 1" and "queues E S m m'"
  shows "queue_wf hinv elems (m_mbroadcasts m')"
    and "b \<in> news elems m' \<Longrightarrow> b \<in> news elems m \<or> (\<exists>t p c. encode (e_codec E) t p = Ok b \<and> claim p = Some (t, c) \<and> c \<in> S)"
proof -
  from assms(3) consider "m_mbroadcasts m' = m_mbroadcasts m" | name t p notify c where "claim p = Some (t, c)" "c \<in> S"
      "m_mbroadcasts m' = QueueMsg (e_codec E) (e_heap E) name t p notify (m_mbroadcasts m)"
    unfolding queues_def by blast
  then have "queue_wf hinv elems (m_mbroadcasts m') \<and> (b \<in> news elems m' \<longrightarrow> b \<in> news elems m
      \<or> (\<exists>t p c. encode (e_codec E) t p = Ok b \<and> claim p = Some (t, c) \<and> c \<in> S))" for b
  proof cases
    case 1
    with assms(1) show ?thesis by (simp add: news_def)
  next
    case 2
    show ?thesis
    proof (cases "encode (e_codec E) t p")
      case (Ok x)
      have "news elems m' \<subseteq> insert x (news elems m)"
        using QueueMsg_spec(2) [OF assms(1,2) Ok, of name notify] 2(3) by (auto simp: news_def)
      with QueueMsg_spec(1) [OF assms(1,2)] 2 Ok show ?thesis by (simp only:) blast
    qed (use assms(1) 2 in \<open>auto simp: news_def QueueMsg_def\<close>)
  qed
  then show "queue_wf hinv elems (m_mbroadcasts m')"
    and "b \<in> news elems m' \<Longrightarrow> b \<in> news elems m \<or> (\<exists>t p c. encode (e_codec E) t p = Ok b \<and> claim p = Some (t, c) \<and> c \<in> S)"
    by blast+
qed

text \<open>A handler that runs on \<open>m0\<close>, the node after it may have drawn a number of lives.\<close>

lemma accurate_advances:
  assumes c: "accurate E hinv elems c" and m0: "core m0 = core (cl_node c j)" "m_mbroadcasts m0 = m_mbroadcasts (cl_node c j)"
    and id: "q_idSeq (m_mbroadcasts m0) \<noteq> - 1" and up: "lives c j \<le> m_lives m0" "m_lives m0 \<le> m_lives m'"
    and adv: "advances E (i, l) m0 m'" and ok: "member_wf m'" "ID m' = j"
    and l: "l \<le> (if i = j then m_lives m0 else lives c i)"
  shows "accurate E hinv elems (become elems j m' c)"
proof -
  let ?L = "\<lambda>i. if i = j then m_lives m' else lives c i"
  note D = accurateD [OF c]
  have j: "ID m0 = j" "queue_wf hinv elems (m_mbroadcasts m0)" "lookup m0 = lookup (cl_node c j)"
    using D(1) [of j] m0 core_facts(2,3) [OF m0(1)] by (auto simp: node_ok_def ID_def)
  have l': "l \<le> ?L i" using l up(2) by (auto split: if_splits)
  have q: "queues E {(i, l), (j, m_lives m')} m0 m'" using adv j(1) by (simp add: advances_def)
  note n = news_queues [OF j(2) id q]
  show ?thesis
  proof (rule accurate_become [OF c])
    show "node_ok hinv elems j m'" using ok n(1) by (simp add: node_ok_def)
    show "lives c j \<le> m_lives m'" using up by simp
    show "ns_Lives n' \<le> ?L k" if k: "lookup m' k = Some n'" for k n'
    proof -
      from adv k j consider n where "lookup (cl_node c j) k = Some n" "ns_Lives n' = ns_Lives n"
        | "(k, ns_Lives n') = (i, l)" | "(k, ns_Lives n') = (j, m_lives m')"
        unfolding advances_def by (metis insertE singletonD)
      then show ?thesis
      proof cases
        case 1
        with D(3) [OF 1(1)] up show ?thesis by (auto intro: order_trans)
      qed (use l' in auto)
    qed
    show "b \<in> news elems (cl_node c j) \<or> says E ?L b" if "b \<in> news elems m'" for b
      using n(2) [OF that] m0(2) l' unfolding says_def news_def by fastforce
  qed
qed

lemma accurate_handle:
  assumes c: "accurate E hinv elems c" and able: "able (cl_node c j)" and x: "about x = Some (i, l)" "l \<le> lives c i"
    and h: "handle E x (cl_node c j) = Some m'"
  shows "accurate E hinv elems (become elems j m' c)"
proof -
  note D = accurateD(1) [OF c, of j, unfolded node_ok_def]
  have wf: "member_wf m'" "ID m' = j" using hi.keeps_wf [OF _ h] hi.keeps_config [OF h] D by (auto simp: ID_def)
  have adv: "advances E (i, l) (cl_node c j) m'"
    by (rule handle_advances [OF _ x(1) _ _ h]) (use D x(2) able in \<open>auto simp: able_def\<close>)
  have up: "lives c j \<le> m_lives m'"
    using adv able word_less_succ [of "lives c j"] by (auto simp: advances_def able_def)
  show ?thesis
    by (rule accurate_advances [OF c refl refl _ _ up adv wf]) (use able x(2) in \<open>auto simp: able_def\<close>)
qed

lemma accurate_lives:
  assumes c: "accurate E hinv elems c" and able: "able (cl_node c j)" and a: "a_ID a = j" "a_Lives a = lives c j + 1"
  shows "accurate E hinv elems (become elems j (aliveNode E now rnd a notify ((cl_node c j)\<lparr>m_lives := lives c j + 1\<rparr>)) c)"
proof -
  let ?m0 = "(cl_node c j)\<lparr>m_lives := lives c j + 1\<rparr>"
  note D = accurateD(1) [OF c, of j, unfolded node_ok_def]
  have m0: "core ?m0 = core (cl_node c j)" "m_mbroadcasts ?m0 = m_mbroadcasts (cl_node c j)" by (simp_all add: core_def)
  have wf: "member_wf ?m0" using core_facts(1) [OF m0(1)] D by simp
  have adv: "advances E (j, lives c j + 1) ?m0 (aliveNode E now rnd a notify ?m0)"
    using aliveNode_advances [OF wf, of E a now rnd notify] a by simp
  show ?thesis
    by (rule accurate_advances [OF c m0 _ _ _ adv])
       (use able D aliveNode_view_wf(2) [OF wf] word_less_succ [of "lives c j"] in \<open>auto simp: able_def ID_def\<close>)
qed

lemma accurate_frame:
  assumes c: "accurate E hinv elems c" and m': "member_wf m'" "ID m' = j" "m_lives m' = lives c j"
    and view: "\<And>i n. lookup m' i = Some n \<Longrightarrow> lookup (cl_node c j) i = Some n"
    and q: "queue_wf hinv elems (m_mbroadcasts m')" "news elems m' \<subseteq> news elems (cl_node c j)"
  shows "accurate E hinv elems (become elems j m' c)"
proof (rule accurate_become [OF c])
  show "ns_Lives n \<le> (if i = j then m_lives m' else lives c i)" if "lookup m' i = Some n" for i n
    using accurateD(3) [OF c view [OF that]] m'(3) by (cases "i = j") simp_all
qed (use m' q in \<open>auto simp: node_ok_def\<close>)

lemma accurate_same: "accurate E hinv elems c \<Longrightarrow> accurate E hinv elems (become elems j (cl_node c j) c)"
  using accurateD(1) [of E hinv elems c j] by (intro accurate_frame) (auto simp: node_ok_def)

lemma accurate_bump:
  assumes c: "accurate E hinv elems c" and able: "able (cl_node c j)"
  shows "accurate E hinv elems (become elems j ((cl_node c j)\<lparr>m_lives := lives c j + 1\<rparr>) c)"
proof -
  let ?m = "(cl_node c j)\<lparr>m_lives := lives c j + 1\<rparr>"
  have core: "core ?m = core (cl_node c j)" by (simp add: core_def)
  have less: "lives c j \<le> lives c j + 1" using able word_less_succ [of "lives c j"] by (simp add: able_def)
  show ?thesis
  proof (rule accurate_become [OF c])
    show "ns_Lives n \<le> (if i = j then m_lives ?m else lives c i)" if "lookup ?m i = Some n" for i n
      using accurateD(3) [OF c, of j i n] that core_facts(2) [OF core] less by (cases "i = j") auto
  qed (use less accurateD(1) [OF c, of j] core_facts [OF core] in \<open>auto simp: node_ok_def ID_def news_def\<close>)
qed

lemma says_input:
  assumes "says E L (tag t # body)" and "longRunInput E cfg now rnd \<lparr>lm_type = t, lm_msg = body, lm_from = from\<rparr> = Some x"
  shows "\<exists>i l. about x = Some (i, l) \<and> l \<le> L i"
proof -
  obtain t' p i l where p: "encode (e_codec E) t' p = Ok (tag t # body)" "claim p = Some (t', i, l)" "l \<le> L i"
    using assms(1) unfolding says_def by blast
  have t: "t' = t" using p(1) by (auto simp: encode_Ok)
  show ?thesis
  proof (cases p)
    case (P_alive a)
    with p t assms(2) decode_alive [of t' a "tag t # body"] show ?thesis by (auto simp: longRunInput_def split: if_splits)
  next
    case (P_suspect s)
    with p t assms(2) decode_suspect [of t' s "tag t # body"] show ?thesis by (auto simp: longRunInput_def split: if_splits)
  next
    case (P_dead d)
    with p t assms(2) decode_dead [of t' d "tag t # body"] show ?thesis by (auto simp: longRunInput_def split: if_splits)
  qed (use p(2) in simp_all)
qed

theorem cluster_step_accurate:
  assumes "cluster_step E hinv elems c c'" and c: "accurate E hinv elems c"
  shows "accurate E hinv elems c'"
  using assms(1)
proof cases
  case (message m j t body now rnd "from" m')
  show ?thesis
  proof (cases "longRunInput E (m_config m) now rnd \<lparr>lm_type = t, lm_msg = body, lm_from = from\<rparr>")
    case (Some x)
    then obtain i l where "about x = Some (i, l)" "l \<le> lives c i"
      using says_input [OF accurateD(4) [OF c message(4)]] by blast
    with accurate_handle [OF c] message Some show ?thesis by (simp add: handleLongRunMsg_eq)
  next
    case None
    then have "m' = (if t = userMsg then handleUser body m else m)" using message by (auto simp: handleLongRunMsg_eq split: if_splits)
    then have "core m' = core m" "m_lives m' = m_lives m" "m_mbroadcasts m' = m_mbroadcasts m"
      by (auto simp: handleUser_def core_def)
    with message accurateD(1) [OF c, of j] core_facts [of m' m] show ?thesis
      unfolding message(1) by (intro accurate_frame [OF c]) (auto simp: node_ok_def ID_def news_def)
  qed
next
  case (merge m j r clock rn k m')
  have h: "runOps (handle E) (mergeInputs (ID m) clock rn k [r]) m = Some m'" using merge(5) by (simp add: mergeState_history)
  show ?thesis
  proof (cases "mergeInput (ID m) (clock k) (rn k) r")
    case None
    with h have "m' = m" by simp
    with merge(1,2) accurate_same [OF c, of j] show ?thesis by simp
  next
    case (Some x)
    have "about x = Some (r_ID r, r_Lives r)" using Some by (auto simp: mergeInput.simps split: StateType.splits)
    moreover have "handle E x m = Some m'" using h Some by (simp split: option.splits)
    ultimately show ?thesis using accurate_handle [OF c] merge accurateD(5) [OF c merge(4)] by blast
  qed
next
  case (probe_failed m j r now m')
  with accurate_handle [OF c, of j "InSuspect now \<lparr>s_Lives = r_Lives r, s_ID = r_ID r, s_From = j\<rparr>"] accurateD(5) [OF c probe_failed(4)]
  show ?thesis by simp
next
  case (buries m j r now l notify m')
  with accurate_handle [OF c, of j "InDead now \<lparr>d_Lives = r_Lives r, d_ID = r_ID r, d_Left = l\<rparr> notify"] accurateD(5) [OF c buries(4)]
  show ?thesis by simp
next
  case (starts m j io m')
  with accurateD(1) [OF c, of j] accurate_lives [OF c, of j] show ?thesis
    by (auto simp: setAlive_def nextLiveNo_def Let_def node_ok_def split: if_splits outcome.splits)
next
  case (tags m j now rnd ch notified new res m')
  have id: "ID m = j" using tags(2) accurateD(1) [OF c, of j] by (simp add: node_ok_def)
  show ?thesis
  proof (cases "TagMaxSize < length new")
    case True
    then have "m' = m" using tags(4) by (simp add: UpdateTags_def)
    with tags(1,2) accurate_same [OF c, of j] show ?thesis by simp
  next
    case small: False
    show ?thesis
    proof (cases "m_nodeMap m (ID m)")
      case None
      then have "m' = m\<lparr>m_lives := m_lives m + 1\<rparr>" using tags(4) small by (simp add: UpdateTags_def nextLiveNo_def Let_def)
      with tags(1-3) accurate_bump [OF c, of j] show ?thesis by simp
    next
      case (Some p)
      then have "m' = aliveNode E now rnd \<lparr>a_Lives = m_lives m + 1, a_ID = j, a_IP = n_IP (ns_Node (m_store m p)),
          a_Port = n_Port (ns_Node (m_store m p)), a_Tags = new\<rparr> (Some ch) (m\<lparr>m_lives := m_lives m + 1\<rparr>)"
        using tags(4) small id by (simp add: UpdateTags_def nextLiveNo_def Let_def)
      with tags(1-3) accurate_lives [OF c, of j] show ?thesis by simp
    qed
  qed
next
  case (leaves j)
  show ?thesis
    unfolding leaves using accurateD(1) [OF c, of j] member_wf_left
    by (intro accurate_frame [OF c]) (auto simp: node_ok_def ID_def lookup_def news_def)
next
  case (reaps j clock js)
  let ?m = "reap clock js (cl_node c j)"
  note D = accurateD(1) [OF c, of j, unfolded node_ok_def]
  have t: "table_wf (cl_node c j)" using D by (simp add: member_wf_def)
  have q: "m_mbroadcasts ?m = m_mbroadcasts (cl_node c j)" "m_lives ?m = lives c j" by (simp_all add: reap_def Let_def split: prod.splits)
  have "lookup (cl_node c j) i = Some n" if "lookup ?m i = Some n" for i n
    using that unfolding lookup_reap [OF t] by (auto simp: lookup_def split: option.splits if_splits)
  then show ?thesis
    unfolding reaps using D member_wf_reap [of "cl_node c j" clock js] q by (intro accurate_frame [OF c]) (simp_all add: ID_def news_def)
next
  case (elsewhere m j m')
  with accurateD(1) [OF c, of j] core_facts [OF elsewhere(3)] show ?thesis
    unfolding elsewhere(1) by (intro accurate_frame [OF c]) (auto simp: node_ok_def ID_def)
qed

lemma reachable_accurate:
  assumes "(cluster_step E hinv elems)\<^sup>*\<^sup>* c c'" and "accurate E hinv elems c"
  shows "accurate E hinv elems c'"
  using assms by (induction rule: rtranclp_induct) (auto intro: cluster_step_accurate)

text \<open>No honest message or entry blocks a node that has not used up its lives.\<close>

lemma honest_handled:
  assumes c: "accurate E hinv elems c" and j: "lives c j \<noteq> - 1" and x: "about x = Some (i, l)" "l \<le> lives c i"
  shows "handle E x (cl_node c j) \<noteq> None"
proof
  note D = accurateD(1) [OF c, of j, unfolded node_ok_def]
  assume "handle E x (cl_node c j) = None"
  then have "maxAccusation (cl_node c j) x" using handle_blocks D by blast
  then have "i = j" "l = - 1" using x(1) D by (cases x; auto simp: accused_def)+
  with x(2) j show False by (simp add: word_order.extremum_unique)
qed

lemma honest_message_handled:
  assumes "accurate E hinv elems c" and "lives c j \<noteq> - 1" and "tag t # body \<in> cl_wire c"
  shows "handleLongRunMsg E now rnd \<lparr>lm_type = t, lm_msg = body, lm_from = from\<rparr> (cl_node c j) \<noteq> None"
proof (cases "longRunInput E (m_config (cl_node c j)) now rnd \<lparr>lm_type = t, lm_msg = body, lm_from = from\<rparr>")
  case (Some x)
  then obtain i l where "about x = Some (i, l)" "l \<le> lives c i" using says_input [OF accurateD(4) [OF assms(1,3)]] by blast
  with honest_handled [OF assms(1,2)] Some show ?thesis by (simp add: handleLongRunMsg_eq)
qed (simp add: handleLongRunMsg_eq)

text \<open>A refutation has more lives than anybody knows of, so it is accepted wherever it arrives.\<close>

lemma refutation_convinces:
  assumes c: "accurate E hinv elems c" and able: "able (cl_node c i)"
    and k: "lookup (cl_node c k) i = Some n'" and acc: "accused (cl_node c i) i (ns_Lives n')"
  obtains m' where "suspectNode E now \<lparr>s_Lives = ns_Lives n', s_ID = i, s_From = k\<rparr> (cl_node c i) = Some m'"
    and "m_lives m' = lives c i + 1"
    and "\<exists>n. lookup m' i = Some n \<and> ns_State n = StateAlive \<and> ns_Lives n = m_lives m'"
    and "\<And>j n. lookup (cl_node c j) i = Some n \<Longrightarrow> ns_Lives n < m_lives m'"
proof -
  let ?l = "ns_Lives n'"
  note D = accurateD(1) [OF c, of i, unfolded node_ok_def] and le = accurateD(3) [OF c k]
  obtain n p where n: "lookup (cl_node c i) i = Some n" "ns_State n = StateAlive" "ns_Lives n \<le> ?l"
      "m_nodeMap (cl_node c i) i = Some p" "m_store (cl_node c i) p = n"
    using acc by (auto simp: accused_def lookup_Some split: option.splits)
  have none: "m_suspicions (cl_node c i) i = None"
    using D n(1,2) by (cases "m_suspicions (cl_node c i) i") (auto simp: member_wf_def susp_wf_def dest!: spec [of _ i])
  have "handle E (InSuspect now \<lparr>s_Lives = ?l, s_ID = i, s_From = k\<rparr>) (cl_node c i) \<noteq> None"
    by (rule honest_handled [OF c _ _ le]) (use able in \<open>simp_all add: able_def\<close>)
  then obtain m' where s: "suspectNode E now \<lparr>s_Lives = ?l, s_ID = i, s_From = k\<rparr> (cl_node c i) = Some m'" by auto
  then have r: "refute E p ?l (cl_node c i) = Some m'"
    using suspectNode_local [of "cl_node c i" "\<lparr>s_Lives = ?l, s_ID = i, s_From = k\<rparr>" p E now] n none D by simp
  have up: "m_lives m' = lives c i + 1"
    using refute_advances [of "cl_node c i" p ?l E m' "(i, ?l)"] D n le able r by (simp add: able_def)
  have own: "lookup m' i = Some (n\<lparr>ns_Lives := m_lives m'\<rparr>)"
    using r refuted_view_wf(1) [of "cl_node c i" i p E] D n by (auto simp: refute_eq refute_spec_def split: if_splits)
  have "ns_Lives n2 < m_lives m'" if "lookup (cl_node c j) i = Some n2" for j n2
    using order_le_less_trans [OF accurateD(3) [OF c that] word_less_succ [of "lives c i"]] able up by (simp add: able_def)
  with that s up own n(2) show ?thesis by simp
qed

lemma newer_accepted:
  assumes c: "accurate E hinv elems c" and a: "\<And>n. lookup (cl_node c j) (a_ID a) = Some n \<Longrightarrow> ns_Lives n < a_Lives a"
    and j: "j \<noteq> a_ID a" "IPAllowed (m_config (cl_node c j)) (a_IP a)"
  shows "\<exists>n. lookup (aliveNode E t rnd a notify (cl_node c j)) (a_ID a) = Some n \<and> ns_State n = StateAlive
    \<and> ns_Lives n = a_Lives a"
proof -
  note D = accurateD(1) [OF c, of j, unfolded node_ok_def]
  have "admits (cl_node c j) a" using j D by (simp add: admits_def)
  then have "lookup (aliveNode E t rnd a notify (cl_node c j)) = alive_spec t a (lookup (cl_node c j))"
    using aliveNode_view_wf(1) [of "cl_node c j" E t rnd a notify] D by simp
  moreover have "\<exists>n. alive_spec t a (lookup (cl_node c j)) (a_ID a) = Some n \<and> ns_State n = StateAlive \<and> ns_Lives n = a_Lives a"
    using a by (auto simp: alive_spec_def not_le split: option.splits dest: leD)
  ultimately show ?thesis by simp
qed

end

section \<open>A cluster that has not started\<close>

definition unstarted :: "('h \<Rightarrow> bool) \<Rightarrow> ('h \<Rightarrow> TransmitCapItem set) \<Rightarrow> 'h cluster \<Rightarrow> bool" where
  "unstarted hinv elems c \<longleftrightarrow> cl_wire c = {} \<and> cl_known c = {}
     \<and> (\<forall>j. node_ok hinv elems j (cl_node c j) \<and> lookup (cl_node c j) = Map.empty \<and> news elems (cl_node c j) = {})"

lemma unstarted_accurate: "unstarted hinv elems c \<Longrightarrow> accurate E hinv elems c"
  by (auto simp: unstarted_def accurate_def)

text \<open>The nodes that \<open>Build\<close> creates, before \<open>start\<close>.\<close>

definition builtCluster :: "'h env \<Rightarrow> Config \<Rightarrow> MemberlistBuilder \<Rightarrow> 'h cluster" where
  "builtCluster E cfg b = \<lparr>cl_node = (\<lambda>j. newMemberlist E (cfg\<lparr>c_ID := j\<rparr>) None b), cl_wire = {}, cl_known = {}\<rparr>"

context net_env
begin

lemma builtCluster_unstarted: "unstarted hinv elems (builtCluster E cfg b)"
  using wf_New [of "c_RetransmitMult cfg"] newMemberlist_wf [of E _ None b] elems_new
  by (auto simp: unstarted_def builtCluster_def node_ok_def ID_def news_def) (simp_all add: newMemberlist_def NewBroadcastQueue_def)

end

end
