(* ===== verification/Crash.thy ===== *)
theory Crash
  imports Honest
begin

text \<open>
  Which input from the network takes the process down. A panic in a goroutine of the node ends the
  whole process, so a packet or a stream that panics a handler crashes every user of the library in
  it. For a node that can send (\<open>sendable\<close>), the handlers of packets panic on one message only,
  \<open>emptyChecked\<close>, and the handlers of streams only on an empty message inside a frame, or on a push-pull
  header with negative counts. A node that \<open>Build\<close> returns with a supported
  encryption version can send, and the membership handlers keep it so until the counter of messages is full.
\<close>

section \<open>Packets\<close>

text \<open>A checksum of zero over no message at all.\<close>

definition emptyChecked :: bytes where
  "emptyChecked = [tag hasCrcMsg, 0, 0, 0, 0]"

text \<open>The packet as the checksum is read from it: decrypted, if the node has keys.\<close>

definition openedPacket :: "Keyring option \<Rightarrow> bytes \<Rightarrow> string \<Rightarrow> bytes outcome" where
  "openedPacket kr buf label =
     (if EncryptionEnabled kr then decryptWithKeys (GetKeys (the kr)) buf (strBytes label) else Ok buf)"

lemma openedPacket_no_panic [simp]: "openedPacket kr buf label \<noteq> Panic p"
  by (simp add: openedPacket_def decryptWithKeys_no_panic)

lemma empty_checksum:
  "5 \<le> length msg \<and> msg ! 0 = tag hasCrcMsg \<and> crc32 (drop 5 msg) = rdSize (take 4 (drop 1 msg)) \<and> drop 5 msg = []
     \<longleftrightarrow> msg = emptyChecked"
proof
  assume m: "5 \<le> length msg \<and> msg ! 0 = tag hasCrcMsg \<and> crc32 (drop 5 msg) = rdSize (take 4 (drop 1 msg)) \<and> drop 5 msg = []"
  then obtain a r where a: "msg = a # r" "length r = 4" by (cases msg) auto
  have "rdSize r = rdSize [0, 0, 0, 0]" using m a by (simp add: crc32_def rd32_def)
  then have "r = [0, 0, 0, 0]" using a(2) by (intro rdSize_changed) simp_all
  with m a show "msg = emptyChecked" by (simp add: emptyChecked_def)
next
  assume "msg = emptyChecked"
  then show "5 \<le> length msg \<and> msg ! 0 = tag hasCrcMsg \<and> crc32 (drop 5 msg) = rdSize (take 4 (drop 1 msg)) \<and> drop 5 msg = []"
    by (simp add: emptyChecked_def crc32_def rd32_def)
qed

lemma unpackPacket_panics:
  "unpackPacket C kr buf label = Panic p \<longleftrightarrow> p = IndexOutOfRange \<and> openedPacket kr buf label = Ok emptyChecked"
proof (cases "openedPacket kr buf label")
  case (Ok msg)
  then have "unpackPacket C kr buf label = Panic p \<longleftrightarrow> p = IndexOutOfRange \<and> 5 \<le> length msg \<and> msg ! 0 = tag hasCrcMsg
      \<and> crc32 (drop 5 msg) = rdSize (take 4 (drop 1 msg)) \<and> drop 5 msg = []"
    by (auto simp: unpackPacket_def openedPacket_def [symmetric] decompressMsg_no_panic Let_def)
  with Ok empty_checksum [of msg] show ?thesis by simp
qed (simp_all add: unpackPacket_def openedPacket_def [symmetric])

text \<open>A handler that does not panic and leaves the node able to send, if it returns.\<close>

definition survives :: "('h \<Rightarrow> bool) \<Rightarrow> ('h \<Rightarrow> TransmitCapItem set) \<Rightarrow> 'h Memberlist outcome option \<Rightarrow> bool" where
  "survives hinv elems r \<longleftrightarrow> (\<forall>p. r \<noteq> Some (Panic p)) \<and> (\<forall>m. r = Some (Ok m) \<longrightarrow> sendable hinv elems m)"

lemma survives_simps [simp]:
  "survives hinv elems None"
  "survives hinv elems (Some (Err e))"
  "\<not> survives hinv elems (Some (Panic p))"
  "survives hinv elems (Some (Ok m)) = sendable hinv elems m"
  by (simp_all add: survives_def)

lemma sendable_longRun [simp]: "sendable hinv elems (m\<lparr>m_longRunMng := g\<rparr>) = sendable hinv elems m"
  by (simp add: sendable_def delegates_ok_def)

lemma queueMsg_survives: "sendable hinv elems m \<Longrightarrow> survives hinv elems (queueMsg t msg from m)"
  by (auto simp: queueMsg_def split: option.split)

context net_env
begin

lemma sentTo_survives:
  assumes "sendable hinv elems m"
  shows "survives hinv elems (sentTo (encodeAndSendUdp E addr t x m))"
proof -
  from encodeAndSendUdp_sendable [OF assms] obtain r m' where
    "encodeAndSendUdp E addr t x m = Some (r, m')" "sendable hinv elems m'" "\<forall>p. r \<noteq> Panic p" by blast
  then show ?thesis by (cases r) (simp_all add: sentTo_def)
qed

lemma handleIndirectPing_survives:
  assumes "sendable hinv elems m"
  shows "survives hinv elems (handleIndirectPing E hio msg from m)"
proof (cases "decode (dec_indirectPing (e_codec E)) msg")
  case (Ok ind)
  let ?node = "\<lparr>ns_Node = \<lparr>n_ID = i_ID ind, n_IP = i_IP ind, n_Port = i_Port ind, n_Tags = []\<rparr>,
    ns_Lives = 0, ns_State = StateAlive, ns_StateChange = 0\<rparr>"
  from Ping_sendable [OF assms] obtain r m' where
    p: "Ping E (hio_ping hio (fst (nextSeqNo (m_pingMng m)))) (hio_payload hio \<noteq> None) ?node m = Some (Ok r, m')"
    and "sendable hinv elems m'" by blast
  then show ?thesis using Ok by (simp add: handleIndirectPing_def Let_def sentTo_survives split: prod.split)
qed (simp_all add: handleIndirectPing_def assms)

lemma handlers_survive:
  assumes "sendable hinv elems m"
  shows "survives hinv elems (handlePing E hio msg from m)"
    and "survives hinv elems (handleAck E msg ts m)"
    and "survives hinv elems (handleIndirectAck E msg m)"
  using assms
  by (simp_all add: handlePing_def handleAck_def handleIndirectAck_def Let_def sentTo_survives split: outcome.split)

lemma messages_survive:
  "E' = E \<Longrightarrow> sendable hinv elems m \<Longrightarrow> survives hinv elems (handleUdpMsg E' hio from ts msg m)"
  "E' = E \<Longrightarrow> sendable hinv elems m \<Longrightarrow> survives hinv elems (handleCompound E' hio from ts msg m)"
  "E' = E \<Longrightarrow> sendable hinv elems m \<Longrightarrow> survives hinv elems (handleMsgs E' hio from ts msgs m)"
proof (induction E' hio "from" ts msg m and E' hio "from" ts msg m and E' hio "from" ts msgs m
    rule: handleUdpMsg_handleCompound_handleMsgs.induct)
  case (2 E' hio "from" ts b msg m)
  then show ?case
    by (simp add: queueMsg_survives handlers_survive handleIndirectPing_survives
        del: handleCompound.simps split: option.split)
qed (auto split: outcome.splits option.splits)

lemma handlePacket_panics:
  assumes "sendable hinv elems m"
  shows "handlePacket E hio buf from ts m = Some (Panic p) \<longleftrightarrow>
    p = IndexOutOfRange \<and> openedPacket (m_keyring m) buf (c_Label (m_config m)) = Ok emptyChecked"
proof -
  have "handleUdpMsg E hio from ts msg m \<noteq> Some (Panic p)" for msg
    using messages_survive(1) [OF refl assms] unfolding survives_def by blast
  then show ?thesis unfolding unpackPacket_panics [symmetric, of _ _ _ _ "e_codec E"]
    by (simp add: handlePacket_def split: outcome.split)
qed

end

section \<open>Streams\<close>

text \<open>A stream whose message is empty once it is decrypted or decompressed.\<close>

definition emptyInside :: "codec \<Rightarrow> Keyring option \<Rightarrow> bytes \<Rightarrow> string \<Rightarrow> bool" where
  "emptyInside C kr conn label \<longleftrightarrow>
     (case conn of
        [] \<Rightarrow> False
      | t # rest \<Rightarrow>
          let zipped = (\<lambda>t r. t = tag compressMsg
                \<and> bind_outcome (decode (dec_compressed C) r) decompress = Ok [])
          in if EncryptionEnabled kr
             then t = tag encryptMsg \<and> (case decryptTcp (GetKeys (the kr)) rest label of
                    Ok (plain, _) \<Rightarrow> (case plain of [] \<Rightarrow> True | t' # r \<Rightarrow> zipped t' r)
                  | _ \<Rightarrow> False)
             else zipped t rest)"

lemma decryptTcp_no_panic: "decryptTcp ks r label \<noteq> Panic p"
  by (auto simp: decryptTcp_def Let_def bind_outcome_eq_Panic decryptWithKeys_no_panic)

lemma decode_no_panic: "decode d b \<noteq> Panic p"
  by (auto simp: decode_def split: option.splits prod.splits)

lemma decompress_no_panic: "decompress c \<noteq> Panic p"
  by (auto simp: decompress_def split: option.splits)

lemma first_byte_panics:
  "(case data of [] \<Rightarrow> Panic IndexOutOfRange | t # r \<Rightarrow> Ok (t, r)) = Panic p \<longleftrightarrow> data = [] \<and> p = IndexOutOfRange"
  by (cases data) auto

lemma unzipped_panics:
  "bind_outcome (decode (dec_compressed C) r) (\<lambda>c. bind_outcome (decompress c) (\<lambda>data.
       case data of [] \<Rightarrow> Panic IndexOutOfRange | t # r \<Rightarrow> Ok (t, r))) = Panic p
   \<longleftrightarrow> p = IndexOutOfRange \<and> bind_outcome (decode (dec_compressed C) r) decompress = Ok []"
  by (auto simp: bind_outcome_eq_Panic bind_outcome_eq_Ok decode_no_panic decompress_no_panic first_byte_panics)

lemma unpackStream_panics:
  "unpackStream C kr conn label = Panic p \<longleftrightarrow> p = IndexOutOfRange \<and> emptyInside C kr conn label"
proof (cases conn)
  case (Cons t rest)
  show ?thesis
  proof (cases "EncryptionEnabled kr")
    case True
    then show ?thesis using Cons decryptTcp_no_panic [of "GetKeys (the kr)" rest label]
      by (cases "decryptTcp (GetKeys (the kr)) rest label")
        (auto simp: unpackStream_def emptyInside_def Let_def unzipped_panics split: list.splits if_splits)
  qed (use Cons in \<open>auto simp: unpackStream_def emptyInside_def Let_def unzipped_panics\<close>)
qed (simp add: unpackStream_def emptyInside_def)

text \<open>A push-pull message with a negative count in its header.\<close>

definition negativeHeader :: "codec \<Rightarrow> bytes \<Rightarrow> bool" where
  "negativeHeader C r \<longleftrightarrow>
     (case dec_header C r of
        None \<Rightarrow> False
      | Some (h, r1) \<Rightarrow> h_Nodes h < 0
          \<or> (h_UserStateLen h < 0 \<and> (case readStates C (nat (h_Nodes h)) r1 of Ok _ \<Rightarrow> True | _ \<Rightarrow> False)))"

lemma readRemoteState_panics: "readRemoteState C r = Panic p \<longleftrightarrow> p = MakeSliceRange \<and> negativeHeader C r"
  by (auto simp: readRemoteState_def negativeHeader_def bind_outcome_eq_Panic readStates_no_panic
      split: option.splits prod.splits if_splits outcome.splits)

text \<open>A connection whose \<open>Write\<close> and whose nonce return or fail.\<close>

definition sound_conn :: "tcp_conn \<Rightarrow> bytes outcome \<Rightarrow> bool" where
  "sound_conn conn nonce \<longleftrightarrow> (\<forall>b p. tc_write conn b \<noteq> Panic p) \<and> (\<forall>p. nonce \<noteq> Panic p)"

lemma packTcp_no_panic:
  assumes "EncryptionEnabled kr \<longrightarrow> c_EncryptionVersion cfg = 0" and "\<forall>p. nonce \<noteq> Panic p"
  shows "packTcp C cfg kr nonce msg label \<noteq> Panic p"
proof -
  have "shrink C cfg msg \<noteq> Panic p" for p
    by (auto simp: shrink_def compress_def encode_def bind_outcome_eq_Panic split: option.splits)
  moreover have "encryptTcp 0 key nonce m label \<noteq> Panic p" for key m p
    using assms(2) by (auto simp: encryptTcp_def writeEncryptedSize_def encryptOverhead_def encrypt_def NewCipher_def
      bind_outcome_eq_Panic split: if_splits)
  ultimately show ?thesis using assms(1) by (auto simp: packTcp_def bind_outcome_eq_Panic)
qed

lemma sendTcp_no_panic:
  assumes "sendable hinv elems m" and "sound_conn conn nonce"
  shows "sendTcp E nonce conn msg label m \<noteq> Panic p"
  using assms packTcp_no_panic [of "m_keyring m" "m_config m" nonce "e_codec E" msg label]
  by (auto simp: sendTcp_def sendable_def sound_conn_def bind_outcome_eq_Panic)

lemma sendLocalState_no_panic:
  assumes "sendable hinv elems m" and "sound_conn conn nonce"
  shows "sendLocalState E nonce usr conn label m \<noteq> Panic p"
proof -
  have "encodeStates (e_codec E) ss \<noteq> Panic p" for ss p
    by (induction ss) (auto simp: bind_outcome_eq_Panic split: option.splits)
  then have "encodePushPullMsg (e_codec E) ss u \<noteq> Panic p" for ss u p
    by (auto simp: encodePushPullMsg_def Let_def bind_outcome_eq_Panic split: option.splits)
  with sendTcp_no_panic [OF assms] show ?thesis by (simp add: sendLocalState_def bind_outcome_eq_Panic)
qed

lemma sendable_numPushPull [simp]: "sendable hinv elems (m\<lparr>m_numPushPull := k\<rparr>) = sendable hinv elems m"
  by (simp add: sendable_def delegates_ok_def)

text \<open>Whether the limit on concurrent exchanges lets one more in.\<close>

definition hasRoom :: "'h Memberlist \<Rightarrow> bool" where
  "hasRoom m \<longleftrightarrow> m_numPushPull m + 1 < of_int (c_MaxPushPulls (m_config m))"

lemma handlePushPull_panics:
  assumes "sendable hinv elems m" and "sound_conn (sio_conn sio) (sio_nonce sio)"
  shows "handlePushPull E sio r label m = Some (Panic p) \<longleftrightarrow>
    hasRoom m \<and> p = MakeSliceRange \<and> negativeHeader (e_codec E) r"
  using sendLocalState_no_panic [of hinv elems "m\<lparr>m_numPushPull := m_numPushPull m + 1\<rparr>" "sio_conn sio" "sio_nonce sio" E "sio_usr sio" label] assms
  unfolding readRemoteState_panics [symmetric]
  by (auto simp: handlePushPull_def Let_def hasRoom_def split: outcome.splits option.splits if_splits prod.splits)

lemma handlePingTcp_no_panic:
  assumes "sendable hinv elems m" and "sound_conn (sio_conn sio) (sio_nonce sio)"
  shows "handlePingTcp E sio r label m \<noteq> Panic p"
  using sendTcp_no_panic [OF assms]
  by (auto simp: handlePingTcp_def split: outcome.splits if_splits)

lemma handleTcpConn_panics:
  assumes "sendable hinv elems m" and "sound_conn (sio_conn sio) (sio_nonce sio)"
  shows "handleTcpConn E sio m = Some (Panic p) \<longleftrightarrow>
     p = IndexOutOfRange \<and> emptyInside (e_codec E) (m_keyring m) (tc_reply (sio_conn sio)) (c_Label (m_config m))
   \<or> p = MakeSliceRange \<and> hasRoom m
     \<and> (\<exists>r. unpackStream (e_codec E) (m_keyring m) (tc_reply (sio_conn sio)) (c_Label (m_config m)) = Ok (tag pushPullMsg, r)
            \<and> negativeHeader (e_codec E) r)"
proof (cases "unpackStream (e_codec E) (m_keyring m) (tc_reply (sio_conn sio)) (c_Label (m_config m))")
  case (Ok x)
  with unpackStream_panics [of "e_codec E" "m_keyring m" "tc_reply (sio_conn sio)" "c_Label (m_config m)" IndexOutOfRange]
    handlePushPull_panics [OF assms, of E _ "c_Label (m_config m)"] handlePingTcp_no_panic [OF assms, of E _ "c_Label (m_config m)"]
  show ?thesis by (cases x) (auto simp: handleTcpConn_def Let_def split: outcome.splits)
next
  case (Err e)
  with unpackStream_panics [of "e_codec E" "m_keyring m" "tc_reply (sio_conn sio)" "c_Label (m_config m)" IndexOutOfRange]
    sendTcp_no_panic [OF assms, of E _ "c_Label (m_config m)"]
  show ?thesis by (auto simp: handleTcpConn_def Let_def split: outcome.splits)
next
  case (Panic q)
  with unpackStream_panics [of "e_codec E" "m_keyring m" "tc_reply (sio_conn sio)" "c_Label (m_config m)" q]
  show ?thesis by (auto simp: handleTcpConn_def Let_def)
qed

text \<open>The side that opens the exchange reads the answer in the same way.\<close>

lemma pushPullWithNode_panics:
  assumes "sendable hinv elems m" and "sound_conn conn nonce"
  shows "pushPullWithNode E clock rnd nonce usr (Ok conn) m = Some (Panic p, m) \<longleftrightarrow>
     sendLocalState E nonce usr conn (c_Label (m_config m)) m = Ok ()
     \<and> (p = IndexOutOfRange \<and> emptyInside (e_codec E) (m_keyring m) (tc_reply conn) (c_Label (m_config m))
        \<or> p = MakeSliceRange
          \<and> (\<exists>r. unpackStream (e_codec E) (m_keyring m) (tc_reply conn) (c_Label (m_config m)) = Ok (tag pushPullMsg, r)
                 \<and> negativeHeader (e_codec E) r))"
proof -
  let ?u = "unpackStream (e_codec E) (m_keyring m) (tc_reply conn) (c_Label (m_config m))"
  have "pushPullWithNode E clock rnd nonce usr (Ok conn) m = Some (Panic p, m)
      \<longleftrightarrow> sendAndReceiveState E nonce usr (Ok conn) m = Panic p"
    by (auto simp: pushPullWithNode_def split: outcome.splits option.splits prod.splits)
  also have "\<dots> \<longleftrightarrow> sendLocalState E nonce usr conn (c_Label (m_config m)) m = Ok ()
      \<and> (?u = Panic p \<or> (\<exists>r. ?u = Ok (tag pushPullMsg, r) \<and> readRemoteState (e_codec E) r = Panic p))"
    using sendLocalState_no_panic [OF assms, of E usr "c_Label (m_config m)"]
    by (cases ?u; cases "sendLocalState E nonce usr conn (c_Label (m_config m)) m")
       (auto simp: sendAndReceiveState_def bind_outcome_eq_Panic decode_no_panic split: if_splits)
  finally show ?thesis unfolding unpackStream_panics readRemoteState_panics by blast
qed

section \<open>A node can send as long as it lives\<close>

text \<open>What a membership handler does to the fields that sending depends on: at most one message is queued.\<close>

definition queues_one :: "'h env \<Rightarrow> 'h Memberlist \<Rightarrow> 'h Memberlist \<Rightarrow> bool" where
  "queues_one E m m' \<longleftrightarrow> m_keyring m' = m_keyring m \<and> m_ubroadcasts m' = m_ubroadcasts m \<and> m_config m' = m_config m
     \<and> (m_mbroadcasts m' = m_mbroadcasts m
        \<or> (\<exists>name t p notify. m_mbroadcasts m' = QueueMsg (e_codec E) (e_heap E) name t p notify (m_mbroadcasts m)))"

lemma queues_one_say:
  "m_mbroadcasts m' = QueueMsg (e_codec E) (e_heap E) name t p notify (m_mbroadcasts m) \<Longrightarrow> m_keyring m' = m_keyring m
   \<Longrightarrow> m_ubroadcasts m' = m_ubroadcasts m \<Longrightarrow> m_config m' = m_config m \<Longrightarrow> queues_one E m m'"
  unfolding queues_one_def by blast

lemma queues_one_keep:
  "m_mbroadcasts m' = m_mbroadcasts m \<Longrightarrow> m_keyring m' = m_keyring m \<Longrightarrow> m_ubroadcasts m' = m_ubroadcasts m
   \<Longrightarrow> m_config m' = m_config m \<Longrightarrow> queues_one E m m'"
  unfolding queues_one_def by blast

lemma send_gear [simp]: "m_ubroadcasts (send e m) = m_ubroadcasts m" "m_keyring (send e m) = m_keyring m"
  by (simp_all add: send_def)

lemmas queues_one_defs = broadcast_def setNode_def notify_defs

lemma aliveNode_queues_one: "queues_one E m (aliveNode E now rnd a notify m)"
  unfolding aliveNode_def Let_def
  by (auto simp: queues_one_def broadcast_def notify_defs setNode_def split: option.splits)

lemma refute_queues_one: "refute E p l m = Some m' \<Longrightarrow> queues_one E m m'"
  by (auto simp: queues_one_defs refute_def Let_def split: option.splits intro!: queues_one_say)

lemma suspectNode_queues_one: "suspectNode E now s m = Some m' \<Longrightarrow> queues_one E m m'"
  by (auto simp: suspectNode_def Let_def queues_one_defs split: option.splits if_splits prod.splits
      intro: refute_queues_one queues_one_say queues_one_keep)

lemma deadNode_queues_one: "deadNode E now d notify m = Some m' \<Longrightarrow> queues_one E m m'"
  by (auto simp: deadNode_def Let_def queues_one_defs split: option.splits if_splits
      intro: refute_queues_one queues_one_say queues_one_keep)

lemma handle_queues_one: "handle E x m = Some m' \<Longrightarrow> queues_one E m m'"
  by (cases x) (auto simp: timeoutFn_def queues_one_keep split: option.splits
      intro: aliveNode_queues_one suspectNode_queues_one deadNode_queues_one)

context net_env
begin

lemma queues_one_sendable:
  assumes "sendable hinv elems m" and "q_idSeq (m_mbroadcasts m) \<noteq> - 1" and "queues_one E m m'"
  shows "sendable hinv elems m'"
  using assms QueueMsg_spec(1) by (auto simp: sendable_def delegates_ok_def queues_one_def)

lemmas aliveNode_sendable = queues_one_sendable [OF _ _ aliveNode_queues_one]
  and handle_sendable = queues_one_sendable [OF _ _ handle_queues_one]

lemma Build_sendable:
  assumes b: "Build E OS io b s = (Ok (m, t, tasks), s')" and c: "b_config b = Some c"
    and vsn: "\<And>kr. buildKeyring b = Ok kr \<Longrightarrow> EncryptionEnabled kr \<Longrightarrow> c_EncryptionVersion c = 0"
    and usr: "\<And>g. b_ubroadcasts b = Some g \<Longrightarrow> delegate_ok g"
  shows "sendable hinv elems m"
proof -
  obtain kr port where k: "buildKeyring b = Ok kr"
    and st: "start E io t (newMemberlist E (c\<lparr>c_BindPort := port, c_ID := UniqueID (bo_uuid io)\<rparr>) kr b) = (Ok tasks, m)"
    using b c by (auto simp: Build_def Let_def split: outcome.splits option.splits prod.splits)
  let ?m0 = "newMemberlist E (c\<lparr>c_BindPort := port, c_ID := UniqueID (bo_uuid io)\<rparr>) kr b"
  obtain m1 where f: "finalizeAdvertiseAddr io t ?m0 = (Ok (), m1)" and al: "setAlive E io m1 = (Ok (), m)"
    using st by (auto simp: start_def split: outcome.splits prod.splits if_splits)
  have m1: "m_mbroadcasts m1 = NewBroadcastQueue (e_heap E) (c_RetransmitMult c)" "m_ubroadcasts m1 = b_ubroadcasts b"
      "m_keyring m1 = kr" "c_EncryptionVersion (m_config m1) = c_EncryptionVersion c"
    by (subst finalizeAdvertiseAddr_frame [OF f], simp add: newMemberlist_def)+
  obtain a where "m = aliveNode E (bo_now io) (bo_rnd io) a None (m1\<lparr>m_lives := m_lives m1 + 1\<rparr>)"
    using al by (auto simp: setAlive_def nextLiveNo_def Let_def split: outcome.splits if_splits)
  moreover have "sendable hinv elems (m1\<lparr>m_lives := m_lives m1 + 1\<rparr>)"
    using wf_New m1 vsn [OF k] usr by (auto simp: sendable_def delegates_ok_def split: option.split)
  moreover have "q_idSeq (m_mbroadcasts m1) \<noteq> - 1" by (simp add: m1 NewBroadcastQueue_def)
  ultimately show ?thesis using aliveNode_sendable by simp
qed

end

end
