(* ===== verification/Cluster.thy ===== *)
theory Cluster
  imports Crash
begin

text \<open>
  A cluster of two nodes, \<open>a\<close> and \<open>b\<close>, as node \<open>a\<close> sees it with the default configuration, over
  the reference environment. The states below are the inputs at which the properties of the root
  theory are instantiated: \<open>a\<close> alive with one life, and \<open>b\<close> in a given state.
\<close>

definition peer :: "string \<Rightarrow> u32 \<Rightarrow> StateType \<Rightarrow> nodeState" where
  "peer i l st = \<lparr>ns_Node = \<lparr>n_ID = i, n_IP = [127, 0, 0, 1], n_Port = 7946, n_Tags = []\<rparr>,
     ns_Lives = l, ns_State = st, ns_StateChange = 0\<rparr>"

definition pair :: "StateType \<Rightarrow> TransmitCapItem list Memberlist" where
  "pair st = \<lparr>
     m_lives = 1,
     m_awr = newAwareness 8,
     m_config = DefaultLANConfig\<lparr>c_ID := ''a''\<rparr>,
     m_keyring = None,
     m_shutdown = False,
     m_left = False,
     m_mbroadcasts = NewBroadcastQueue list_heap 4,
     m_ubroadcasts = None,
     m_longRunMng = newLongRunMsgManager 1024,
     m_pingMng = newPingManager,
     m_eventMng = \<lparr>em_ch = False, em_timeout = 0\<rparr>,
     m_events = [],
     m_numPushPull = 0,
     m_store = (\<lambda>p. if p = 0 then peer ''a'' 1 StateAlive else peer ''b'' 1 st),
     m_next = 2,
     m_nodes = [0, 1],
     m_nodeMap = [''a'' \<mapsto> 0, ''b'' \<mapsto> 1],
     m_numNodes = 2,
     m_suspicions = Map.empty,
     m_started = [],
     m_probeIdx = - 1,
     m_sent = [],
     m_usrMsgCh = None\<rparr>"

lemma pair_simps [simp]:
  "ID (pair st) = ''a''" "m_left (pair st) = False" "m_keyring (pair st) = None" "m_lives (pair st) = 1"
  "m_config (pair st) = DefaultLANConfig\<lparr>c_ID := ''a''\<rparr>" "m_nodes (pair st) = [0, 1]"
  "m_probeIdx (pair st) = - 1" "m_pingMng (pair st) = newPingManager"
  "m_longRunMng (pair st) = newLongRunMsgManager 1024" "m_usrMsgCh (pair st) = None"
  "m_mbroadcasts (pair st) = NewBroadcastQueue list_heap 4" "m_ubroadcasts (pair st) = None"
  "m_suspicions (pair st) = Map.empty" "m_nodeMap (pair st) = [''a'' \<mapsto> 0, ''b'' \<mapsto> Suc 0]"
  "m_store (pair st) 0 = peer ''a'' 1 StateAlive" "m_store (pair st) (Suc 0) = peer ''b'' 1 st"
  "m_numPushPull (pair st) = 0" "m_sent (pair st) = []" "m_shutdown (pair st) = False" "m_next (pair st) = 2"
  by (simp_all add: pair_def ID_def)

lemma lookup_pair [simp]:
  "lookup (pair st) i = (if i = ''a'' then Some (peer ''a'' 1 StateAlive)
     else if i = ''b'' then Some (peer ''b'' 1 st) else None)"
  by (simp add: lookup_def)

lemma peer_simps [simp]:
  "ns_Lives (peer i l st) = l" "ns_State (peer i l st) = st" "n_ID (ns_Node (peer i l st)) = i"
  "n_Tags (ns_Node (peer i l st)) = []" "n_IP (ns_Node (peer i l st)) = [127, 0, 0, 1]"
  "n_Port (ns_Node (peer i l st)) = 7946" "ns_StateChange (peer i l st) = 0"
  by (simp_all add: peer_def)

lemma pair_wf: "st \<noteq> StateSuspect \<Longrightarrow> member_wf (pair st)"
  by (simp add: member_wf_def table_wf_def susp_wf_def local_wf_def nid_def)
     (simp add: pair_def wrap32_def)

lemma pair_queue_wf [simp]: "queue_wf list_inv set (NewBroadcastQueue list_heap k)"
  by (rule lh.wf_New)

lemma pair_delegates_ok [simp]: "delegates_ok (pair st)"
  by (simp add: delegates_ok_def)

lemma pair_sendable: "sendable list_inv set (pair st)"
  by (simp add: sendable_def EncryptionEnabled_def)

lemma default_simps [simp]:
  "c_Label DefaultLANConfig = ''''" "c_UDPBufferSize DefaultLANConfig = 1400"
  "c_NumIndirectChecks DefaultLANConfig = 3" "c_GossipNodes DefaultLANConfig = 3"
  "c_EncryptionVersion DefaultLANConfig = 0" "c_DeadNodeExpiredTimeout DefaultLANConfig = 30 * Second"
  by (simp_all add: DefaultLANConfig_def)

lemma pair_IPAllowed [simp]: "IPAllowed (DefaultLANConfig\<lparr>c_ID := i\<rparr>) ip"
  by (simp add: IPAllowed_def DefaultLANConfig_def)

section \<open>A suspicion and its timer\<close>

definition suspectB :: suspect where
  "suspectB = \<lparr>s_Lives = 1, s_ID = ''b'', s_From = ''a''\<rparr>"

definition story :: "input list" where
  "story = [InSuspect 5 suspectB, InTimeout 9 ''b'' 1]"

lemma story_returns: "\<exists>m'. runOps (handle E) story (pair StateAlive) = Some m'"
  by (rule run_returns) (simp_all add: pair_wf story_def suspectB_def)

lemma pair_suspected:
  "\<exists>m1. suspectNode E 5 suspectB (pair StateAlive) = Some m1 \<and> member_wf m1
     \<and> lookup m1 = (lookup (pair StateAlive))(''b'' \<mapsto> suspected 5 1 (peer ''b'' 1 StateAlive))"
  using suspectNode_view_wf [OF pair_wf [of StateAlive], of E 5 suspectB]
  by (cases "suspectNode E 5 suspectB (pair StateAlive)")
     (simp_all add: accused_def suspectB_def suspect_spec_def)

section \<open>A probe nobody answers\<close>

definition silence :: probe_io where
  "silence = \<lparr>io_ackCh = 0, io_sent = 0, io_reply = None, io_rnd = (\<lambda>_. 0), io_iackCh = 1, io_cell = 0,
     io_acked = False, io_nNacks = 0, io_dial = Err ErrEOF, io_nonce = Ok [], io_order = [], io_now = 3\<rparr>"

section \<open>Packing with the reference environment\<close>

lemma ref_compress: "\<exists>c. compress ref_codec msg = Ok c"
  by (simp add: compress_def encode_def ref_codec_def)

lemma ref_shrink: "\<exists>c. shrink ref_codec cfg msg = Ok c"
  using ref_compress [of msg] by (auto simp: shrink_def)

lemma ref_packUdp: "\<not> EncryptionEnabled kr \<Longrightarrow> \<exists>p. packUdp ref_codec cfg kr rnd msg = Ok p"
  using ref_shrink [of cfg msg] by (auto simp: packUdp_def Let_def)

lemma ref_packUdp_encrypted:
  "\<lbrakk>EncryptionEnabled kr; length (GetPrimaryKey (the kr)) \<in> {16, 24, 32}; c_EncryptionVersion cfg = 0\<rbrakk> \<Longrightarrow>
   \<exists>p. packUdp ref_codec cfg kr (Ok nonce) msg = Ok p"
  using ref_shrink [of cfg msg] by (auto simp: packUdp_def Let_def encrypt_Ok)

lemma ref_packTcp: "\<not> EncryptionEnabled kr \<Longrightarrow> \<exists>p. packTcp ref_codec cfg kr rnd msg label = Ok p"
  using ref_shrink [of cfg msg] by (auto simp: packTcp_def)

text \<open>A keyring with one 16-byte key.\<close>

definition ring :: Keyring where
  "ring = \<lparr>primaryKey = Some (replicate 16 7), keys = [replicate 16 7]\<rparr>"

lemma ring_simps [simp]:
  "EncryptionEnabled (Some ring)" "GetPrimaryKey ring = replicate 16 7" "keyrings_agree (Some ring) (Some ring)"
  by (simp_all add: EncryptionEnabled_def GetKeys_def GetPrimaryKey_def ring_def keyrings_agree_def sliceOf_def)

lemma no_ring [simp]: "\<not> EncryptionEnabled None" "keyrings_agree None None"
  by (simp_all add: EncryptionEnabled_def keyrings_agree_def)

section \<open>The view of node \<open>b\<close>\<close>

text \<open>Node \<open>b\<close> sees \<open>a\<close>, itself and a third node \<open>c\<close>.\<close>

definition pairB :: "TransmitCapItem list Memberlist" where
  "pairB = (pair StateAlive)\<lparr>m_config := DefaultLANConfig\<lparr>c_ID := ''b''\<rparr>\<rparr>"

definition aliveC :: alive where
  "aliveC = \<lparr>a_Lives = 3, a_ID = ''c'', a_IP = [10, 0, 0, 3], a_Port = 7946, a_Tags = []\<rparr>"

definition tripleB :: "TransmitCapItem list Memberlist" where
  "tripleB = aliveNode ref_env 1 0 aliveC None pairB"

lemma pairB_wf: "member_wf pairB"
  by (simp add: pairB_def member_wf_def table_wf_def susp_wf_def local_wf_def nid_def lookup_def ID_def)
     (simp add: pair_def wrap32_def)

lemma tripleB_wf: "member_wf tripleB"
  unfolding tripleB_def using pairB_wf by (rule aliveNode_view_wf)

lemma tripleB_view: "lookup tripleB = (lookup (pair StateAlive))(''c'' \<mapsto> freshNode 1 aliveC)"
proof -
  have "lookup pairB = lookup (pair StateAlive)" by (simp add: pairB_def lookup_def fun_eq_iff)
  moreover have "admits pairB aliveC" by (simp add: admits_def pairB_def aliveC_def)
  ultimately show ?thesis
    using aliveNode_view_wf(1) [OF pairB_wf, of ref_env 1 0 aliveC None]
    by (simp add: tripleB_def alive_spec_def aliveC_def)
qed

lemma tripleB_simps [simp]:
  "m_config tripleB = DefaultLANConfig\<lparr>c_ID := ''b''\<rparr>" "m_keyring tripleB = None"
  by (simp_all add: tripleB_def pairB_def aliveNode_def Let_def NotifyJoin_def NotifyUpdate_def setNode_def
      split: option.splits)

lemma tripleB_nodes: "nodeList tripleB = [freshNode 1 aliveC, peer ''b'' 1 StateAlive, peer ''a'' 1 StateAlive]"
  by (simp add: nodeList_def tripleB_def aliveNode_def pairB_def aliveC_def freshNode_def Let_def
      hasLeft_def ID_def NotifyJoin_def setNode_def swap_def randIntN_def)

lemma tripleB_answers: "\<exists>conn. answers ref_env tripleB [] (replicate 12 0) conn"
proof -
  have "\<exists>msg. encodePushPullMsg ref_codec (localState tripleB) [] = Ok msg \<and> length msg < 1000"
    by (simp add: encodePushPullMsg_def localState_def tripleB_nodes ref_codec_def wInt_def
        wBool_def aliveC_def freshNode_def numeral_3_eq_3)
  then obtain msg where msg: "encodePushPullMsg ref_codec (localState tripleB) [] = Ok msg" "length msg < 1000" by blast
  obtain p where p: "packTcp ref_codec (m_config tripleB) None (Ok (replicate 12 0)) msg '''' = Ok p"
    using ref_packTcp by fastforce
  show ?thesis
    using msg p by (intro exI [of _ "\<lparr>tc_write = (\<lambda>x. Ok (length x)), tc_reply = p\<rparr>"])
      (simp add: answers_def maxPushSize_def DefaultLANConfig_def)
qed

lemma pair_sends:
  assumes "answers ref_env mB usrB nonceB conn"
  shows "sendLocalState ref_env nonce None conn label (pair StateAlive) = Ok ()"
proof -
  obtain msg where "encodePushPullMsg ref_codec (localState (pair StateAlive)) [] = Ok msg"
    by (simp add: encodePushPullMsg_def localState_def nodeList_def ref_codec_def)
  moreover obtain p where "packTcp ref_codec (m_config (pair StateAlive)) None nonce msg label = Ok p"
    using ref_packTcp by fastforce
  ultimately show ?thesis
    using assms by (simp add: sendLocalState_def sendTcp_def answers_def)
qed

section \<open>Queues\<close>

lemma pair_broadcasts: "mlistBroadcasts ref_env limit (pair st) = Some ([], pair st)"
  by (simp add: mlistBroadcasts_def getBroadcasts_def GetMessages_def Len_def NewBroadcastQueue_def list_heap_def)

text \<open>A queue that holds the news about node \<open>c\<close>.\<close>

definition aQueue :: "TransmitCapItem list TransmitCapQueue" where
  "aQueue = QueueMsg ref_codec list_heap ''c'' aliveMsg (P_alive aliveC) None (NewBroadcastQueue list_heap 4)"

lemma aQueue_wf: "queue_wf list_inv set aQueue"
  unfolding aQueue_def by (rule lh.QueueMsg_spec [OF pair_queue_wf]) (simp add: NewBroadcastQueue_def)

lemma aQueue_elems: "\<exists>b. set (q_queue aQueue) = {\<lparr>t_name = ''c'', t_id = 0, t_transmits = 0, t_msg = b, t_notify = None\<rparr>}
   \<and> encode ref_codec aliveMsg (P_alive aliveC) = Ok b"
proof -
  obtain b where b: "encode ref_codec aliveMsg (P_alive aliveC) = Ok b" by (simp add: encode_def ref_codec_def)
  then show ?thesis
    using lh.QueueMsg_spec(2) [OF pair_queue_wf [of 4] _ b, of "''c''" None]
    by (simp add: aQueue_def) (simp add: NewBroadcastQueue_def list_heap_def)
qed

lemma pair_sends_packet: "\<exists>m'. sendMsgPiggyback ref_env addr msg (pair st) = Some (Ok (), m')"
proof -
  obtain p where "packUdp ref_codec (m_config (pair st)) None (e_nonce ref_env 0) msg = Ok p"
    using ref_packUdp by fastforce
  then show ?thesis
    by (simp add: sendMsgPiggyback_def cryptoOverhead_def pair_broadcasts sendUdp_def SendUdp_def)
qed

section \<open>A node that is built\<close>

definition bootA :: boot_io where
  "bootA = \<lparr>bo_uuid = ''a-1'', bo_privateIP = Ok ''10.0.0.1'', bo_isPublic = (\<lambda>_. Ok False), bo_now = 1, bo_rnd = 0\<rparr>"

definition builderA :: MemberlistBuilder where
  "builderA = \<lparr>b_config = Some (DefaultLANConfig\<lparr>c_BindAddr := ''127.0.0.1'', c_AdvertiseAddr := ''10.0.0.1''\<rparr>), b_keyring = None, b_secretKey = None, b_logger = False,
     b_eventCh = False, b_pingDelegate = False, b_userState = False, b_ubroadcasts = None, b_usrMsgCh = None\<rparr>"

lemma ParseIP_10: "ParseIP ''10.0.0.1'' = Some (v4InV6 [10, 0, 0, 1])"
  by code_simp

lemma startedA:
  assumes "io = bootA\<lparr>bo_isPublic := (\<lambda>_. Ok public)\<rparr>"
  obtains t port s m1 where "buildTransport ref_os (the (b_config builderA)) [] = (Ok (t, port), s)"
    "finalizeAdvertiseAddr io t (newMemberlist E ((the (b_config builderA))\<lparr>c_BindPort := port, c_ID := UniqueID (bo_uuid io)\<rparr>) None builderA) = (Ok (), m1)"
    "GetAdvertiseAddr m1 = Ok (v4InV6 [10, 0, 0, 1], 7946)" "c_Tags (m_config m1) = []" "m_keyring m1 = None"
proof -
  let ?c = "the (b_config builderA)"
  have "case fst (buildTransport ref_os ?c []) of Ok _ \<Rightarrow> True | _ \<Rightarrow> False" by code_simp
  then obtain t port s where t: "buildTransport ref_os ?c [] = (Ok (t, port), s)"
    by (cases "buildTransport ref_os ?c []") (auto split: outcome.splits)
  let ?m = "newMemberlist E (?c\<lparr>c_BindPort := port, c_ID := UniqueID (bo_uuid io)\<rparr>) None builderA"
  have a: "c_AdvertiseAddr (m_config ?m) = ''10.0.0.1''" "c_AdvertisePort (m_config ?m) = 7946"
    by (simp_all add: builderA_def DefaultLANConfig_def)
  obtain m' where m': "finalizeAdvertiseAddr io t ?m = (Ok (), m')" "GetAdvertiseAddr m' = Ok (v4InV6 [10, 0, 0, 1], 7946)"
    using finalizeAdvertiseAddr_configured [of ?m "v4InV6 [10, 0, 0, 1]" io t] ParseIP_10 a by auto
  note f = finalizeAdvertiseAddr_frame [OF m'(1)]
  have "c_Tags (m_config m') = []" "m_keyring m' = None"
    using arg_cong [OF f, of "\<lambda>m. c_Tags (m_config m)"] arg_cong [OF f, of m_keyring] by (simp_all add: builderA_def DefaultLANConfig_def)
  with t m' that show ?thesis by blast
qed

lemma builderA_simps: "b_config builderA = Some (the (b_config builderA))" "buildKeyring builderA = Ok None"
  by (simp_all add: builderA_def buildKeyring_def)

lemma builtA: "\<exists>m t tasks s. Build E ref_os bootA builderA [] = (Ok (m, t, tasks), s)"
proof -
  obtain t port s m1 where x: "buildTransport ref_os (the (b_config builderA)) [] = (Ok (t, port), s)"
    "finalizeAdvertiseAddr bootA t (newMemberlist E ((the (b_config builderA))\<lparr>c_BindPort := port, c_ID := UniqueID (bo_uuid bootA)\<rparr>) None builderA) = (Ok (), m1)"
    "GetAdvertiseAddr m1 = Ok (v4InV6 [10, 0, 0, 1], 7946)" "c_Tags (m_config m1) = []"
    by (rule startedA [of bootA False E]) (simp_all add: bootA_def)
  have "bo_isPublic bootA = (\<lambda>_. Ok False)" by (simp add: bootA_def)
  with x show ?thesis
    unfolding Build_def builderA_simps(2) outcome.case
    by (subst builderA_simps(1)) (simp add: start_def hasPublicIface_def setAlive_def bind_outcome_def nextLiveNo_def Let_def)
qed

lemma buildA_fails: "\<exists>e s. Build E ref_os (bootA\<lparr>bo_isPublic := (\<lambda>_. Ok True)\<rparr>) builderA [] = (Err e, s)"
proof -
  let ?io = "bootA\<lparr>bo_isPublic := (\<lambda>_. Ok True)\<rparr>"
  obtain t port s m1 where x: "buildTransport ref_os (the (b_config builderA)) [] = (Ok (t, port), s)"
    "finalizeAdvertiseAddr ?io t (newMemberlist E ((the (b_config builderA))\<lparr>c_BindPort := port, c_ID := UniqueID (bo_uuid ?io)\<rparr>) None builderA) = (Ok (), m1)"
    "GetAdvertiseAddr m1 = Ok (v4InV6 [10, 0, 0, 1], 7946)" "m_keyring m1 = None"
    by (rule startedA [of ?io True E]) simp_all
  then show ?thesis
    unfolding Build_def builderA_simps(2) outcome.case
    by (subst builderA_simps(1)) (simp add: start_def hasPublicIface_def bind_outcome_def Let_def)
qed

text \<open>Connections on which everything is written, and the two ends of one between \<open>a\<close> and \<open>b\<close>.\<close>

lemma tellsPair: "m \<in> {pair StateAlive, pairB} \<Longrightarrow> \<exists>p. tells ref_env (replicate 12 0) None m p"
proof -
  assume m: "m \<in> {pair StateAlive, pairB}"
  then have n: "m_keyring m = None" "nodeList m = [peer ''a'' 1 StateAlive, peer ''b'' 1 StateAlive]"
    by (auto simp: nodeList_def pairB_def)
  have "\<exists>msg. encodePushPullMsg ref_codec (localState m) [] = Ok msg \<and> length msg < 1000"
    by (simp add: encodePushPullMsg_def localState_def n ref_codec_def wInt_def wBool_def peer_def numeral_2_eq_2)
  then obtain msg where msg: "encodePushPullMsg ref_codec (localState m) [] = Ok msg" "length msg < 1000" by blast
  obtain p where "packTcp ref_codec (m_config m) None (Ok (replicate 12 0)) msg (c_Label (m_config m)) = Ok p"
    using ref_packTcp by fastforce
  with msg n show ?thesis by (auto simp: tells_def maxPushSize_def)
qed

definition onWire :: "bytes \<Rightarrow> tcp_conn" where
  "onWire x = \<lparr>tc_write = (\<lambda>y. Ok (length y)), tc_reply = x\<rparr>"

definition streamOf :: "bytes \<Rightarrow> stream_io" where
  "streamOf x = \<lparr>sio_conn = onWire x, sio_nonce = Ok (replicate 12 0), sio_usr = None, sio_clock = (\<lambda>_. 9), sio_rnd = (\<lambda>_. 0),
     sio_errText = (\<lambda>_. ''error''), sio_codecEOF = False\<rparr>"

definition offline :: resolver where
  "offline = \<lparr>dns_conf = (\<lambda>_. Err ErrEOF), dns_exchange = (\<lambda>_ _. Err ErrEOF), dns_lookup = (\<lambda>_. Err ErrEOF)\<rparr>"

definition joinIo :: "tcp_conn \<Rightarrow> join_io" where
  "joinIo conn = \<lparr>jo_resolver = offline, jo_dial = (\<lambda>_ _. Ok conn), jo_clock = (\<lambda>_ _. 9), jo_rnd = (\<lambda>_ _. 0),
     jo_nonce = (\<lambda>_. Ok (replicate 12 0)), jo_usr = (\<lambda>_. None), jo_errText = (\<lambda>_. ''error'')\<rparr>"

lemma pairB_simps [simp]:
  "lookup pairB = lookup (pair StateAlive)" "ID pairB = ''b''" "m_keyring pairB = None" "m_numPushPull pairB = 0"
  "m_config pairB = DefaultLANConfig\<lparr>c_ID := ''b''\<rparr>"
  by (simp_all add: pairB_def lookup_def fun_eq_iff ID_def)

lemma meeting: "\<exists>x y. exchange ref_env (replicate 12 0) None (onWire x) (pair StateAlive) (streamOf y) pairB"
proof -
  obtain p q where t: "tells ref_env (replicate 12 0) None (pair StateAlive) p" "tells ref_env (replicate 12 0) None pairB q"
    using tellsPair by blast
  then have "\<exists>req rest nonceB rep rest'. tells ref_env (replicate 12 0) None (pair StateAlive) req \<and> tc_reply (sio_conn (streamOf p)) = req @ rest
      \<and> tells ref_env nonceB (sio_usr (streamOf p)) pairB rep \<and> sio_nonce (streamOf p) = Ok nonceB \<and> tc_reply (onWire q) = rep @ rest'"
    by - (rule exI [of _ p], rule exI [of _ "[]"], rule exI [of _ "replicate 12 0"], rule exI [of _ q], rule exI [of _ "[]"],
      simp add: onWire_def streamOf_def)
  then have "exchange ref_env (replicate 12 0) None (onWire q) (pair StateAlive) (streamOf p) pairB"
    unfolding exchange_def by (simp add: onWire_def streamOf_def open_conn_def DefaultLANConfig_def)
  then show ?thesis by blast
qed


text \<open>A state with a user message in its queue.\<close>

definition userQueued :: "'h Memberlist \<Rightarrow> 'h Memberlist" where
  "userQueued m = m\<lparr>m_longRunMng := (m_longRunMng m)\<lparr>lm_low := [\<lparr>lm_type = userMsg, lm_msg = [7], lm_from = \<lparr>ua_IP = [], ua_Port = 1\<rparr>\<rparr>]\<rparr>\<rparr>"


text \<open>Node \<open>a\<close> with an address to advertise.\<close>

definition advertised :: "TransmitCapItem list Memberlist" where
  "advertised = (pair StateAlive)\<lparr>m_config := DefaultLANConfig\<lparr>c_ID := ''a'', c_AdvertiseAddr := ''10.0.0.1''\<rparr>\<rparr>"

lemma advertised_simps [simp]: "m_keyring advertised = None" "c_Label (m_config advertised) = []"
  by (simp_all add: advertised_def)

lemma advertised_addr: "GetAdvertiseAddr advertised = Ok (v4InV6 [10, 0, 0, 1], 7946)"
  by (simp add: advertised_def GetAdvertiseAddr_def ParseIP_10) (simp add: DefaultLANConfig_def)

lemma length_wBytes: "length (wBytes xs) = 2 * length xs + 1"
  by (induction xs) simp_all

lemma ref_packs:
  assumes "m_keyring m = None" and "\<exists>msg. encode ref_codec t x = Ok msg \<and> length msg < 1000"
  shows "\<exists>p. packs ref_env (replicate 12 0) t x m p"
proof -
  obtain msg where msg: "encode ref_codec t x = Ok msg" "length msg < 1000" using assms(2) by blast
  obtain p where "packTcp ref_codec (m_config m) None (Ok (replicate 12 0)) msg (c_Label (m_config m)) = Ok p"
    using ref_packTcp by fastforce
  with msg assms(1) show ?thesis by (auto simp: packs_def maxPushSize_def)
qed

section \<open>Sockets and addresses\<close>

definition transportA :: NetTransport where
  "transportA = \<lparr>nt_bindAddrs = [''127.0.0.1''], nt_bindPort = 7946, nt_udpConns = [], nt_tcpListeners = [],
     nt_listening = [], nt_shutdown = False\<rparr>"

lemma transportA_starts: "\<exists>t s. Start ref_os transportA [] = (Ok (), t, s)"
proof -
  have "fst (Start ref_os transportA []) = Ok ()" by code_simp
  then show ?thesis by (cases "Start ref_os transportA []") auto
qed

lemma loopback6: "IP_String (replicate 15 0 @ [1]) = ''::1''" "To4 (replicate 15 0 @ [1]) = None"
  by code_simp+


section \<open>A cluster that starts\<close>

text \<open>The nodes that \<open>builderA\<close> gives, and the cluster after \<open>a\<close> has started.\<close>

definition cluster0 :: "TransmitCapItem list cluster" where
  "cluster0 = builtCluster ref_env (the (b_config builderA)) builderA"

definition helloA :: alive where
  "helloA = \<lparr>a_Lives = 1, a_ID = ''a'', a_IP = v4InV6 [10, 0, 0, 1],
     a_Port = of_int (c_AdvertisePort (the (b_config builderA))), a_Tags = []\<rparr>"

definition startedNode :: "TransmitCapItem list Memberlist" where
  "startedNode = aliveNode ref_env 1 0 helloA None ((cl_node cluster0 ''a'')\<lparr>m_lives := 1\<rparr>)"

definition cluster1 :: "TransmitCapItem list cluster" where
  "cluster1 = become set ''a'' startedNode cluster0"

lemma cluster0_unstarted: "unstarted list_inv set cluster0"
  unfolding cluster0_def by (rule re.builtCluster_unstarted)

lemma cluster0_simps:
  "lives cluster0 i = 0" "c_Tags (m_config (cl_node cluster0 i)) = []" "ID (cl_node cluster0 i) = i"
  "c_AdvertiseAddr (m_config (cl_node cluster0 i)) = ''10.0.0.1''"
  "c_AdvertisePort (m_config (cl_node cluster0 i)) = c_AdvertisePort (the (b_config builderA))"
  "c_CIDRsAllowed (m_config (cl_node cluster0 i)) = c_CIDRsAllowed DefaultLANConfig"
  "m_mbroadcasts (cl_node cluster0 i) = NewBroadcastQueue list_heap (c_RetransmitMult DefaultLANConfig)"
  "m_left (cl_node cluster0 i) = False" "m_nodeMap (cl_node cluster0 i) = Map.empty"
  by (simp_all add: cluster0_def builtCluster_def newMemberlist_def ID_def builderA_def DefaultLANConfig_def)


lemma cluster0_setAlive: "setAlive ref_env bootA (cl_node cluster0 ''a'') = (Ok (), startedNode)"
  by (simp add: setAlive_def cluster0_simps GetAdvertiseAddr_def ParseIP_10 nextLiveNo_def Let_def startedNode_def
      helloA_def bootA_def TagMaxSize_def)

lemma cluster1_reached: "(cluster_step ref_env list_inv set)\<^sup>*\<^sup>* cluster0 cluster1"
proof (rule r_into_rtranclp)
  have "able (cl_node cluster0 ''a'')" by (simp add: able_def cluster0_simps NewBroadcastQueue_def)
  from cluster_step.starts [OF refl this cluster0_setAlive] show "cluster_step ref_env list_inv set cluster0 cluster1"
    unfolding cluster1_def .
qed

lemma startedNode_eq:
  "startedNode = NotifyJoin (ns_Node (freshNode 1 helloA)) (broadcast ref_env ''a'' aliveMsg (P_alive helloA) None
     (addNode 0 (freshNode 1 helloA) ((cl_node cluster0 ''a'')\<lparr>m_lives := 1\<rparr>)))"
proof -
  have "admits ((cl_node cluster0 ''a'')\<lparr>m_lives := 1\<rparr>) helloA" "a_ID helloA = ''a''"
    by (simp_all add: admits_def cluster0_simps IPAllowed_def DefaultLANConfig_def helloA_def)
  from aliveNode_new [OF this(1), of ref_env 1 0 None] this(2) show ?thesis by (simp add: startedNode_def cluster0_simps)
qed

lemma cluster1_simps:
  "cl_node cluster1 ''a'' = startedNode" "cl_node cluster1 ''b'' = cl_node cluster0 ''b''"
  "news set startedNode \<subseteq> cl_wire cluster1"
  by (auto simp: cluster1_def become_def)

lemma startedNode_lookup: "lookup startedNode ''a'' = Some (freshNode 1 helloA)" "m_lives startedNode = 1" "ID startedNode = ''a''"
proof -
  have wf: "member_wf ((cl_node cluster0 ''a'')\<lparr>m_lives := 1\<rparr>)"
    by (rule iffD2 [OF core_facts(1) [of _ "cl_node cluster0 ''a''"]])
       (use cluster0_unstarted in \<open>simp_all add: core_def unstarted_def node_ok_def\<close>)
  show "lookup startedNode ''a'' = Some (freshNode 1 helloA)"
    using aliveNode_view_wf(1) [OF wf, of ref_env 1 0 helloA None]
    by (simp add: startedNode_def admits_def cluster0_simps IPAllowed_def DefaultLANConfig_def helloA_def alive_spec_def
        lookup_def)
  show "m_lives startedNode = 1" "ID startedNode = ''a''"
    using cluster0_simps(3) [of "''a''"] by (simp_all add: startedNode_def ID_def)
qed

lemma startedNode_queue:
  "m_mbroadcasts startedNode = QueueMsg ref_codec list_heap ''a'' aliveMsg (P_alive helloA) None
     (NewBroadcastQueue list_heap (c_RetransmitMult DefaultLANConfig))"
  by (simp add: startedNode_eq cluster0_simps broadcast_def NotifyJoin_def send_def addNode_def setNode_def Let_def ref_env_def)

lemma hello_on_wire: "\<exists>body. tag aliveMsg # body \<in> cl_wire cluster1"
proof -
  obtain body where b: "encode ref_codec aliveMsg (P_alive helloA) = Ok (tag aliveMsg # body)"
    by (simp add: encode_def ref_codec_def)
  have "q_idSeq (NewBroadcastQueue list_heap (c_RetransmitMult DefaultLANConfig)) \<noteq> - 1"
    by (simp add: NewBroadcastQueue_def)
  from lh.QueueMsg_spec(2) [OF pair_queue_wf this b, of "''a''" None]
  have "tag aliveMsg # body \<in> news set startedNode" by (simp add: news_def startedNode_queue)
  with cluster1_simps(3) show ?thesis by blast
qed

lemma startedNode_able: "able startedNode"
  by (simp add: able_def startedNode_lookup startedNode_queue QueueMsg_def NewBroadcastQueue_def encode_def ref_codec_def
      Push_def Let_def)

end
