(* ===== verification/TestAddr.thy ===== *)
theory TestAddr
  imports Config
begin

text \<open>
  \<^verbatim>\<open>src/testaddr/bindAddr.go\<close>: the pool of loopback addresses. \<open>NextAddr\<close> is a function of the pool that
  is \<open>None\<close> where it would wait; \<open>pool_step\<close> is the transition system of several goroutines that take,
  wait for and return addresses.
\<close>

section \<open>The pool\<close>

record AddressList =
  al_ips :: "IP list"

definition newAddressList :: "byte \<Rightarrow> byte \<Rightarrow> AddressList" where
  "newAddressList from to = \<lparr>al_ips = map (\<lambda>b. v4InV6 [127, 0, 0, of_nat b]) [unat from..<unat to]\<rparr>"

definition BindAddrs :: AddressList where
  "BindAddrs = newAddressList 10 128"

definition NextAddr :: "AddressList \<Rightarrow> (IP \<times> AddressList) option" where
  "NextAddr a = (case al_ips a of [] \<Rightarrow> None | ip # ips \<Rightarrow> Some (ip, a\<lparr>al_ips := ips\<rparr>))"

definition ReturnAddr :: "IP \<Rightarrow> AddressList \<Rightarrow> AddressList" where
  "ReturnAddr ip a = a\<lparr>al_ips := al_ips a @ [ip]\<rparr>"

text \<open>The attempts left of \<open>NextAvailAddr\<close>; \<open>listens\<close> says whether the address can be bound. The cleanup
  function it returns closes the listener and returns the address.\<close>

fun nextAvailLoop :: "(IP \<Rightarrow> bool) \<Rightarrow> nat \<Rightarrow> AddressList \<Rightarrow> (IP outcome \<times> AddressList) option" where
  "nextAvailLoop listens 0 a = Some (Panic NoAvailableAddr, a)"
| "nextAvailLoop listens (Suc n) a =
     (case NextAddr a of
        None \<Rightarrow> None
      | Some (ip, a1) \<Rightarrow> if listens ip then Some (Ok ip, a1) else nextAvailLoop listens n (ReturnAddr ip a1))"

definition NextAvailAddr :: "(IP \<Rightarrow> bool) \<Rightarrow> AddressList \<Rightarrow> (IP outcome \<times> AddressList) option" where
  "NextAvailAddr listens a = nextAvailLoop listens 19 a"

section \<open>Goroutines that share the pool\<close>

text \<open>
  Where a goroutine is: outside the calls, between the unlock and the receive of \<open>NextAddr\<close>, or in
  the receive. A send to \<open>gotFreeAddrCh\<close> reaches a goroutine only in the receive, which then starts
  \<open>NextAddr\<close> again.
\<close>

datatype phase = Outside | Unlocked | Receiving

record pool =
  pl_list :: AddressList
  pl_phase :: "nat \<Rightarrow> phase"
  pl_held :: "(nat \<times> IP) list"

inductive pool_step :: "pool \<Rightarrow> pool \<Rightarrow> bool" where
  take: "pl_phase p g = Outside \<Longrightarrow> NextAddr (pl_list p) = Some (ip, a)
    \<Longrightarrow> pool_step p (p\<lparr>pl_list := a, pl_held := (g, ip) # pl_held p\<rparr>)"
| empty: "pl_phase p g = Outside \<Longrightarrow> NextAddr (pl_list p) = None
    \<Longrightarrow> pool_step p (p\<lparr>pl_phase := (pl_phase p)(g := Unlocked)\<rparr>)"
| wait: "pl_phase p g = Unlocked \<Longrightarrow> pool_step p (p\<lparr>pl_phase := (pl_phase p)(g := Receiving)\<rparr>)"
| give: "(g, ip) \<in> set (pl_held p) \<Longrightarrow> \<nexists>h. pl_phase p h = Receiving
    \<Longrightarrow> pool_step p (p\<lparr>pl_list := ReturnAddr ip (pl_list p), pl_held := remove1 (g, ip) (pl_held p)\<rparr>)"
| wake: "(g, ip) \<in> set (pl_held p) \<Longrightarrow> pl_phase p h = Receiving
    \<Longrightarrow> pool_step p (p\<lparr>pl_list := ReturnAddr ip (pl_list p), pl_held := remove1 (g, ip) (pl_held p),
          pl_phase := (pl_phase p)(h := Outside)\<rparr>)"

inductive_cases pool_stepE: "pool_step p p'"

definition poolInit :: "AddressList \<Rightarrow> pool" where
  "poolInit a = \<lparr>pl_list = a, pl_phase = (\<lambda>_. Outside), pl_held = []\<rparr>"

abbreviation pool_run :: "pool \<Rightarrow> pool \<Rightarrow> bool" where
  "pool_run \<equiv> pool_step\<^sup>*\<^sup>*"

definition addresses :: "pool \<Rightarrow> IP multiset" where
  "addresses p = mset (al_ips (pl_list p)) + mset (map snd (pl_held p))"

text \<open>No address is lost or handed out twice.\<close>

lemma held_remove1: "x \<in> set hs \<Longrightarrow> mset (map snd hs) = add_mset (snd x) (mset (map snd (remove1 x hs)))"
  by (induction hs) auto

lemma pool_step_addresses: "pool_step p p' \<Longrightarrow> addresses p' = addresses p"
proof (induction rule: pool_step.induct)
  case (take p g ip a)
  then show ?case by (auto simp: addresses_def NextAddr_def split: list.splits)
next
  case (give g ip p)
  then show ?case using held_remove1 [OF give(1)] by (simp add: addresses_def ReturnAddr_def)
next
  case (wake g ip p h)
  then show ?case using held_remove1 [OF wake(1)] by (simp add: addresses_def ReturnAddr_def)
qed (auto simp: addresses_def)

lemma pool_run_addresses: "pool_run p p' \<Longrightarrow> addresses p' = addresses p"
  by (induction rule: rtranclp_induct) (simp_all add: pool_step_addresses)

lemma pool_run_distinct:
  assumes "pool_run (poolInit a) p" and "distinct (al_ips a)"
  shows "distinct (al_ips (pl_list p) @ map snd (pl_held p))"
    and "set (al_ips (pl_list p)) \<union> snd ` set (pl_held p) = set (al_ips a)"
proof -
  have m: "mset (al_ips (pl_list p) @ map snd (pl_held p)) = mset (al_ips a)"
    using pool_run_addresses [OF assms(1)] by (simp add: addresses_def poolInit_def)
  show "distinct (al_ips (pl_list p) @ map snd (pl_held p))" using mset_eq_imp_distinct_iff [OF m] assms(2) by blast
  show "set (al_ips (pl_list p)) \<union> snd ` set (pl_held p) = set (al_ips a)" using mset_eq_setD [OF m] by simp
qed

lemma newAddressList_distinct: "distinct (al_ips (newAddressList from to))"
proof -
  have "inj_on (\<lambda>b. v4InV6 [127, 0, 0, of_nat b]) {unat from..<unat to}"
  proof (rule inj_onI)
    fix b c assume bc: "b \<in> {unat from..<unat to}" "c \<in> {unat from..<unat to}"
      and eq: "v4InV6 [127, 0, 0, of_nat b] = v4InV6 [127, 0, 0, of_nat c]"
    have "unat to < 256" using unsigned_less [of to, where ?'a = nat] by simp
    with bc have "b < 256" "c < 256" by simp_all
    moreover have "(of_nat b :: byte) = of_nat c" using eq by (simp add: v4InV6_def)
    moreover have "unat (of_nat n :: byte) = n" if "n < 256" for n using that by (simp add: unsigned_of_nat take_bit_nat_eq_self)
    ultimately show "b = c" by metis
  qed
  then show ?thesis by (simp add: newAddressList_def distinct_map)
qed

section \<open>The first address that can be bound\<close>

lemma NextAddr_rotate: "al_ips a \<noteq> [] \<Longrightarrow> NextAddr a = Some (hd (al_ips a), a\<lparr>al_ips := tl (al_ips a)\<rparr>)"
  by (cases "al_ips a") (simp_all add: NextAddr_def)

lemma ReturnAddr_rotate: "al_ips a \<noteq> [] \<Longrightarrow> ReturnAddr (hd (al_ips a)) (a\<lparr>al_ips := tl (al_ips a)\<rparr>) = a\<lparr>al_ips := rotate1 (al_ips a)\<rparr>"
  by (cases "al_ips a") (simp_all add: ReturnAddr_def)

lemma nextAvailLoop_found:
  "al_ips a \<noteq> [] \<Longrightarrow> i < n \<Longrightarrow> \<forall>j < i. \<not> listens (hd (rotate j (al_ips a))) \<Longrightarrow> listens (hd (rotate i (al_ips a))) \<Longrightarrow>
   nextAvailLoop listens n a = Some (Ok (hd (rotate i (al_ips a))), a\<lparr>al_ips := tl (rotate i (al_ips a))\<rparr>)"
proof (induction n arbitrary: a i)
  case (Suc n)
  note N = NextAddr_rotate [OF Suc.prems(1)]
  show ?case
  proof (cases i)
    case 0
    with Suc.prems N show ?thesis by simp
  next
    case (Suc k)
    let ?a = "a\<lparr>al_ips := rotate1 (al_ips a)\<rparr>"
    have "\<not> listens (hd (al_ips a))" using Suc.prems(3) [rule_format, of 0] Suc by simp
    moreover have "nextAvailLoop listens n ?a = Some (Ok (hd (rotate k (al_ips ?a))), ?a\<lparr>al_ips := tl (rotate k (al_ips ?a))\<rparr>)"
      using Suc.prems Suc by (intro Suc.IH) (auto simp: rotate1_rotate_swap)
    ultimately show ?thesis using N Suc ReturnAddr_rotate [OF Suc.prems(1)] by (simp add: rotate1_rotate_swap)
  qed
qed simp

lemma nextAvailLoop_panics:
  "al_ips a \<noteq> [] \<Longrightarrow> \<forall>j < n. \<not> listens (hd (rotate j (al_ips a))) \<Longrightarrow>
   nextAvailLoop listens n a = Some (Panic NoAvailableAddr, a\<lparr>al_ips := rotate n (al_ips a)\<rparr>)"
proof (induction n arbitrary: a)
  case (Suc n)
  let ?a = "a\<lparr>al_ips := rotate1 (al_ips a)\<rparr>"
  have "\<not> listens (hd (al_ips a))" using Suc.prems(2) [rule_format, of 0] by simp
  moreover have "nextAvailLoop listens n ?a = Some (Panic NoAvailableAddr, ?a\<lparr>al_ips := rotate n (al_ips ?a)\<rparr>)"
    using Suc.prems by (intro Suc.IH) (auto simp: rotate1_rotate_swap)
  ultimately show ?case using NextAddr_rotate [OF Suc.prems(1)] ReturnAddr_rotate [OF Suc.prems(1)] by (simp add: rotate1_rotate_swap)
qed simp

section \<open>A lost wake-up\<close>

text \<open>An address returned between the unlock and the receive of a waiting goroutine does not wake it.\<close>

lemma wake_up_missed:
  "\<exists>p. pool_run (poolInit \<lparr>al_ips = [ip]\<rparr>) p \<and> al_ips (pl_list p) = [ip] \<and> pl_held p = [] \<and> pl_phase p 1 = Receiving
     \<and> (\<forall>p'. pool_step p p' \<longrightarrow> pl_phase p' 1 = Receiving)"
proof -
  let ?f = "(\<lambda>_. Outside)(1 := Unlocked)"
  let ?p1 = "\<lparr>pl_list = \<lparr>al_ips = []\<rparr>, pl_phase = (\<lambda>_. Outside), pl_held = [(0, ip)]\<rparr>"
  let ?p2 = "\<lparr>pl_list = \<lparr>al_ips = []\<rparr>, pl_phase = ?f, pl_held = [(0, ip)]\<rparr>"
  let ?p3 = "\<lparr>pl_list = \<lparr>al_ips = [ip]\<rparr>, pl_phase = ?f, pl_held = []\<rparr>"
  let ?p4 = "\<lparr>pl_list = \<lparr>al_ips = [ip]\<rparr>, pl_phase = ?f(1 := Receiving), pl_held = []\<rparr>"
  have s1: "pool_step (poolInit \<lparr>al_ips = [ip]\<rparr>) ?p1"
    using pool_step.take [of "poolInit \<lparr>al_ips = [ip]\<rparr>" 0 ip "\<lparr>al_ips = []\<rparr>"] by (simp add: poolInit_def NextAddr_def)
  have s2: "pool_step ?p1 ?p2" using pool_step.empty [of ?p1 1] by (simp add: NextAddr_def)
  have s3: "pool_step ?p2 ?p3" using pool_step.give [of 0 ip ?p2] by (simp add: ReturnAddr_def)
  have s4: "pool_step ?p3 ?p4" using pool_step.wait [of ?p3 1] by simp
  have "pool_run (poolInit \<lparr>al_ips = [ip]\<rparr>) ?p4"
    by (rule converse_rtranclp_into_rtranclp, rule s1, rule converse_rtranclp_into_rtranclp, rule s2,
        rule converse_rtranclp_into_rtranclp, rule s3, rule r_into_rtranclp, rule s4)
  moreover have "pl_phase p' 1 = Receiving" if "pool_step ?p4 p'" for p'
    using that by (cases rule: pool_step.cases) (auto simp: NextAddr_def)
  ultimately show ?thesis by (intro exI [of _ ?p4]) simp
qed

end
