(* ===== verification/Spec2Isabelle.thy ===== *)
theory Spec2Isabelle
  imports Cluster TestAddr
begin

text \<open>
  A verification development of \<^verbatim>\<open>mlist\<close>, a library in Go that keeps track of the members of a cluster
  by gossip, in the style of SWIM: nodes probe each other, spread what they learn by piggybacking it
  on other packets, exchange full states over TCP, and refute wrong suspicions with a growing number
  of lives.

  \<^bold>\<open>Parts of the program and theories.\<close> Names of functions and structs are those of the source; the
  fields of a struct have a prefix (\<open>m_\<close> for \<open>Memberlist\<close>, \<open>ns_\<close> for \<open>nodeState\<close>, and so on).

  \<^item> \<open>Prelude\<close>: machine integers (\<open>int\<close> with \<open>wrap64\<close> and \<open>wrap32\<close> for Go's \<open>int\<close> and \<open>int32\<close>, words for
    unsigned types), the type \<open>outcome\<close> of a fallible call (a value, an error or a panic), big-endian
    encodings.
  \<^item> \<open>Config\<close> (\<^verbatim>\<open>config.go\<close>, \<open>IPAllowed\<close>), \<open>Awareness\<close> (\<^verbatim>\<open>awareness.go\<close>), \<open>Suspicion\<close>
    (\<^verbatim>\<open>suspicion.go\<close>), \<open>Keyring\<close> (\<^verbatim>\<open>keyring.go\<close>), \<open>PingMng\<close> (the ping manager of \<^verbatim>\<open>ping.go\<close>),
    \<open>Scaling\<close> (the functions that scale with the cluster size).
  \<^item> \<open>Broadcast\<close> (\<^verbatim>\<open>broadcast.go\<close>): the queue of messages to be gossiped, over the interface
    \<open>item_heap\<close> of the third-party heap.
  \<^item> \<open>Wire\<close> and \<open>Codec\<close>: message types, message structs, compound messages (\<^verbatim>\<open>util.go\<close>,
    \<^verbatim>\<open>net_handlers.go\<close>), and the interface \<open>codec_laws\<close> of the third-party msgpack codec.
  \<^item> \<open>AesGcm\<close>, \<open>Lzw\<close>, \<open>Encrypt\<close> (\<^verbatim>\<open>encrypt.go\<close>), \<open>Packet\<close> (packing and unpacking in
    \<^verbatim>\<open>net_transport.go\<close>, compression in \<^verbatim>\<open>util.go\<close>). The cipher and the compressor of the standard library
    are defined in full and proved to round trip.
  \<^item> \<open>IPText\<close> and \<open>Resolve\<close>: how the standard library prints and parses addresses, and on top of it
    \<open>ResolveAddr\<close>, \<open>ParseCIDRs\<close> and their helpers (\<^verbatim>\<open>net_transport.go\<close>, \<^verbatim>\<open>util.go\<close>).
  \<^item> \<open>Transport\<close>: sockets of the transport, its start, listeners and shutdown (\<^verbatim>\<open>net_transport.go\<close>) over the
    interface \<open>kernel_laws\<close> of the operating system.
  \<^item> \<open>LongRun\<close>: the queue of long-running messages of \<^verbatim>\<open>net_handlers.go\<close> and its handler goroutine.
  \<^item> \<open>State\<close>, \<open>StateInv\<close>, \<open>StateOps\<close>, \<open>Gossip\<close>: the struct \<open>Memberlist\<close> (\<^verbatim>\<open>memberlist.go\<close>), the events
    (\<^verbatim>\<open>node_events.go\<close>) and the transitions of \<^verbatim>\<open>state.go\<close>; their invariant; the abstract transitions on
    views they refine; the order in which every history moves.
  \<^item> \<open>Send\<close> (sending of packets in \<^verbatim>\<open>net_transport.go\<close>), \<open>Maintenance\<close> (gossip, choice of the next node to
    probe, reaping, \<^verbatim>\<open>maintenance.go\<close>), \<open>Probe\<close> (the pings of \<^verbatim>\<open>ping.go\<close>, \<open>probeNode\<close>, the tickers),
    \<open>PushPull\<close> (\<^verbatim>\<open>pushpull.go\<close>), \<open>Handlers\<close> and \<open>Streams\<close> (\<^verbatim>\<open>net_handlers.go\<close>: packets, queued messages,
    connections).
  \<^item> \<open>Delivery\<close>: one node's sending composed with another node's receiving, for packets, states and pings.
  \<^item> \<open>Members\<close>: the builder, \<open>Join\<close>, \<open>Leave\<close>, \<open>UpdateTags\<close>, \<open>Shutdown\<close> and the accessors (\<^verbatim>\<open>memberlist.go\<close>).
  \<^item> \<open>Running\<close>: the receive loops, and the whole node as the step relation \<open>node_step\<close> over everything its
    goroutines and its user do; every step is a sequence of critical sections under \<open>nodeL\<close>.
  \<^item> \<open>Honest\<close>: a cluster of such nodes, whose critical sections interleave and whose messages are lost, repeated,
    reordered and delayed at will, as the step relation \<open>cluster_step\<close>; in its invariant the number of lives of
    a node bounds what others know and say of it.
  \<^item> \<open>Crash\<close>: which bytes from the network make a handler panic, for a node that can send, as one
    built with a supported encryption version can.
  \<^item> \<open>TestAddr\<close>: the pool of loopback addresses of \<^verbatim>\<open>testaddr/bindAddr.go\<close> and its goroutines.
  \<^item> \<open>Cluster\<close>: small concrete states at which the properties below are instantiated.

  \<^bold>\<open>How the state is modelled.\<close> A \<open>*nodeState\<close> is shared between a slice and a map and is updated in place,
  so pointers are explicit (\<open>m_store\<close>). Each function that runs under a lock is one function on the
  state. Time, random draws, and what arrives from the network are arguments. A channel send is
  recorded. \<open>None\<close> as a result is a call that never returns; it occurs where the code loops or waits for
  a mutex, and the properties say when it does. No fuel is used: loops are structural recursions,
  recursions with a termination proof, or \<open>partial_function (option)\<close>.

  \<^bold>\<open>Third-party code\<close> is a parameter with the laws the code relies on: the heap (\<open>item_heap\<close>), the msgpack
  codec (\<open>codec_laws\<close>), floating-point rounding (\<open>float64\<close>), all bundled in \<open>net_env\<close>, and the sockets of the
  operating system (\<open>kernel_laws\<close>). Each has a concrete instance (\<open>list_heap\<close>, \<open>ref_codec\<close>, \<open>exact_flops\<close>,
  \<open>ref_env\<close>, \<open>ref_os\<close>) that shows the laws can hold. DNS answers, the user's delegates and the choice of a
  private interface are arguments without laws.

  \<^bold>\<open>What the properties show.\<close> A node that is built stays well-formed in every state it reaches, and a node
  that left stays left; joining makes two nodes know each other's members; a failed start gives its
  sockets back. In a cluster whose nodes all run this code, lives belong to their owner, so no message blocks
  a node and a refutation convinces everybody it reaches. The membership state only moves up in the order of
  lives and states; the handlers refine simple transitions on views; when they return and when they hang; timers, reaping, probing and suspicion
  do what they promise. Packets, streams, compounds and states survive the trip over the wire, corrupted
  packets are rejected, and a message that arrives does what the call it stands for does. Addresses and
  networks survive printing and parsing. The broadcast queue picks, supersedes and drops as documented. A few
  properties state defects of the code: \<open>compound_overflow\<close>, \<open>packet_crashes_iff\<close>, \<open>stream_crashes_iff\<close>,
  \<open>full_queue_deadlocks\<close>, \<open>wake_up_lost\<close>, \<open>bare_IPv6_rejected\<close> and \<open>handler_never_returns_iff\<close>.

  \<^bold>\<open>Not modelled.\<close> Logging, deadlines on connections, and the text of most errors. The scheduling of goroutines is
  that of whole handlers in \<open>node_step\<close> and of critical sections in \<open>section_step\<close>; the steps within a section
  are not interleaved, because the code holds its lock there. In \<open>cluster_step\<close> a node whose counter of lives or
  of queued messages is at its largest value takes no step that would increase it: its wrap-around would undo the
  order of lives. A channel with a slow reader is a growing list, except where the waiting matters (\<open>LongRun\<close>,
  \<open>TestAddr\<close>). The third-party packages above are not modelled, as their source is not part of the repository.
\<close>

section \<open>The life of a node\<close>

text \<open>
  C1. Every state that a node built by \<open>Build\<close> reaches, through packets, connections, queued messages,
  timers, scheduled tasks and calls of its user in any order, is well-formed: slice, map and count agree,
  a suspicion exists exactly for the suspected nodes, and the node does not suspect itself. It keeps its ID
  and its tags fit.
\<close>

theorem node_well_formed:
  assumes "kernel_laws OS opened" and "Build E OS io b s = (Ok (m, t, tasks), s')" and "reaches E m m'"
  shows "member_wf m' \<and> ID m' = UniqueID (bo_uuid io) \<and> length (c_Tags (m_config m')) \<le> TagMaxSize"
  using kernel_laws.Build_Ok [OF assms(1,2)] reaches_wf [OF assms(3)] by (auto simp: ID_def)

theorem node_well_formed_witness:
  "\<exists>m t tasks s'. Build ref_env ref_os bootA builderA [] = (Ok (m, t, tasks), s')
     \<and> member_wf (reap (\<lambda>_. 9) (\<lambda>_. 0) (m\<lparr>m_shutdown := True\<rparr>))"
proof -
  obtain m t tasks s' where b: "Build ref_env ref_os bootA builderA [] = (Ok (m, t, tasks), s')" using builtA by blast
  have "reaches ref_env m (reap (\<lambda>_. 9) (\<lambda>_. 0) (m\<lparr>m_shutdown := True\<rparr>))"
    unfolding reaches_def by (rule rtranclp.rtrancl_into_rtrancl [OF r_into_rtranclp]) (rule shut_down, rule reap_task)
  from node_well_formed [OF rk.kernel_laws_axioms b this] b show ?thesis by blast
qed





text \<open>
  C4. Whatever the hosts and answers, \<open>Join\<close> keeps the memberlist well-formed and loses nothing of what it
  knows. It returns no error if an exchange succeeded; it returns neither success nor error only if
  every host resolved to no address.
\<close>

theorem join_reports:
  assumes "Join E io existing m = Some (Ok (k, err), m')" and "member_wf m"
  shows "member_wf m' \<and> view_le (lookup m) (lookup m') \<and> 0 \<le> k \<and> (0 < k \<longrightarrow> err = None)
    \<and> (k = 0 \<and> err = None \<longrightarrow>
         (\<forall>h \<in> set existing. \<exists>port. ResolveAddr (jo_resolver io) h (c_DNSConfigPath (m_config m)) = Ok ([], port)))"
  using Join_spec [OF assms] by blast

theorem join_reports_witness:
  "\<exists>err m'. Join ref_env (joinIo (onWire [])) [''::1''] (pair StateAlive) = Some (Ok (0, err), m') \<and> err \<noteq> None \<and> member_wf m'"
proof -
  have r: "ResolveAddr R ''::1'' conf = addrErr ''::1:0'' ''too many colons in address''" for R conf
    using ResolveAddr_bare_IPv6 [of "replicate 15 0 @ [1]"] loopback6 by simp
  then obtain err where j: "Join ref_env (joinIo (onWire [])) [''::1''] (pair StateAlive) = Some (Ok (0, err), pair StateAlive)"
    using Join_nobody [of "[''::1'']" "joinIo (onWire [])" "pair StateAlive" ref_env] by (auto simp: addrErr_def)
  from join_reports [OF j pair_wf [of StateAlive]] r j show ?thesis by (auto simp: addrErr_def)
qed



text \<open>
  C6. When \<open>Build\<close> fails, every socket it opened is closed again, except datagram sockets whose buffer could not
  be set to any size.
\<close>

theorem failed_build_releases:
  assumes "kernel_laws OS opened" and "Build E OS io b s = (Err e, s')"
  shows "opened s \<subseteq> opened s' \<and> (\<forall>c \<in> opened s' - opened s. \<forall>n. setUDPSocketBuf OS c \<noteq> Ok n)"
  using kernel_laws.Build_Err [OF assms] by (auto simp: kernel_laws.unbuffered_def [OF assms(1)])

theorem failed_build_releases_witness:
  "\<exists>e s'. Build ref_env ref_os (bootA\<lparr>bo_isPublic := (\<lambda>_. Ok True)\<rparr>) builderA [] = (Err e, s')
     \<and> (\<forall>c \<in> set s'. \<forall>n. setUDPSocketBuf ref_os c \<noteq> Ok n)"
proof -
  obtain e s' where b: "Build ref_env ref_os (bootA\<lparr>bo_isPublic := (\<lambda>_. Ok True)\<rparr>) builderA [] = (Err e, s')"
    using buildA_fails by blast
  from failed_build_releases [OF rk.kernel_laws_axioms b] b show ?thesis by auto
qed

section \<open>A cluster of nodes that run this code\<close>

text \<open>
  C7. The number of lives of a node is its own: in every state that a cluster of nodes running this code reaches
  from before its start, with messages lost, repeated, reordered and delayed, no node knows another with more
  lives than that node has.
\<close>

theorem lives_belong_to_owner:
  assumes "net_env E hinv elems" and "unstarted hinv elems c0" and "(cluster_step E hinv elems)\<^sup>*\<^sup>* c0 c"
    and "lookup (cl_node c j) i = Some n"
  shows "ns_Lives n \<le> m_lives (cl_node c i)"
  using accurateD(3) [OF net_env.reachable_accurate [OF assms(1,3) unstarted_accurate [OF assms(2)]] assms(4)] .

theorem lives_belong_to_owner_witness:
  "(cluster_step ref_env list_inv set)\<^sup>*\<^sup>* cluster0 cluster1
     \<and> (\<exists>n. lookup (cl_node cluster1 ''a'') ''a'' = Some n \<and> ns_Lives n \<le> m_lives (cl_node cluster1 ''a''))"
  using lives_belong_to_owner [OF re.net_env_axioms cluster0_unstarted cluster1_reached, of "''a''" "''a''"]
    cluster1_reached startedNode_lookup(1) cluster1_simps(1)
  by auto

text \<open>
  C8. In such a cluster no message blocks its receiver: the handler of queued messages returns on every
  message that was ever in a node's queue, unless the receiver has used up its lives.
\<close>

theorem honest_cluster_never_hangs:
  assumes "net_env E hinv elems" and "unstarted hinv elems c0" and "(cluster_step E hinv elems)\<^sup>*\<^sup>* c0 c"
    and "m_lives (cl_node c j) \<noteq> - 1" and "tag t # body \<in> cl_wire c"
  shows "\<exists>m'. handleLongRunMsg E now rnd \<lparr>lm_type = t, lm_msg = body, lm_from = from\<rparr> (cl_node c j) = Some m'"
  using net_env.honest_message_handled [OF assms(1)
      net_env.reachable_accurate [OF assms(1,3) unstarted_accurate [OF assms(2)]] assms(4,5)]
  by blast

theorem honest_cluster_never_hangs_witness:
  "\<exists>body m'. tag aliveMsg # body \<in> cl_wire cluster1
     \<and> handleLongRunMsg ref_env 3 0 \<lparr>lm_type = aliveMsg, lm_msg = body, lm_from = \<lparr>ua_IP = [], ua_Port = 0\<rparr>\<rparr>
         (cl_node cluster1 ''b'') = Some m'"
proof -
  obtain body where b: "tag aliveMsg # body \<in> cl_wire cluster1" using hello_on_wire by blast
  have "m_lives (cl_node cluster1 ''b'') \<noteq> - 1" by (simp add: cluster1_simps cluster0_simps)
  from honest_cluster_never_hangs [OF re.net_env_axioms cluster0_unstarted cluster1_reached this b] b show ?thesis by blast
qed



section \<open>The membership state\<close>

text \<open>
  Processing any sequence of membership messages and suspicion timers keeps the invariant of
  the membership state: the slice, the map and the store of nodes agree, a node is suspected exactly
  when it has a running suspicion whose callback captured its name and lives, and the local node is
  never suspected and is alive until it has left.
\<close>

theorem history_keeps_invariant:
  assumes "member_wf m" and "runOps (handle E) inputs m = Some m'"
  shows "member_wf m'"
  using assms by (rule hi.run_wf)

theorem history_keeps_invariant_witness:
  "\<exists>m'. runOps (handle ref_env) story (pair StateAlive) = Some m' \<and> member_wf m'"
  using story_returns history_keeps_invariant [OF pair_wf] by blast

text \<open>
  C10. Along every such history known nodes keep their name and address, and only move up in the
  precedence order: the number of lives never decreases, and at equal lives the state only goes
  from alive to suspected to dead or left.
\<close>

theorem history_inflates:
  assumes "member_wf m" and "runOps (handle E) inputs m = Some m'" and "lookup m i = Some n"
  shows "\<exists>n'. lookup m' i = Some n' \<and> precedes n n' \<and> same_address n n'"
  using hi.run_inflates [OF assms(1,2)] assms(3) by (simp add: view_le_def)

theorem history_inflates_witness:
  "\<exists>m' n'. runOps (handle ref_env) story (pair StateAlive) = Some m' \<and> lookup m' ''b'' = Some n'
     \<and> precedes (peer ''b'' 1 StateAlive) n' \<and> same_address (peer ''b'' 1 StateAlive) n'"
proof -
  obtain m' where "runOps (handle ref_env) story (pair StateAlive) = Some m'" using story_returns by blast
  with history_inflates [OF pair_wf this, of "''b''"] show ?thesis by simp
qed

text \<open>
  C11. An alive message refines the abstract transition on views: a message that is not admitted (it
  is about the local node after it left, or its address is outside the allowed networks) changes
  nothing; otherwise an unknown node joins with the data of the message, and a known node is revived
  with the new tags exactly when the message has more lives.
\<close>

theorem aliveNode_refines:
  assumes "member_wf m"
  shows "lookup (aliveNode E now rnd a notify m) = (if admits m a then alive_spec now a (lookup m) else lookup m)
    \<and> member_wf (aliveNode E now rnd a notify m)"
  using aliveNode_view_wf [OF assms] by blast

theorem aliveNode_refines_witness:
  "lookup (aliveNode ref_env 7 0 \<lparr>a_Lives = 2, a_ID = ''b'', a_IP = [10, 0, 0, 1], a_Port = 1, a_Tags = [9]\<rparr> None
     (pair StateDead)) ''b'' = Some ((peer ''b'' 2 StateAlive)\<lparr>ns_Node := (ns_Node (peer ''b'' 2 StateAlive))\<lparr>n_Tags := [9]\<rparr>,
       ns_StateChange := 7\<rparr>)"
  using aliveNode_refines [OF pair_wf [of StateDead], of ref_env 7 0
      "\<lparr>a_Lives = 2, a_ID = ''b'', a_IP = [10, 0, 0, 1], a_Port = 1, a_Tags = [9]\<rparr>" None]
  by (simp add: admits_def alive_spec_def revived_def peer_def word_le_nat_alt)

text \<open>
  C12. A suspect message refines the abstract transition: an accusation of the local node is
  answered by a refutation (or, at the largest number of lives, the handler never returns), and any
  other node that is alive with at most the lives of the message becomes suspected.
\<close>

theorem suspectNode_refines:
  assumes "member_wf m"
  shows "map_option lookup (suspectNode E now s m) =
      (if accused m (s_ID s) (s_Lives s)
       then if s_Lives s = - 1 then None
            else Some (refute_spec (s_ID s) (refuteNo (s_Lives s) (m_lives m)) (lookup m))
       else Some (suspect_spec now s (lookup m)))
    \<and> pred_option member_wf (suspectNode E now s m)"
  using assms by (rule suspectNode_view_wf)

theorem suspectNode_refines_witness:
  "map_option lookup (suspectNode ref_env 5 suspectB (pair StateAlive)) =
     Some ((lookup (pair StateAlive))(''b'' \<mapsto> suspected 5 1 (peer ''b'' 1 StateAlive)))"
  using suspectNode_refines [OF pair_wf [of StateAlive], of ref_env 5 suspectB]
  by (simp add: accused_def suspectB_def suspect_spec_def)

text \<open>
  C13. A dead message refines the abstract transition: the local node refutes it unless it has left,
  and any other node that is not yet dead, with at most the lives of the message, becomes dead or, if
  the message says so, left.
\<close>

theorem deadNode_refines:
  assumes "member_wf m"
  shows "map_option lookup (deadNode E now d notify m) =
      (if accused m (d_ID d) (d_Lives d) \<and> \<not> m_left m
       then if d_Lives d = - 1 then None
            else Some (refute_spec (d_ID d) (refuteNo (d_Lives d) (m_lives m)) (lookup m))
       else Some (dead_spec now d (lookup m)))
    \<and> pred_option member_wf (deadNode E now d notify m)"
  using assms by (rule deadNode_view_wf)

theorem deadNode_refines_witness:
  "map_option lookup (deadNode ref_env 5 \<lparr>d_Lives = 4, d_ID = ''a'', d_Left = False\<rparr> None (pair StateAlive)) =
     Some ((lookup (pair StateAlive))(''a'' \<mapsto> peer ''a'' 5 StateAlive))"
  using deadNode_refines [OF pair_wf [of StateAlive], of ref_env 5 "\<lparr>d_Lives = 4, d_ID = ''a'', d_Left = False\<rparr>" None]
  by (simp add: accused_def refute_spec_def refuteNo_def peer_def)

text \<open>
  C14. A suspicion of the local node with fewer than the largest number of lives is refuted: the node
  stays alive with more lives than the accuser claimed, its own counter agrees with its entry, and the
  same accusation delivered again changes nothing.
\<close>

theorem suspicion_refuted:
  assumes wf: "member_wf m" and here: "lookup m (ID m) = Some n" "\<not> m_left m"
    and s: "s_ID s = ID m" "ns_Lives n \<le> s_Lives s" "s_Lives s \<noteq> - 1"
  shows "\<exists>m' n'. suspectNode E now s m = Some m' \<and> lookup m' (ID m) = Some n' \<and> ns_State n' = StateAlive
    \<and> s_Lives s < ns_Lives n' \<and> m_lives m' = ns_Lives n' \<and> suspectNode E now' s m' = Some m'"
proof -
  have alive: "ns_State n = StateAlive" using wf here by (auto simp: member_wf_def local_wf_def)
  obtain p where p: "m_nodeMap m (s_ID s) = Some p" "m_store m p = n" using here s by (auto simp: lookup_Some)
  have none: "m_suspicions m (s_ID s) = None"
    using member_wf_susp [OF wf here(1)] s(1) alive by simp
  let ?l = "refuteNo (s_Lives s) (m_lives m)" 
  have s1: "suspectNode E now s m = Some (refuted E p ?l m)"
    using suspectNode_local [OF p(1)] p(2) s none alive by (simp add: refute_eq)
  have l1: "lookup (refuted E p ?l m) (ID m) = Some (n\<lparr>ns_Lives := ?l\<rparr>)"
    using refuted_view_wf(1) [OF wf p(1), of E ?l] p(2) alive s here by (simp add: refute_spec_def)
  have lt: "s_Lives s < ?l" using s(3) by (rule refuteNo_gt)
  then have "suspectNode E now' s (refuted E p ?l m) = Some (refuted E p ?l m)"
    by (intro suspectNode_ignored(2) [where n = "n\<lparr>ns_Lives := ?l\<rparr>"]) (simp_all add: l1 s(1))
  then show ?thesis using s1 l1 lt alive by (auto intro!: exI [of _ "refuted E p ?l m"])
qed

theorem suspicion_refuted_witness:
  "\<exists>m' n'. suspectNode ref_env 5 \<lparr>s_Lives = 3, s_ID = ''a'', s_From = ''b''\<rparr> (pair StateAlive) = Some m'
     \<and> lookup m' ''a'' = Some n' \<and> ns_State n' = StateAlive \<and> 3 < ns_Lives n'"
  using suspicion_refuted [OF pair_wf [of StateAlive], of "peer ''a'' 1 StateAlive"
      "\<lparr>s_Lives = 3, s_ID = ''a'', s_From = ''b''\<rparr>" ref_env 5 6]
  by auto

text \<open>
  C15. A membership handler never returns exactly when the message accuses the local node, while it is
  alive and has not left, with the largest 32-bit number of lives: no number exceeds it and the loop
  of the refutation does not end.
\<close>

theorem handler_never_returns_iff:
  assumes "member_wf m"
  shows "handle E i m = None \<longleftrightarrow> maxAccusation m i"
  using assms by (rule handle_blocks)

theorem handler_never_returns_iff_witness:
  "handle ref_env (InSuspect 5 \<lparr>s_Lives = 4294967295, s_ID = ''a'', s_From = ''b''\<rparr>) (pair StateAlive) = None"
  using handler_never_returns_iff [OF pair_wf [of StateAlive], of ref_env
      "InSuspect 5 \<lparr>s_Lives = 4294967295, s_ID = ''a'', s_From = ''b''\<rparr>"]
  by (simp add: accused_def)

text \<open>
  C16. When a suspicion's timer fires, the node is declared dead exactly if it is still suspected with
  the lives the timer captured; a timer that was overtaken by a refutation or by another death changes
  nothing. The callback always returns and keeps the invariant.
\<close>

theorem suspicion_timer:
  assumes wf: "member_wf m"
  shows "\<exists>m'. timeoutFn E now i l m = Some m' \<and> member_wf m' \<and> lookup m' =
    (case lookup m i of None \<Rightarrow> lookup m | Some n \<Rightarrow>
       if ns_State n = StateSuspect \<and> ns_Lives n = l
       then (lookup m)(i \<mapsto> n\<lparr>ns_State := StateDead, ns_StateChange := now\<rparr>) else lookup m)"
proof (cases "\<exists>n. lookup m i = Some n \<and> ns_State n = StateSuspect \<and> ns_Lives n = l")
  case True
  then obtain n where n: "lookup m i = Some n" "ns_State n = StateSuspect" "ns_Lives n = l" by blast
  have "buried now \<lparr>d_Lives = l, d_ID = i, d_Left = False\<rparr> n = n\<lparr>ns_State := StateDead, ns_StateChange := now\<rparr>"
    using n(3) by (simp add: buried_def)
  then show ?thesis using timeoutFn_current [OF wf n, of E now] timeoutFn_wf [OF wf, of E now i l] n
    by (cases "timeoutFn E now i l m") simp_all
next
  case False
  from timeoutFn_stale [OF this, of E now] wf False show ?thesis by (cases "lookup m i") auto
qed

theorem suspicion_timer_witness:
  "\<exists>m1 m'. suspectNode ref_env 5 suspectB (pair StateAlive) = Some m1 \<and> timeoutFn ref_env 9 ''b'' 1 m1 = Some m'
     \<and> lookup m' ''b'' = Some ((peer ''b'' 1 StateDead)\<lparr>ns_StateChange := 9\<rparr>)"
proof -
  obtain m1 where m1: "suspectNode ref_env 5 suspectB (pair StateAlive) = Some m1" "member_wf m1"
      "lookup m1 = (lookup (pair StateAlive))(''b'' \<mapsto> suspected 5 1 (peer ''b'' 1 StateAlive))"
    using pair_suspected by blast
  from suspicion_timer [OF m1(2), of ref_env 9 "''b''" 1] m1 show ?thesis
    by (auto simp: suspected_def peer_def)
qed



text \<open>
  C18. Reaping removes from the view exactly the dead and left nodes whose timeout has passed, keeps
  every other node as it was, and keeps the invariant, for every shuffle of the remaining nodes.
\<close>

theorem reap_removes_expired:
  assumes "member_wf m"
  shows "lookup (reap clock js m) i = (case m_nodeMap m i of None \<Rightarrow> None
      | Some p \<Rightarrow>
          if DeadOrLeft (m_store m p)
            \<and> c_DeadNodeExpiredTimeout (m_config m) < clock p - ns_StateChange (m_store m p)
          then None else lookup m i)
    \<and> member_wf (reap clock js m)"
  using assms member_wf_reap [OF assms, of clock js] lookup_reap [of m clock js i]
  by (auto simp: member_wf_def lookup_def expired_def split: option.splits)

theorem reap_removes_expired_witness:
  "lookup (reap (\<lambda>_. 30 * Second + 1) (\<lambda>_. 0) (pair StateDead)) ''b'' = None
   \<and> lookup (reap (\<lambda>_. 30 * Second + 1) (\<lambda>_. 0) (pair StateDead)) ''a'' = Some (peer ''a'' 1 StateAlive)
   \<and> member_wf (reap (\<lambda>_. 30 * Second + 1) (\<lambda>_. 0) (pair StateDead))"
  using reap_removes_expired [OF pair_wf [of StateDead], of "\<lambda>_. 30 * Second + 1" "\<lambda>_. 0" "''b''"]
    reap_removes_expired [OF pair_wf [of StateDead], of "\<lambda>_. 30 * Second + 1" "\<lambda>_. 0" "''a''"]
  by (simp add: DeadOrLeft_def)

section \<open>Failure detection\<close>

text \<open>
  C19. Every node other than the local one that is not dead or left is among the next \<open>n\<close> nodes the
  probe picks, where \<open>n\<close> is the number of known nodes, wherever the probe index stands.
\<close>

theorem probing_is_fair:
  assumes "probe_wf m" and "n \<in> set (nodeList m)" and "n_ID (ns_Node n) \<noteq> ID m" and "\<not> DeadOrLeft n"
  shows "Ok n \<in> set (probes (length (m_nodes m)) m)"
  using assms by (intro probes_complete) (simp_all add: probeTarget_def)

theorem probing_is_fair_witness:
  "Ok (peer ''b'' 1 StateSuspect) \<in> set (probes 2 (pair StateSuspect))"
  using probing_is_fair [of "pair StateSuspect" "peer ''b'' 1 StateSuspect"]
  by (simp add: probe_wf_def nodeList_def DeadOrLeft_def numeral_2_eq_2)



text \<open>
  The random selection of nodes returns at most the requested number, without duplicates, and only
  known nodes that the filter accepted.
\<close>

theorem picked_nodes:
  assumes "pickRandomNodes rnd k acceptFn m = Ok picked"
  shows "int (length picked) \<le> k \<and> distinct (map (n_ID \<circ> ns_Node) picked)
    \<and> (\<forall>n \<in> set picked. n \<in> set (nodeList m) \<and> (\<exists>i. acceptFn i n))"
  using pickRandomNodes_ok [OF assms] by (simp add: picked_ok_def)

theorem picked_nodes_witness:
  "\<exists>picked. pickRandomNodes (\<lambda>_. 1) 1 (\<lambda>_ n. n_ID (ns_Node n) \<noteq> ''a'') (pair StateAlive) = Ok picked
     \<and> length picked \<le> 1 \<and> (\<forall>n \<in> set picked. n = peer ''b'' 1 StateAlive)"
proof -
  obtain picked where p: "pickRandomNodes (\<lambda>_. 1) 1 (\<lambda>_ n. n_ID (ns_Node n) \<noteq> ''a'') (pair StateAlive) = Ok picked"
    by (simp add: pickRandomNodes_def)
  from picked_nodes [OF p] p show ?thesis by (auto simp: nodeList_def)
qed

text \<open>
  While the arithmetic stays in range, a confirmation that counts moves a running suspicion timer to
  the deadline of the new number of confirmations, measured from the start of the suspicion, or starts
  the callback if that deadline has passed.
\<close>

theorem confirmation_moves_deadline:
  assumes "Confirm F now from s = (True, s', fire)" and "su_timer s \<noteq> None"
    and "\<bar>timeoutFor F s (int (length (su_confirmMap s)) + 1) - (now - su_start s)\<bar> < 2 ^ 63"
  shows "if now < su_start s + timeoutFor F s (int (length (su_confirmMap s)) + 1)
    then su_timer s' = Some (su_start s + timeoutFor F s (int (length (su_confirmMap s)) + 1)) \<and> \<not> fire
    else su_timer s' = None \<and> fire"
  using assms by (rule Confirm_deadline)

theorem confirmation_moves_deadline_witness:
  "\<exists>s'. Confirm exact_flops 500 ''c'' (newSuspicion 0 1000 6000 2 ''a'' ''b'' 1) = (True, s', False)
     \<and> su_timer s' = Some 1000"
proof -
  let ?s = "newSuspicion 0 1000 6000 2 ''a'' ''b'' 1"
  have t: "timeoutFor exact_flops ?s 2 = 1000" by (simp add: timeoutFor_def newSuspicion_def)
  obtain s' fire where c: "Confirm exact_flops 500 ''c'' ?s = (True, s', fire)"
    using Confirm_new_iff [of exact_flops 500 "''c''" ?s]
    by (cases "Confirm exact_flops 500 ''c'' ?s") (simp add: newSuspicion_def)
  from confirmation_moves_deadline [OF c] t c show ?thesis by (simp add: newSuspicion_def)
qed

text \<open>
  In exact arithmetic the timeout of a suspicion stays between its minimum, up to the millisecond
  the code truncates to, and its maximum, for every number of confirmations.
\<close>

theorem suspicion_timeout_bounds:
  assumes "1 \<le> k" and "0 \<le> su_minTimeout s" and "su_minTimeout s \<le> su_maxTimeout s" and "su_maxTimeout s < 2 ^ 63"
  shows "su_minTimeout s - Millisecond < timeoutFor exact_flops s k \<and> timeoutFor exact_flops s k \<le> su_maxTimeout s"
  using timeoutFor_exact_bounds [OF assms] by blast

theorem suspicion_timeout_bounds_witness:
  "timeoutFor exact_flops (newSuspicion 0 Second (6 * Second) 3 ''a'' ''b'' 1) 2 \<le> 6 * Second"
  using suspicion_timeout_bounds [of 2 "newSuspicion 0 Second (6 * Second) 3 ''a'' ''b'' 1"]
  by (simp add: newSuspicion_def Second_def Millisecond_def)

text \<open>
  The awareness score stays between zero and its maximum minus one, and within that range adds up
  the penalties and rewards.
\<close>

theorem punish_clamps:
  assumes "awareness_wf a" and "- (2 ^ 62) \<le> d" and "health a + d < 2 ^ 63"
  shows "awareness_wf (Punish d a) \<and> health (Punish d a) = max 0 (min (max_health a - 1) (health a + d))"
  using Punish_wf [OF assms(1)] Punish_clamp [OF assms] by blast

theorem punish_clamps_witness: "health (Punish 9 (newAwareness 8)) = 7 \<and> health (Punish (- 1) (newAwareness 8)) = 0"
proof -
  have wf: "awareness_wf (newAwareness 8)" by (rule newAwareness_wf) simp_all
  show ?thesis using punish_clamps [OF wf, of 9] punish_clamps [OF wf, of "- 1"] by (simp add: newAwareness_def)
qed

text \<open>
  An ack is delivered to the channel that waits for its sequence number, with its own payload and
  time, and a second ack with the same number is dropped.
\<close>

theorem ack_delivered_once:
  assumes "k_SeqNo b = k_SeqNo a"
  shows "pm_acks (invokeAckHandler b t' (invokeAckHandler a t (setAckHandler (k_SeqNo a) ch mng)))
    = pm_acks mng @ [(ch, \<lparr>ta_payload = k_Payload a, ta_timestamp = t\<rparr>)]"
  using invokeAckHandler_once [OF assms] invokeAckHandler_delivers [of "setAckHandler (k_SeqNo a) ch mng" a ch t]
  by (simp add: setAckHandler_def)

theorem ack_delivered_once_witness:
  "pm_acks (invokeAckHandler \<lparr>k_SeqNo = 1, k_Payload = [2]\<rparr> 5 (invokeAckHandler \<lparr>k_SeqNo = 1, k_Payload = [1]\<rparr> 4
     (setAckHandler 1 7 newPingManager))) = [(7, \<lparr>ta_payload = [1], ta_timestamp = 4\<rparr>)]"
  using ack_delivered_once [of "\<lparr>k_SeqNo = 1, k_Payload = [2]\<rparr>" "\<lparr>k_SeqNo = 1, k_Payload = [1]\<rparr>" 5 4 7 newPingManager]
  by (simp add: newPingManager_def)

section \<open>Messages on the wire\<close>

text \<open>
  A message sent with piggybacked broadcasts and received by a node with an agreeing keyring and
  the same label is handled as the message followed by what rode along, provided fewer than 255
  messages ride along.
\<close>

theorem packet_delivered:
  assumes "net_env E hinv elems" and "queue_wf hinv elems (m_mbroadcasts m)" and "delegates_ok m"
    and "keyrings_agree (m_keyring m) (m_keyring mB)" and "c_Label (m_config mB) = c_Label (m_config m)"
    and "sendMsgPiggyback E addr msg m = Some (Ok (), m')"
    and "msg \<noteq> []" and "hd msg \<noteq> tag compressMsg" and "c_UDPBufferSize (m_config m) < 65536"
  shows "\<exists>p piggy. m_sent m' = m_sent m @ [(addr, p)] \<and>
    (length piggy < 255 \<longrightarrow> handlePacket E hio p from ts mB = handleMsgs E hio from ts (msg # piggy) mB)"
  by (rule net_env.handlePacket_sent [OF assms])

theorem packet_delivered_witness:
  "\<exists>m' p piggy. sendMsgPiggyback ref_env \<lparr>ua_IP = [], ua_Port = 1\<rparr> [9, 1] (pair StateAlive) = Some (Ok (), m')
     \<and> m_sent m' = [(\<lparr>ua_IP = [], ua_Port = 1\<rparr>, p)]
     \<and> (length piggy < 255 \<longrightarrow> handlePacket ref_env \<lparr>hio_payload = None, hio_ping = (\<lambda>_. silence)\<rparr> p \<lparr>ua_IP = [], ua_Port = 2\<rparr> 0 tripleB
           = handleMsgs ref_env \<lparr>hio_payload = None, hio_ping = (\<lambda>_. silence)\<rparr> \<lparr>ua_IP = [], ua_Port = 2\<rparr> 0 ([9, 1] # piggy) tripleB)"
proof -
  obtain m' where m': "sendMsgPiggyback ref_env \<lparr>ua_IP = [], ua_Port = 1\<rparr> [9, 1] (pair StateAlive) = Some (Ok (), m')"
    using pair_sends_packet by blast
  from packet_delivered [OF re.net_env_axioms _ _ _ _ m', of tripleB] m' show ?thesis by simp
qed

text \<open>
  C21. Unpacking a packed packet returns the message, whether or not it was compressed and encrypted,
  for every keyring whose first key is the sender's.
\<close>

theorem packet_round_trip:
  assumes "codec_laws C" and "packUdp C cfg ks (Ok nonce) msg = Ok p" and "length nonce = 12"
    and "msg \<noteq> []" and "hd msg \<noteq> tag compressMsg" and "keyrings_agree ks kr"
  shows "unpackPacket C kr p (c_Label cfg) = Ok msg"
  by (rule codec_laws.unpackPacket_packUdp [OF assms])

theorem packet_round_trip_witness:
  "\<exists>p. packUdp ref_codec DefaultLANConfig (Some ring) (Ok (replicate 12 5)) [9, 1, 2] = Ok p
     \<and> unpackPacket ref_codec (Some ring) p '''' = Ok [9, 1, 2]"
proof -
  obtain p where p: "packUdp ref_codec DefaultLANConfig (Some ring) (Ok (replicate 12 5)) [9, 1, 2] = Ok p"
    using ref_packUdp_encrypted [of "Some ring" DefaultLANConfig] by (auto simp: DefaultLANConfig_def)
  with packet_round_trip [OF rc.codec_laws_axioms p, of "Some ring"] show ?thesis by (simp add: DefaultLANConfig_def)
qed

text \<open>
  C22. Unpacking a packed stream message returns its type and body, whether or not it was compressed and
  encrypted, for messages up to the maximum push size.
\<close>

theorem stream_round_trip:
  assumes "codec_laws C" and "packTcp C cfg ks (Ok nonce) (t # body) label = Ok p" and "length nonce = 12"
    and "t \<noteq> tag compressMsg" and "t \<noteq> tag encryptMsg" and "keyrings_agree ks kr"
    and "int (length body) + 30 \<le> maxPushSize"
  shows "\<exists>r. unpackStream C kr (p @ rest) label = Ok (t, body @ r)"
  by (rule codec_laws.unpackStream_packTcp [OF assms])

theorem stream_round_trip_witness:
  "\<exists>p r. packTcp ref_codec DefaultLANConfig (Some ring) (Ok (replicate 12 5)) [7, 1, 2] ''x'' = Ok p
     \<and> unpackStream ref_codec (Some ring) (p @ [3]) ''x'' = Ok (7, [1, 2] @ r)"
proof -
  obtain c where "shrink ref_codec DefaultLANConfig [7, 1, 2] = Ok c" using ref_shrink by blast
  then obtain p where p: "packTcp ref_codec DefaultLANConfig (Some ring) (Ok (replicate 12 5)) [7, 1, 2] ''x'' = Ok p"
    by (auto simp: packTcp_def encryptTcp_def encrypt_def NewCipher_def writeEncryptedSize_def encryptOverhead_def
        DefaultLANConfig_def Let_def)
  with stream_round_trip [OF rc.codec_laws_axioms p, of "Some ring" "[3]"] show ?thesis by (simp add: maxPushSize_def)
qed

text \<open>
  C23. Changing any one byte of an unencrypted packet makes unpacking fail with an error.
\<close>

theorem corrupted_packet_rejected:
  assumes "\<not> EncryptionEnabled kr" and "p = (tag hasCrcMsg # be32 (crc32 m)) @ m"
    and "i < length p" and "b \<noteq> p ! i"
  shows "\<exists>e. unpackPacket C kr (p[i := b]) label = Err e"
  using assms by (rule corrupted_byte_rejected)

theorem corrupted_packet_rejected_witness:
  "\<exists>e. unpackPacket ref_codec None (((tag hasCrcMsg # be32 (crc32 [9, 65])) @ [9, 65])[6 := 66]) '''' = Err e"
  by (rule corrupted_packet_rejected [where m = "[9, 65]"]) (simp_all add: be32_def)

text \<open>
  Without encryption, unpacking a packet panics on exactly one input: a checksum of zero over an empty
  message.
\<close>

theorem packet_panics_iff:
  "unpackPacket C None msg label = Panic p \<longleftrightarrow> p = IndexOutOfRange \<and> msg = [tag hasCrcMsg, 0, 0, 0, 0]"
  unfolding unpackPacket_panics emptyChecked_def [symmetric] by (simp add: openedPacket_def EncryptionEnabled_def)

text \<open>
  C24. Handling a packet panics, which ends the process, for exactly one content of the packet: a checksum of
  zero over an empty message, encrypted if the node has keys. No ping, ack, compound or message to be queued does,
  whatever its bytes, for a node whose queue and user's broadcasts are sound and whose encryption version is
  supported, as they are in a node that \<open>Build\<close> returns with a supported version.
\<close>

theorem packet_crashes_iff:
  assumes "net_env E hinv elems" and "sendable hinv elems m"
  shows "handlePacket E hio buf from ts m = Some (Panic p) \<longleftrightarrow>
    p = IndexOutOfRange \<and> openedPacket (m_keyring m) buf (c_Label (m_config m)) = Ok [tag hasCrcMsg, 0, 0, 0, 0]"
  using net_env.handlePacket_panics [OF assms] by (simp add: emptyChecked_def)

theorem packet_crashes_iff_witness:
  "handlePacket ref_env \<lparr>hio_payload = None, hio_ping = (\<lambda>_. silence)\<rparr> [12, 0, 0, 0, 0] \<lparr>ua_IP = [], ua_Port = 2\<rparr> 0
     (pair StateAlive) = Some (Panic IndexOutOfRange)"
  using packet_crashes_iff [OF re.net_env_axioms pair_sendable, of "\<lparr>hio_payload = None, hio_ping = (\<lambda>_. silence)\<rparr>"
      "[12, 0, 0, 0, 0]" "\<lparr>ua_IP = [], ua_Port = 2\<rparr>" 0 StateAlive IndexOutOfRange]
  by (simp add: openedPacket_def EncryptionEnabled_def)

text \<open>
  C25. Splitting messages shorter than 64 KiB into compounds and unpacking every compound returns the
  messages, in order and without truncation.
\<close>

theorem compounds_round_trip:
  assumes "\<forall>m \<in> set msgs. length m < 65536"
  shows "\<exists>parts. map (\<lambda>c. unpackCompoundMsg (tl c)) (splitToCompoundMsgs msgs) = map (\<lambda>ms. Ok (0, ms)) parts
    \<and> concat parts = msgs"
proof -
  have "unpackCompoundMsg (tl (packCompoundMsg c)) = Ok (0, c)" if "c \<in> set (chunks msgs)" for c
    using chunks_bounds [OF that] assms by (intro unpack_pack_compound) auto
  then show ?thesis
    by (intro exI [of _ "chunks msgs"]) (simp add: splitToCompoundMsgs_chunks concat_chunks)
qed

theorem compounds_round_trip_witness:
  "\<exists>parts. map (\<lambda>c. unpackCompoundMsg (tl c)) (splitToCompoundMsgs (replicate 300 [4, 2])) = map (\<lambda>ms. Ok (0, ms)) parts
    \<and> concat parts = replicate 300 [4, 2]"
  by (rule compounds_round_trip) simp

text \<open>
  C26. A compound of 256 messages is read as empty: the count is one byte, and every message in it is
  lost without an error.
\<close>

theorem compound_overflow:
  assumes "length msgs = 256"
  shows "unpackCompoundMsg (tl (packCompoundMsg msgs)) = Ok (0, [])"
  using assms by (simp add: packCompoundMsg_frame unpackCompoundMsg_def)

theorem compound_overflow_witness:
  "unpackCompoundMsg (tl (packCompoundMsg (replicate 256 [4]))) = Ok (0, [])"
  by (rule compound_overflow) simp

text \<open>
  C27. A message encrypted with any key of the keyring is decrypted if the keys tried before that key
  reject it.
\<close>

theorem decryption_survives_rotation:
  assumes "encrypt vsn key (Ok nonce) msg aad = Ok c" and "length nonce = 12" and "ks = before @ key # after"
    and "\<And>k. k \<in> set before \<Longrightarrow> \<exists>e. decrypt k c aad = Err e"
  shows "decryptWithKeys ks c aad = Ok msg"
  using assms by (rule decryptWithKeys_encrypt)

theorem decryption_survives_rotation_witness:
  "\<exists>c. encrypt 0 (replicate 16 7) (Ok (replicate 12 1)) [1, 2, 3] [] = Ok c
     \<and> decryptWithKeys [[], replicate 16 7] c [] = Ok [1, 2, 3]"
proof -
  obtain c where c: "encrypt 0 (replicate 16 7) (Ok (replicate 12 1)) [1, 2, 3] [] = Ok c" by (simp add: encrypt_Ok)
  have "\<exists>e. decrypt [] c [] = Err e" by (simp add: decrypt_def NewCipher_def)
  with decryption_survives_rotation [OF c, of "[[], replicate 16 7]" "[[]]"] c show ?thesis by simp
qed

text \<open>
  Decrypting with a list of keys never panics, whatever the message.
\<close>

theorem decryption_never_panics: "decryptWithKeys ks msg data \<noteq> Panic p"
  by (rule decryptWithKeys_no_panic)

text \<open>
  Removing a key refuses the primary key, removes exactly a key of the ring, reports a key that is
  not there, and keeps the ring free of duplicates and of keys of a wrong size.
\<close>

theorem remove_key:
  assumes "keyring_wf r"
  shows "RemoveKey key r =
    (if key = sliceOf (primaryKey r) then Err ErrRemovePrimary
     else if key \<in> set (keys r) then Ok (r\<lparr>keys := remove1 key (keys r)\<rparr>)
     else Err (ErrKeyNotInKeyring key))
    \<and> (\<forall>r'. RemoveKey key r = Ok r' \<longrightarrow> keyring_wf r')"
  using RemoveKey_eq [OF assms] RemoveKey_wf [OF assms] by blast

theorem remove_key_witness:
  "RemoveKey (replicate 16 7) ring = Err ErrRemovePrimary \<and> RemoveKey [1] ring = Err (ErrKeyNotInKeyring [1])"
proof -
  have wf: "keyring_wf ring" by (simp add: keyring_wf_def ring_def valid_size_def)
  have "[1] \<noteq> replicate 16 (7 :: byte)" by (metis length_replicate length_Cons list.size(3) numeral_eq_one_iff One_nat_def semiring_norm(85))
  with remove_key [OF wf, of "replicate 16 7"] remove_key [OF wf, of "[1]"] show ?thesis
    by (simp add: ring_def sliceOf_def)
qed

section \<open>Broadcasts\<close>

text \<open>
  C28. A round of gossip returns, changes nothing but the broadcast queue and the packets sent, and every
  packet goes to a gossip target and carries a payload that fits the UDP buffer together with the
  overhead of encryption.
\<close>

theorem gossip_fits:
  assumes "net_env E hinv elems" and "queue_wf hinv elems (m_mbroadcasts m)" and "delegates_ok m"
    and "0 \<le> c_GossipNodes (m_config m)" and "cryptoOverhead m = Ok ov"
  shows "\<exists>m' ps. gossip E clock rnd m = Some (Ok m') \<and> send_frame m m'
    \<and> queue_wf hinv elems (m_mbroadcasts m') \<and> m_sent m' = m_sent m @ ps
    \<and> carry E m (\<lambda>a x. (\<exists>n \<in> set (nodeList m). a = UDPAddress (ns_Node n) \<and> (\<exists>i. gossipTarget (clock i) m n))
        \<and> int (length x) + ov \<le> c_UDPBufferSize (m_config m)) ps"
  by (rule net_env.gossip_spec [OF assms])

theorem gossip_fits_witness:
  "\<exists>m' ps. gossip ref_env (\<lambda>_. 0) (\<lambda>_. 1) (pair StateAlive) = Some (Ok m') \<and> send_frame (pair StateAlive) m'
     \<and> m_sent m' = ps"
  using gossip_fits [OF re.net_env_axioms, of "pair StateAlive" 0 "\<lambda>_. 0" "\<lambda>_. 1"]
  by (auto simp: cryptoOverhead_def)



text \<open>
  C30. Queueing a message about a name replaces the message waiting about that name, leaves all others,
  and starts with zero transmissions.
\<close>

theorem queue_supersedes:
  assumes "item_heap H hinv elems" and "queue_wf hinv elems q" and "q_idSeq q \<noteq> - 1" and "encode C t msg = Ok b"
  shows "queue_wf hinv elems (QueueMsg C H name t msg notify q)
    \<and> elems (q_queue (QueueMsg C H name t msg notify q)) =
        insert \<lparr>t_name = name, t_id = q_idSeq q, t_transmits = 0, t_msg = b, t_notify = notify\<rparr>
          {j \<in> elems (q_queue q). name = '''' \<or> t_name j \<noteq> name}"
  using item_heap.QueueMsg_spec [OF assms(1-3)] assms(4) by blast

theorem queue_supersedes_witness:
  "\<exists>b. set (q_queue (QueueMsg ref_codec list_heap ''c'' suspectMsg (P_suspect suspectB) None aQueue)) =
     {\<lparr>t_name = ''c'', t_id = 1, t_transmits = 0, t_msg = b, t_notify = None\<rparr>}"
proof -
  obtain b where b: "encode ref_codec suspectMsg (P_suspect suspectB) = Ok b" by (simp add: encode_def ref_codec_def)
  have seq: "q_idSeq aQueue = 1" by (simp add: aQueue_def QueueMsg_def NewBroadcastQueue_def encode_def ref_codec_def Push_def Let_def)
  obtain c where "set (q_queue aQueue) = {\<lparr>t_name = ''c'', t_id = 0, t_transmits = 0, t_msg = c, t_notify = None\<rparr>}"
    using aQueue_elems by blast
  then have none: "{j \<in> set (q_queue aQueue). ''c'' = [] \<or> t_name j \<noteq> ''c''} = {}" by simp
  have "q_idSeq aQueue \<noteq> - 1" by (simp add: seq)
  from conjunct2 [OF queue_supersedes [OF lh.item_heap_axioms aQueue_wf this b, of "''c''" None]] show ?thesis
    unfolding none seq by blast
qed

text \<open>
  Resizing returns a queue with as many items as fit the size, all of them from before.
\<close>

theorem resize_keeps:
  assumes "item_heap H hinv elems" and "queue_wf hinv elems q" and "0 \<le> sz"
  shows "\<exists>q'. Resize H sz q = Some (Ok q') \<and> queue_wf hinv elems q' \<and> elems (q_queue q') \<subseteq> elems (q_queue q)
    \<and> int (card (elems (q_queue q'))) = min sz (int (card (elems (q_queue q))))"
  by (rule item_heap.Resize_spec [OF assms])

theorem resize_keeps_witness:
  "\<exists>q'. Resize list_heap 0 aQueue = Some (Ok q') \<and> set (q_queue q') = {}"
  using resize_keeps [OF lh.item_heap_axioms aQueue_wf, of 0] by auto

section \<open>State exchange\<close>

text \<open>
  After a push/pull with a node that answers with its state, every node that peer knew as alive, at
  an allowed address, is known here with at least as many lives, and the invariant holds.
\<close>

theorem push_pull_spreads:
  assumes "net_env E hinv elems" and "member_wf m" and "member_wf mB"
    and "answers E mB usrB nonceB conn" and "c_Label (m_config mB) = c_Label (m_config m)"
    and "keyrings_agree (m_keyring mB) (m_keyring m)"
    and "sendLocalState E nonce usr conn (c_Label (m_config m)) m = Ok ()"
    and "\<And>n. lookup mB (ID m) = Some n \<Longrightarrow> ns_Lives n \<noteq> - 1"
  shows "\<exists>u m'. pushPullWithNode E clock rnd nonce usr (Ok conn) m = Some (Ok u, m') \<and> member_wf m'
    \<and> (\<forall>i n. lookup mB i = Some n \<and> ns_State n = StateAlive \<and> i \<noteq> ID m \<and> IPAllowed (m_config m) (n_IP (ns_Node n))
         \<longrightarrow> (\<exists>n'. lookup m' i = Some n' \<and> ns_Lives n \<le> ns_Lives n'))"
  by (rule net_env.pushPullWithNode_spreads [OF assms])

theorem push_pull_spreads_witness:
  "\<exists>conn u m' n'. pushPullWithNode ref_env (\<lambda>_. 9) (\<lambda>_. 0) (Ok (replicate 12 0)) None (Ok conn) (pair StateAlive)
       = Some (Ok u, m') \<and> member_wf m' \<and> lookup m' ''c'' = Some n' \<and> 3 \<le> ns_Lives n'"
proof -
  obtain conn where conn: "answers ref_env tripleB [] (replicate 12 0) conn" using tripleB_answers by blast
  then have send: "sendLocalState ref_env (Ok (replicate 12 0)) None conn (c_Label (m_config (pair StateAlive)))
      (pair StateAlive) = Ok ()" by (rule pair_sends)
  obtain u m' where r: "pushPullWithNode ref_env (\<lambda>_. 9) (\<lambda>_. 0) (Ok (replicate 12 0)) None (Ok conn) (pair StateAlive)
       = Some (Ok u, m')" "member_wf m'"
    and spread: "\<forall>i n. lookup tripleB i = Some n \<and> ns_State n = StateAlive \<and> i \<noteq> ''a''
      \<and> IPAllowed (m_config (pair StateAlive)) (n_IP (ns_Node n)) \<longrightarrow> (\<exists>n'. lookup m' i = Some n' \<and> ns_Lives n \<le> ns_Lives n')"
    using push_pull_spreads [OF re.net_env_axioms pair_wf [of StateAlive] tripleB_wf conn _ _ send, of "\<lambda>_. 9" "\<lambda>_. 0"]
    by (auto simp: tripleB_view)
  have "\<exists>n'. lookup m' ''c'' = Some n' \<and> 3 \<le> ns_Lives n'"
    using spread [rule_format, of "''c''" "freshNode 1 aliveC"] by (simp add: tripleB_view aliveC_def)
  with r show ?thesis by blast
qed

text \<open>
  Reading an encoded state returns the same entries and user state, whatever follows it in the
  stream.
\<close>

theorem state_round_trip:
  assumes "codec_laws C" and "encodePushPullMsg C ns usr = Ok msg"
  shows "\<exists>body. msg = tag pushPullMsg # body \<and> readRemoteState C (body @ rest) = Ok (ns, usr)"
  by (rule codec_laws.readRemoteState_encodePushPullMsg [OF assms])

theorem state_round_trip_witness:
  "\<exists>msg body. encodePushPullMsg ref_codec (localState tripleB) [42] = Ok msg \<and> msg = tag pushPullMsg # body
     \<and> readRemoteState ref_codec (body @ [1]) = Ok (localState tripleB, [42])"
proof -
  obtain msg where m: "encodePushPullMsg ref_codec (localState tripleB) [42] = Ok msg"
    by (simp add: encodePushPullMsg_def localState_def tripleB_nodes ref_codec_def)
  from state_round_trip [OF rc.codec_laws_axioms m, of "[1]"] m show ?thesis by blast
qed

text \<open>
  Merging a remote state returns and keeps the invariant if no entry about the local node has the
  largest number of lives.
\<close>

theorem merge_returns:
  assumes "member_wf m" and "\<forall>r \<in> set rs. r_ID r \<noteq> ID m \<or> r_Lives r \<noteq> - 1"
  shows "\<exists>m'. mergeState E clock rnd k rs m = Some m' \<and> member_wf m'"
  using mergeState_returns [OF assms] hi.run_wf [OF assms(1)] by (metis mergeState_history)

theorem merge_returns_witness:
  "\<exists>m'. mergeState ref_env (\<lambda>_. 0) (\<lambda>_. 0) 0 [\<lparr>r_Lives = 9, r_ID = ''a'', r_IP = [], r_Port = 0, r_Tags = [], r_State = StateDead\<rparr>]
     (pair StateAlive) = Some m' \<and> member_wf m'"
  by (rule merge_returns [OF pair_wf]) simp_all

text \<open>
  Reading a remote state panics exactly if the header has a negative number of nodes, or a negative
  length of the user state after readable entries.
\<close>

theorem remote_state_panics_iff:
  "readRemoteState C r = Panic p \<longleftrightarrow> p = MakeSliceRange \<and> (\<exists>h r1. dec_header C r = Some (h, r1)
     \<and> (h_Nodes h < 0 \<or> h_UserStateLen h < 0 \<and> (\<exists>x. readStates C (nat (h_Nodes h)) r1 = Ok x)))"
  unfolding readRemoteState_panics by (auto simp: negativeHeader_def split: option.splits outcome.splits)



section \<open>Long-running messages\<close>

text \<open>
  The message handed to the handler is one of those waiting and is taken out once; a suspect, dead or
  user message is handed out only when no alive message waits.
\<close>

theorem longrun_hands_out:
  assumes "longrun_step\<^sup>*\<^sup>* (longrun_init d) s" and "getNextMsg (sys_mng s) = Some (Ok x, mng)"
  shows "waiting (sys_mng s) = add_mset x (waiting mng)
    \<and> (lm_type x \<noteq> aliveMsg \<longrightarrow> (\<forall>y \<in># waiting (sys_mng s). lm_type y \<noteq> aliveMsg))"
proof
  show "waiting (sys_mng s) = add_mset x (waiting mng)" using assms(2) by (rule getNextMsg_waiting)
  show "lm_type x \<noteq> aliveMsg \<longrightarrow> (\<forall>y \<in># waiting (sys_mng s). lm_type y \<noteq> aliveMsg)"
    using longrun_reachable_wf [OF assms(1)] assms(2)
    by (auto simp: getNextMsg_def longrun_wf_def waiting_def split: if_splits)
qed

theorem longrun_hands_out_witness:
  "\<exists>s mng. longrun_step\<^sup>*\<^sup>* (longrun_init 1) s
     \<and> getNextMsg (sys_mng s) = Some (Ok \<lparr>lm_type = deadMsg, lm_msg = [], lm_from = \<lparr>ua_IP = [], ua_Port = 0\<rparr>\<rparr>, mng)
     \<and> waiting mng = {#}"
proof -
  let ?x = "\<lparr>lm_type = deadMsg, lm_msg = [], lm_from = \<lparr>ua_IP = [], ua_Port = 0\<rparr>\<rparr>"
  let ?s = "(longrun_init 1)\<lparr>sys_mng := (newLongRunMsgManager 1)\<lparr>lm_low := [?x]\<rparr>, sys_notifies := 1\<rparr>"
  have "longrun_step (longrun_init 1) ?s"
    using longrun_step.enqueue [of deadMsg "[]" "\<lparr>ua_IP = [], ua_Port = 0\<rparr>" "longrun_init 1" "(newLongRunMsgManager 1)\<lparr>lm_low := [?x]\<rparr>"]
    by (simp add: queueLongRunMsg_def isLongRunMsg_def longrun_init_def newLongRunMsgManager_def)
  then have r: "longrun_step\<^sup>*\<^sup>* (longrun_init 1) ?s" by blast
  have g: "getNextMsg (sys_mng ?s) = Some (Ok ?x, newLongRunMsgManager 1)"
    by (simp add: getNextMsg_def newLongRunMsgManager_def)
  from longrun_hands_out [OF r g] r g show ?thesis by (auto simp: waiting_def newLongRunMsgManager_def)
qed

text \<open>
  C32. Once a message is rejected because its queue is full, no message can be queued or taken any more,
  in every continuation: the rejecting call returns with the mutex held.
\<close>

theorem full_queue_deadlocks:
  assumes "queueLongRunMsg t msg from (sys_mng s) = Some (Err e, mng)" and "longrun_step\<^sup>*\<^sup>* (s\<lparr>sys_mng := mng\<rparr>) s'"
  shows "queueLongRunMsg t' msg' from' (sys_mng s') = None \<and> getNextMsg (sys_mng s') = None
    \<and> waiting (sys_mng s') = waiting (sys_mng s)"
proof -
  have l: "lm_locked mng" "waiting mng = waiting (sys_mng s)"
    using assms(1) by (auto simp: queueLongRunMsg_def waiting_def Let_def split: if_splits)
  with longrun_locked_frozen [OF assms(2)] have "sys_mng s' = mng" by simp
  with l show ?thesis by (simp add: queueLongRunMsg_def getNextMsg_def)
qed

theorem full_queue_deadlocks_witness:
  "\<exists>mng. queueLongRunMsg deadMsg [1] \<lparr>ua_IP = [], ua_Port = 0\<rparr> (newLongRunMsgManager 0) = Some (Err ErrQueueFull, mng)
     \<and> getNextMsg mng = None"
proof -
  obtain mng where q: "queueLongRunMsg deadMsg [1] \<lparr>ua_IP = [], ua_Port = 0\<rparr> (sys_mng (longrun_init 0)) = Some (Err ErrQueueFull, mng)"
    by (simp add: queueLongRunMsg_def longrun_init_def newLongRunMsgManager_def)
  from full_queue_deadlocks [OF q rtranclp.rtrancl_refl] q show ?thesis by (auto simp: longrun_init_def)
qed

text \<open>
  C33. A message can stay in the queue while the handler waits for a wake-up and no producer is about to
  send one: the wake-up was attempted between the handler's last look and its return to the select.
\<close>

theorem wake_up_lost:
  "\<exists>s. longrun_step\<^sup>*\<^sup>* (longrun_init 1) s \<and> sys_pc s = AtSelect \<and> sys_notifies s = 0
     \<and> \<not> lm_locked (sys_mng s) \<and> waiting (sys_mng s) \<noteq> {#}"
proof -
  let ?f = "\<lparr>ua_IP = [], ua_Port = 0\<rparr>" let ?m = "\<lparr>lm_type = aliveMsg, lm_msg = [], lm_from = ?f\<rparr>"
  let ?e = "newLongRunMsgManager 1" let ?q = "?e\<lparr>lm_high := [?m]\<rparr>"
  let ?s = "\<lambda>mng pc n. \<lparr>sys_mng = mng, sys_pc = pc, sys_notifies = n\<rparr>"
  have put: "longrun_step (?s ?e pc n) (?s ?q pc (Suc n))" for pc n
    using longrun_step.enqueue [of aliveMsg "[]" ?f "?s ?e pc n" ?q]
    by (simp add: queueLongRunMsg_def isLongRunMsg_def newLongRunMsgManager_def)
  have wake: "longrun_step (?s ?q AtSelect (Suc 0)) (?s ?q Draining 0)"
    using longrun_step.wake [of "?s ?q AtSelect (Suc 0)"] by simp
  have take: "longrun_step (?s ?q Draining 0) (?s ?e Draining 0)"
    using longrun_step.take_msg [of "?s ?q Draining 0" ?m ?e] by (simp add: getNextMsg_def newLongRunMsgManager_def)
  have drained: "longrun_step (?s ?e Draining 0) (?s ?e Returning 0)"
    using longrun_step.drained [of "?s ?e Draining 0" ErrNoLongRunMsg ?e] by (simp add: getNextMsg_def newLongRunMsgManager_def)
  have miss: "longrun_step (?s ?q Returning (Suc 0)) (?s ?q Returning 0)"
    using longrun_step.miss [of "?s ?q Returning (Suc 0)"] by simp
  have resume: "longrun_step (?s ?q Returning 0) (?s ?q AtSelect 0)"
    using longrun_step.resume [of "?s ?q Returning 0"] by simp
  have "longrun_step\<^sup>*\<^sup>* (?s ?e AtSelect 0) (?s ?q AtSelect 0)"
    by (rule longrun_run [OF put longrun_run [OF wake longrun_run [OF take longrun_run [OF drained
          longrun_run [OF put longrun_run [OF miss longrun_run [OF resume rtranclp.rtrancl_refl]]]]]]])
  then show ?thesis
    by (intro exI [of _ "?s ?q AtSelect 0"]) (simp add: longrun_init_def waiting_def newLongRunMsgManager_def)
qed

section \<open>Between two nodes\<close>







section \<open>Addresses and sockets\<close>

text \<open>
  C37. A printed address is read back: resolving the host and port that \<open>joinHostPort\<close> prints for an IPv4
  or IPv6 address gives that address and port without asking a name server.
\<close>

theorem address_round_trip:
  assumes "length ip = 4 \<or> length ip = 16"
  shows "ResolveAddr R (joinHostPort (IP_String ip) port) conf = Ok ([To16 ip], port)"
  by (rule ResolveAddr_joinHostPort [OF assms])

theorem address_round_trip_witness:
  "ResolveAddr offline (joinHostPort (IP_String (replicate 15 0 @ [1])) 80) [] = Ok ([replicate 15 0 @ [1]], 80)"
  using address_round_trip [of "replicate 15 0 @ [1]" offline 80 "[]"] by (simp add: To16_def)

text \<open>
  C38. A bare IPv6 address cannot be joined: \<open>hasPort\<close> sees no port, the \<open>:0\<close> appended for one is not
  separable from the address, and \<open>ResolveAddr\<close> fails. A bare IPv4 address is accepted.
\<close>

theorem bare_IPv6_rejected:
  assumes "length ip = 16"
  shows "(\<exists>e. ResolveAddr R (IP_String ip) conf = Err e) \<longleftrightarrow> To4 ip = None"
proof (cases "To4 ip")
  case None
  with ResolveAddr_bare_IPv6 [OF assms None, of R conf] show ?thesis by (auto simp: addrErr_def)
next
  case (Some p)
  with ResolveAddr_bare_IPv4 [OF Some, of R conf] show ?thesis by simp
qed

theorem bare_IPv6_rejected_witness:
  "\<exists>e. ResolveAddr offline ''::1'' [] = Err e"
  using bare_IPv6_rejected [of "replicate 15 0 @ [1]" offline "[]"] loopback6 by simp

text \<open>
  The networks read by \<open>ParseCIDRs\<close> filter as written: for valid networks it reports no error, and
  with its result as \<open>CIDRsAllowed\<close> an address is allowed exactly if it shares the prefix bits of one of
  the networks, or none is given.
\<close>

theorem networks_filter:
  assumes "\<forall>c \<in> set cs. cidrOk c"
  shows "snd (ParseCIDRs errText (map cidrText cs)) = None
    \<and> (IPAllowed (cfg\<lparr>c_CIDRsAllowed := fst (ParseCIDRs errText (map cidrText cs))\<rparr>) q \<longleftrightarrow> cs = [] \<or> (\<exists>c \<in> set cs. inNet q c))"
  using ParseCIDRs_filter [OF assms] by simp

theorem networks_filter_witness:
  "IPAllowed (DefaultLANConfig\<lparr>c_CIDRsAllowed := fst (ParseCIDRs (\<lambda>_. '''') [cidrText ([10, 0, 0, 0], 8)])\<rparr>) [10, 1, 2, 3]
   \<and> \<not> IPAllowed (DefaultLANConfig\<lparr>c_CIDRsAllowed := fst (ParseCIDRs (\<lambda>_. '''') [cidrText ([10, 0, 0, 0], 8)])\<rparr>) [11, 1, 2, 3]"
proof -
  have "inNet [10, 1, 2, 3] ([10, 0, 0, 0], 8)" "\<not> inNet [11, 1, 2, 3] ([10, 0, 0, 0], 8)" "cidrOk ([10, 0, 0, 0], 8)"
    by (simp_all add: inNet_def cidrOk_def family_def To4_def ipBits_def byteMsb_def numeral_eq_Suc)
  with networks_filter [of "[([10, 0, 0, 0], 8)]" "\<lambda>_. ''''" DefaultLANConfig "[10, 1, 2, 3]"]
    networks_filter [of "[([10, 0, 0, 0], 8)]" "\<lambda>_. ''''" DefaultLANConfig "[11, 1, 2, 3]"] show ?thesis by simp
qed

text \<open>
  C39. A transport that starts holds one listener and one datagram socket per address, all on one port other
  than 0; shutting it down closes exactly the sockets it opened.
\<close>

theorem start_then_shutdown:
  assumes "kernel_laws OS opened" and "Start OS t s = (Ok (), t1, s1)" and "transportShutdown OS t1 s1 = (t2, s2)"
    and "idleTransport t"
  shows "started (nt_bindAddrs t) t1 \<and> opened s1 = opened s \<union> sockets t1 \<and> sockets t1 \<inter> opened s = {} \<and> opened s2 = opened s"
  using kernel_laws.Start_Ok [OF assms(1,2,4)] kernel_laws.Start_Shutdown [OF assms] by blast

theorem start_then_shutdown_witness:
  "\<exists>t1 s1 t2 s2. Start ref_os transportA [] = (Ok (), t1, s1) \<and> length (nt_tcpListeners t1) = 1
     \<and> transportShutdown ref_os t1 s1 = (t2, s2) \<and> s2 = []"
proof -
  obtain t1 s1 where a: "Start ref_os transportA [] = (Ok (), t1, s1)" using transportA_starts by blast
  obtain t2 s2 where b: "transportShutdown ref_os t1 s1 = (t2, s2)" by fastforce
  from start_then_shutdown [OF rk.kernel_laws_axioms a b] a b show ?thesis
    by (auto simp: idleTransport_def started_def transportA_def)
qed

text \<open>
  C40. The pool of test addresses never hands out an address twice: at every moment of every interleaving
  of the goroutines that use it, the addresses held and those in the list are distinct, and together
  they are those it started with.
\<close>

theorem pool_addresses_exclusive:
  assumes "pool_run (poolInit BindAddrs) p"
  shows "distinct (al_ips (pl_list p) @ map snd (pl_held p))
    \<and> set (al_ips (pl_list p)) \<union> snd ` set (pl_held p) = set (al_ips BindAddrs)"
  using pool_run_distinct [OF assms] newAddressList_distinct by (simp add: BindAddrs_def)

theorem pool_addresses_exclusive_witness:
  "\<exists>p. pool_run (poolInit BindAddrs) p \<and> pl_held p = [(0, v4InV6 [127, 0, 0, 10])]
     \<and> v4InV6 [127, 0, 0, 10] \<notin> set (al_ips (pl_list p))"
proof -
  have "map_option fst (NextAddr BindAddrs) = Some (v4InV6 [127, 0, 0, 10])" by code_simp
  then obtain a where a: "NextAddr BindAddrs = Some (v4InV6 [127, 0, 0, 10], a)" by auto
  let ?p = "(poolInit BindAddrs)\<lparr>pl_list := a, pl_held := [(0, v4InV6 [127, 0, 0, 10])]\<rparr>"
  have "pool_step (poolInit BindAddrs) ?p"
    using pool_step.take [of "poolInit BindAddrs" 0 "v4InV6 [127, 0, 0, 10]" a] a by (simp add: poolInit_def)
  then have "pool_run (poolInit BindAddrs) ?p" by blast
  from pool_addresses_exclusive [OF this] this show ?thesis by (intro exI [of _ ?p]) simp
qed

end
